(* ===== verification/Prelude.thy ===== *)
theory Prelude
  imports Main "HOL-Library.Word"
begin

text \<open>
  Shared ground of the development: the machine types of the C++ code, raw memory accesses that
  may leave their buffer, little-endian integers, and the generic lemmas on these that the
  component theories use.

  A C++ access \<open>bytes[i]\<close> or \<open>data[i]\<close> is unchecked. The model keeps the failure:
  an access outside the buffer yields \<open>OutOfBounds\<close>, and "no access of this routine leaves its
  buffer" is the theorem that the routine's value is \<open>Got\<close> something for every input.
\<close>

unbundle bit_operations_syntax

type_synonym byte = "8 word"
type_synonym bytes = "byte list"
type_synonym u8 = "8 word"
type_synonym u16 = "16 word"
type_synonym u32 = "32 word"
type_synonym u64 = "64 word"
type_synonym i64 = "64 word" \<comment> \<open>two's complement, read by \<open>sint\<close>\<close>

text \<open>Facts that compute little-endian reads, and facts that discharge buffer bounds.\<close>

named_theorems le_simps
named_theorems access_simps

section \<open>Memory accesses\<close>

datatype 'a access = OutOfBounds | Got 'a

fun acc_bind :: "'a access \<Rightarrow> ('a \<Rightarrow> 'b access) \<Rightarrow> 'b access" where
  "acc_bind OutOfBounds f = OutOfBounds"
| "acc_bind (Got x) f = f x"

definition byte_at :: "bytes \<Rightarrow> nat \<Rightarrow> byte access" where
  "byte_at bs i = (if i < length bs then Got (bs ! i) else OutOfBounds)"

definition put_byte :: "bytes \<Rightarrow> nat \<Rightarrow> byte \<Rightarrow> bytes access" where
  "put_byte bs i b = (if i < length bs then Got (bs[i := b]) else OutOfBounds)"

definition sub_bytes :: "bytes \<Rightarrow> nat \<Rightarrow> nat \<Rightarrow> bytes" where
  "sub_bytes bs off n = take n (drop off bs)"

definition range_at :: "bytes \<Rightarrow> nat \<Rightarrow> nat \<Rightarrow> bytes access" where
  "range_at bs off n = (if off + n \<le> length bs then Got (sub_bytes bs off n) else OutOfBounds)"

lemma acc_bind_cong [fundef_cong]:
  "x = y \<Longrightarrow> (\<And>v. y = Got v \<Longrightarrow> f v = g v) \<Longrightarrow> acc_bind x f = acc_bind y g"
  by (cases y) auto

lemma acc_bind_eq_Got [simp]: "acc_bind m f = Got y \<longleftrightarrow> (\<exists>x. m = Got x \<and> f x = Got y)"
  by (cases m) auto

lemma acc_bind_eq_OutOfBounds [simp]:
  "acc_bind m f = OutOfBounds \<longleftrightarrow> m = OutOfBounds \<or> (\<exists>x. m = Got x \<and> f x = OutOfBounds)"
  by (cases m) auto

lemma not_OutOfBounds_iff: "m \<noteq> OutOfBounds \<longleftrightarrow> (\<exists>x. m = Got x)"
  by (cases m) auto

lemma byte_at_Got [access_simps]: "i < length bs \<Longrightarrow> byte_at bs i = Got (bs ! i)"
  by (simp add: byte_at_def)

lemma put_byte_Got [access_simps]: "i < length bs \<Longrightarrow> put_byte bs i b = Got (bs[i := b])"
  by (simp add: put_byte_def)

lemma range_at_Got [access_simps]: "off + n \<le> length bs \<Longrightarrow> range_at bs off n = Got (sub_bytes bs off n)"
  by (simp add: range_at_def)

lemma length_sub_bytes [simp]: "length (sub_bytes bs off n) = min n (length bs - off)"
  by (simp add: sub_bytes_def)

lemma nth_sub_bytes [simp]: "i < n \<Longrightarrow> off + i < length bs \<Longrightarrow> sub_bytes bs off n ! i = bs ! (off + i)"
  by (simp add: sub_bytes_def)

lemma sub_bytes_append_mid: "length xs = off \<Longrightarrow> length ys = n \<Longrightarrow> sub_bytes (xs @ ys @ zs) off n = ys"
  by (simp add: sub_bytes_def)

text \<open>Reads of a buffer given in segments.\<close>

lemma sub_bytes_append:
  "off + n \<le> length xs \<Longrightarrow> sub_bytes (xs @ ys) off n = sub_bytes xs off n"
  "length xs \<le> off \<Longrightarrow> sub_bytes (xs @ ys) off n = sub_bytes ys (off - length xs) n"
  by (simp_all add: sub_bytes_def)

lemma sub_bytes_replicate: "off + n \<le> k \<Longrightarrow> sub_bytes (replicate k b) off n = replicate n b"
  by (simp add: sub_bytes_def)

section \<open>Words as natural numbers\<close>

lemma bit_less_exp:
  fixes x :: "'a::len word"
  assumes "unat x < 2 ^ k" "bit x n" shows "n < k"
proof -
  have "take_bit k (unat x) = unat x" using assms(1) by (simp add: take_bit_nat_eq_self)
  moreover have "bit (unat x) n" using assms(2) by (simp add: bit_unsigned_iff bit_imp_le_length)
  ultimately show ?thesis by (metis bit_take_bit_iff)
qed
text \<open>An OR with a shifted value adds when the other operand fits below the shift.\<close>

lemma unat_shift_or:
  fixes x c :: "'a::len word"
  assumes "unat x < 2 ^ k" 
  shows "unat (push_bit k c OR x) = unat (push_bit k c) + unat x"
proof -
  have z: "push_bit k c AND x = 0"
    using assms by (auto intro!: bit_word_eqI simp: bit_simps dest: bit_less_exp)
  have "unat (push_bit k c) AND unat x = 0"
    using z by (metis unat_0 unsigned_and_eq)
  then have "unat (push_bit k c) OR unat x = unat (push_bit k c) + unat x"
    by (metis disjunctive_add_eq_or)
  then show ?thesis by (simp add: unsigned_or_eq)
qed
lemma unat_and_mask: "unat (x AND mask k :: 'a::len word) = unat x mod 2 ^ k"
  by (metis take_bit_eq_mask take_bit_eq_mod unsigned_take_bit_eq)
lemma unat_drop_bit: "unat (drop_bit k x :: 'a::len word) = unat x div 2 ^ k"
  by (metis unat_drop_bit_eq drop_bit_eq_div)
lemma unat_ucast: "unat (ucast (x::'a::len word) :: 'b::len word) = unat x mod 2 ^ LENGTH('b)"
  by (simp add: unsigned_ucast_eq take_bit_eq_mod)

lemma unat_push_bit: "unat (push_bit k x :: 'a::len word) = unat x * 2 ^ k mod 2 ^ LENGTH('a)"
  by (metis unsigned_push_bit_eq take_bit_eq_mod push_bit_eq_mult)

lemma unat_byte_lt: "unat (b :: byte) < 256"
  using unsigned_less [of b, where ?'a = nat] by simp

lemma unat_u16_lt: "unat (b :: u16) < 65536"
  using unsigned_less [of b, where ?'a = nat] by simp

lemma unat_u32_lt: "unat (b :: u32) < 4294967296"
  using unsigned_less [of b, where ?'a = nat] by simp

text \<open>Zero-filled bytes; \<open>zeros n\<close> is kept folded, so that long runs stay small terms.\<close>

definition zeros :: "nat \<Rightarrow> bytes" where
  "zeros n = replicate n 0"

lemma length_zeros [simp]: "length (zeros n) = n"
  by (simp add: zeros_def)

lemma sub_bytes_zeros: "off + n \<le> m \<Longrightarrow> sub_bytes (zeros m) off n = zeros n"
  by (simp add: zeros_def sub_bytes_def min_def)

lemma sub_bytes_zero: "sub_bytes xs 0 n = take n xs"
  by (simp add: sub_bytes_def)

end
