(* ===== verification/Utf.thy ===== *)
theory Utf
  imports Prelude
begin

text \<open>
  Model of \<open>src/Utf.cpp\<close>: the conversion of an NTFS file name from UTF-16LE to UTF-8.
  \<open>append_utf8\<close> and \<open>read_u16le\<close> are the two helpers of the anonymous namespace,
  \<open>utf16_unit\<close> is the body of the conversion loop up to the skip of zero code points, and
  \<open>utf16le_loop\<close> the loop itself. Reads through the \<open>data\<close> pointer are unchecked
  accesses of the underlying buffer, so that staying inside it is a theorem.
  The reference side is a strict UTF-8 decoder and the UTF-16 decoding of a list of code units,
  both on natural numbers.
\<close>

section \<open>The code\<close>

definition append_utf8 :: "bytes \<Rightarrow> u32 \<Rightarrow> bytes" where
  "append_utf8 out cp =
     (if cp \<le> 0x7F then out @ [ucast cp]
      else if cp \<le> 0x7FF then
        out @ [ucast (0xC0 OR drop_bit 6 cp), ucast (0x80 OR (cp AND 0x3F))]
      else if cp \<le> 0xFFFF then
        out @ [ucast (0xE0 OR drop_bit 12 cp), ucast (0x80 OR (drop_bit 6 cp AND 0x3F)),
               ucast (0x80 OR (cp AND 0x3F))]
      else
        out @ [ucast (0xF0 OR drop_bit 18 cp), ucast (0x80 OR (drop_bit 12 cp AND 0x3F)),
               ucast (0x80 OR (drop_bit 6 cp AND 0x3F)), ucast (0x80 OR (cp AND 0x3F))])"

definition read_u16le :: "bytes \<Rightarrow> nat \<Rightarrow> u16 access" where
  "read_u16le bs p =
     acc_bind (byte_at bs p) (\<lambda>lo. acc_bind (byte_at bs (p + 1)) (\<lambda>hi.
       Got ((ucast lo :: u16) OR push_bit 8 (ucast hi))))"

text \<open>
  One iteration: the code point read at index \<open>i\<close> and the value of \<open>i\<close> after the body
  (2 larger when a surrogate pair was consumed, before the loop's own \<open>i += 2\<close>).
\<close>

definition utf16_unit :: "bytes \<Rightarrow> nat \<Rightarrow> nat \<Rightarrow> nat \<Rightarrow> (u32 \<times> nat) access" where
  "utf16_unit bs data byte_count i =
     acc_bind (read_u16le bs (data + i)) (\<lambda>u.
       let cp = (ucast u :: u32) in
       if 0xD800 \<le> cp \<and> cp \<le> 0xDBFF then
         (if i + 3 < byte_count then
            acc_bind (read_u16le bs (data + i + 2)) (\<lambda>l.
              let low = (ucast l :: u32) in
              if 0xDC00 \<le> low \<and> low \<le> 0xDFFF
              then Got (0x10000 + (push_bit 10 (cp - 0xD800) OR (low - 0xDC00)), i + 2)
              else Got (0xFFFD, i))
          else Got (0xFFFD, i))
       else if 0xDC00 \<le> cp \<and> cp \<le> 0xDFFF then Got (0xFFFD, i)
       else Got (cp, i))"

lemma utf16_unit_index: "utf16_unit bs data n i = Got (cp, j) \<Longrightarrow> j = i \<or> j = i + 2"
  by (auto simp: utf16_unit_def Let_def split: if_splits)

function utf16le_loop :: "bytes \<Rightarrow> nat \<Rightarrow> nat \<Rightarrow> nat \<Rightarrow> bytes \<Rightarrow> bytes access" where
  "utf16le_loop bs data byte_count i out =
     (if i + 1 < byte_count then
        acc_bind (utf16_unit bs data byte_count i) (\<lambda>(cp, j).
          if cp = 0 then utf16le_loop bs data byte_count (j + 2) out
          else utf16le_loop bs data byte_count (j + 2) (append_utf8 out cp))
      else Got out)"
  by pat_completeness auto
termination
  by (relation "measure (\<lambda>(bs, data, n, i, out). n - i)")
    (auto dest!: utf16_unit_index)

declare utf16le_loop.simps [simp del]

definition utf16le_to_utf8 :: "bytes \<Rightarrow> nat \<Rightarrow> nat \<Rightarrow> bytes access" where
  "utf16le_to_utf8 bs data byte_count = utf16le_loop bs data byte_count 0 []"

section \<open>Reference: UTF-16 and UTF-8 as code point sequences\<close>

definition is_high :: "nat \<Rightarrow> bool" where
  "is_high u \<longleftrightarrow> 0xD800 \<le> u \<and> u \<le> 0xDBFF"

definition is_low :: "nat \<Rightarrow> bool" where
  "is_low u \<longleftrightarrow> 0xDC00 \<le> u \<and> u \<le> 0xDFFF"

definition scalar :: "nat \<Rightarrow> bool" where
  "scalar c \<longleftrightarrow> c < 0x110000 \<and> \<not> (0xD800 \<le> c \<and> c \<le> 0xDFFF)"

fun code_units :: "bytes \<Rightarrow> nat list" where
  "code_units (lo # hi # bs) = (unat lo + 256 * unat hi) # code_units bs"
| "code_units _ = []"

fun code_points :: "nat list \<Rightarrow> nat list" where
  "code_points [] = []"
| "code_points [u] = [if is_high u \<or> is_low u then 0xFFFD else u]"
| "code_points (u # l # us) =
     (if is_high u then
        (if is_low l then (0x10000 + (u - 0xD800) * 1024 + (l - 0xDC00)) # code_points us
         else 0xFFFD # code_points (l # us))
      else (if is_low u then 0xFFFD else u) # code_points (l # us))"

fun utf16_encode :: "nat list \<Rightarrow> nat list" where
  "utf16_encode [] = []"
| "utf16_encode (c # cs) =
     (if c < 0x10000 then c # utf16_encode cs
      else (0xD800 + (c - 0x10000) div 1024) # (0xDC00 + (c - 0x10000) mod 1024) # utf16_encode cs)"

definition cont_byte :: "byte \<Rightarrow> bool" where
  "cont_byte b \<longleftrightarrow> unat b div 64 = 2"

text \<open>The strict decoder: overlong forms, surrogates and values beyond 10FFFF are errors.\<close>

fun utf8_decode :: "bytes \<Rightarrow> nat list option" where
  "utf8_decode [] = Some []"
| "utf8_decode (b # bs) =
     (if unat b < 0x80 then map_option ((#) (unat b)) (utf8_decode bs)
      else if unat b div 32 = 6 then
        (case bs of
           c1 # bs1 \<Rightarrow>
             let cp = unat b mod 32 * 64 + unat c1 mod 64 in
             if cont_byte c1 \<and> 0x80 \<le> cp then map_option ((#) cp) (utf8_decode bs1) else None
         | _ \<Rightarrow> None)
      else if unat b div 16 = 14 then
        (case bs of
           c1 # c2 # bs2 \<Rightarrow>
             let cp = unat b mod 16 * 4096 + unat c1 mod 64 * 64 + unat c2 mod 64 in
             if cont_byte c1 \<and> cont_byte c2 \<and> 0x800 \<le> cp \<and> scalar cp
             then map_option ((#) cp) (utf8_decode bs2) else None
         | _ \<Rightarrow> None)
      else if unat b div 8 = 30 then
        (case bs of
           c1 # c2 # c3 # bs3 \<Rightarrow>
             let cp = unat b mod 8 * 262144 + unat c1 mod 64 * 4096 + unat c2 mod 64 * 64
                        + unat c3 mod 64 in
             if cont_byte c1 \<and> cont_byte c2 \<and> cont_byte c3 \<and> 0x10000 \<le> cp \<and> scalar cp
             then map_option ((#) cp) (utf8_decode bs3) else None
         | _ \<Rightarrow> None)
      else None)"

section \<open>Encoding of one code point\<close>

lemma unat_lead_or:
  fixes x :: u32
  shows "unat x < 64 \<Longrightarrow> unat (0x80 OR x) = 128 + unat x"
    and "unat x < 64 \<Longrightarrow> unat (0xC0 OR x) = 192 + unat x"
    and "unat x < 32 \<Longrightarrow> unat (0xE0 OR x) = 224 + unat x"
    and "unat x < 16 \<Longrightarrow> unat (0xF0 OR x) = 240 + unat x"
  using unat_shift_or [of x 6 2] unat_shift_or [of x 6 3] unat_shift_or [of x 5 7] unat_shift_or [of x 4 15]
  by (simp_all add: push_bit_eq_mult)

lemma unat_and_3F: "unat ((x::u32) AND 0x3F) = unat x mod 64"
  using unat_and_mask [of x 6] by (simp add: mask_eq_exp_minus_1)

definition utf8_bytes :: "nat \<Rightarrow> nat list" where
  "utf8_bytes c =
     (if c \<le> 0x7F then [c]
      else if c \<le> 0x7FF then [192 + c div 64, 128 + c mod 64]
      else if c \<le> 0xFFFF then [224 + c div 4096, 128 + c div 64 mod 64, 128 + c mod 64]
      else [240 + c div 262144, 128 + c div 4096 mod 64, 128 + c div 64 mod 64, 128 + c mod 64])"

lemma append_utf8_bytes:
  assumes "unat cp < 0x110000"
  shows "\<exists>cs. append_utf8 out cp = out @ cs \<and> map unat cs = utf8_bytes (unat cp)"
  using assms
  by (auto simp: append_utf8_def utf8_bytes_def word_le_nat_alt unat_ucast unat_lead_or unat_and_3F
      unat_drop_bit) 




lemma lead_byte:
  fixes x :: nat
  shows "x < 32 \<Longrightarrow> (192 + x) mod 32 = x" and "x < 32 \<Longrightarrow> (192 + x) div 32 = 6"
    and "x < 16 \<Longrightarrow> (224 + x) mod 16 = x" and "x < 16 \<Longrightarrow> (224 + x) div 16 = 14"
    and "x < 16 \<Longrightarrow> (224 + x) div 32 = 7"
    and "x < 8 \<Longrightarrow> (240 + x) mod 8 = x" and "x < 8 \<Longrightarrow> (240 + x) div 8 = 30"
    and "x < 8 \<Longrightarrow> (240 + x) div 16 = 15" and "x < 8 \<Longrightarrow> (240 + x) div 32 = 7"
    and "x < 64 \<Longrightarrow> (128 + x) mod 64 = x" and "x < 64 \<Longrightarrow> (128 + x) div 64 = 2"
  using mod_mult_self3 [of 6 32 x] mod_mult_self3 [of 14 16 x] mod_mult_self3 [of 30 8 x]
    mod_mult_self3 [of 2 64 x]
  by (auto intro!: div_nat_eqI)

lemma decode_seq2:
  assumes "unat b = 192 + x" "x < 32" "unat c1 = 128 + y" "y < 64" "c = x * 64 + y" "0x80 \<le> c"
  shows "utf8_decode (b # c1 # rest) = map_option ((#) c) (utf8_decode rest)"
  using assms by (simp add: lead_byte cont_byte_def Let_def)

lemma decode_seq3:
  assumes "unat b = 224 + x" "x < 16" "unat c1 = 128 + y" "y < 64" "unat c2 = 128 + z" "z < 64"
    and "c = x * 4096 + y * 64 + z" "0x800 \<le> c" "scalar c"
  shows "utf8_decode (b # c1 # c2 # rest) = map_option ((#) c) (utf8_decode rest)"
  using assms by (simp add: lead_byte cont_byte_def Let_def)

lemma decode_seq4:
  assumes "unat b = 240 + x" "x < 8" "unat c1 = 128 + y" "y < 64" "unat c2 = 128 + z" "z < 64"
    and "unat c3 = 128 + w" "w < 64"
    and "c = x * 262144 + y * 4096 + z * 64 + w" "0x10000 \<le> c" "scalar c"
  shows "utf8_decode (b # c1 # c2 # c3 # rest) = map_option ((#) c) (utf8_decode rest)"
  using assms by (simp add: lead_byte cont_byte_def Let_def)

lemma base64_digits:
  fixes c :: nat
  shows "c div 64 * 64 + c mod 64 = c"
    and "c div 4096 * 4096 + c div 64 mod 64 * 64 + c mod 64 = c"
    and "c div 262144 * 262144 + c div 4096 mod 64 * 4096 + c div 64 mod 64 * 64 + c mod 64 = c"
proof -
  have 1: "c div 64 * 64 + c mod 64 = c" by simp
  have 2: "c div 4096 * 64 + c div 64 mod 64 = c div 64"
    using div_mult_mod_eq [of "c div 64" 64] by (simp flip: div_mult2_eq)
  have 3: "c div 262144 * 64 + c div 4096 mod 64 = c div 4096"
    using div_mult_mod_eq [of "c div 4096" 64] by (simp flip: div_mult2_eq)
  show "c div 64 * 64 + c mod 64 = c" by (rule 1)
  show "c div 4096 * 4096 + c div 64 mod 64 * 64 + c mod 64 = c"
    using 1 2 by linarith
  show "c div 262144 * 262144 + c div 4096 mod 64 * 4096 + c div 64 mod 64 * 64 + c mod 64 = c"
    using 1 2 3 by linarith
qed

lemma utf8_decode_bytes:
  assumes "scalar c" "map unat cs = utf8_bytes c"
  shows "utf8_decode (cs @ rest) = map_option ((#) c) (utf8_decode rest)"
proof -
  have s: "c < 0x110000" using assms by (auto simp: scalar_def)
  consider "c \<le> 0x7F" | "0x7F < c" "c \<le> 0x7FF" | "0x7FF < c" "c \<le> 0xFFFF" | "0xFFFF < c" by linarith
  then show ?thesis
  proof cases
    case 1 then show ?thesis using assms by (auto simp: utf8_bytes_def)
  next
    case 2
    with assms(2) obtain b c1 where "cs = [b, c1]" "unat b = 192 + c div 64" "unat c1 = 128 + c mod 64"
      by (auto simp: utf8_bytes_def map_eq_Cons_conv)
    with 2 show ?thesis
      by (simp del: utf8_decode.simps, intro decode_seq2) (auto simp: base64_digits)
  next
    case 3
    with assms(2) obtain b c1 c2 where "cs = [b, c1, c2]" "unat b = 224 + c div 4096"
      "unat c1 = 128 + c div 64 mod 64" "unat c2 = 128 + c mod 64"
      by (auto simp: utf8_bytes_def map_eq_Cons_conv)
    with 3 assms(1) show ?thesis
      by (simp del: utf8_decode.simps, intro decode_seq3) (auto simp: base64_digits)
  next
    case 4
    with assms(2) obtain b c1 c2 c3 where "cs = [b, c1, c2, c3]" "unat b = 240 + c div 262144"
      "unat c1 = 128 + c div 4096 mod 64" "unat c2 = 128 + c div 64 mod 64" "unat c3 = 128 + c mod 64"
      by (auto simp: utf8_bytes_def map_eq_Cons_conv)
    with 4 s assms(1) show ?thesis
      by (simp del: utf8_decode.simps, intro decode_seq4) (auto simp: base64_digits)
  qed
qed

section \<open>The conversion loop\<close>

lemma read_u16le_Got:
  assumes "p + 1 < length bs"
  shows "\<exists>u. read_u16le bs p = Got u \<and> unat u = unat (bs ! p) + 256 * unat (bs ! (p + 1))"
proof -
  have lo: "unat (ucast (bs ! p) :: u16) = unat (bs ! p)"
    using unat_byte_lt [of "bs ! p"] by (simp add: unat_ucast)
  have hi: "unat (push_bit 8 (ucast (bs ! (p+1)) :: u16)) = 256 * unat (bs ! (p + 1))"
    using unat_byte_lt [of "bs ! (p + 1)"]
    by (simp add: push_bit_eq_mult unat_word_ariths unat_ucast)
  have "unat (push_bit 8 (ucast (bs ! (p+1)) :: u16) OR ucast (bs ! p)) = unat (push_bit 8 (ucast (bs ! (p+1)) :: u16)) + unat (ucast (bs ! p) :: u16)"
    by (rule unat_shift_or) (use lo unat_byte_lt [of "bs ! p"] in simp)
  then show ?thesis using assms lo hi
    by (auto simp: read_u16le_def access_simps or.commute)
qed

lemma sub_bytes_Cons2:
  "i + 1 < n \<Longrightarrow> d + n \<le> length bs \<Longrightarrow>
   sub_bytes bs (d + i) (n - i) = bs ! (d + i) # bs ! (d + i + 1) # sub_bytes bs (d + (i + 2)) (n - (i + 2))"
  by (rule nth_equalityI) (auto simp: nth_Cons split: nat.splits)

lemma code_units_short: "length xs \<le> 1 \<Longrightarrow> code_units xs = []"
  by (cases xs rule: code_units.cases) auto

lemma code_points_Cons:
  "\<not> is_high u \<Longrightarrow> code_points (u # us) = (if is_low u then 0xFFFD else u) # code_points us"
  by (cases us) auto

lemma unat_push_10: "unat x < 1024 \<Longrightarrow> unat (push_bit 10 (x :: u32)) = unat x * 1024"
  by (simp add: push_bit_eq_mult unat_word_ariths)

lemma surrogate_pair:
  assumes "0xD800 \<le> cp" "cp \<le> 0xDBFF" "0xDC00 \<le> low" "low \<le> (0xDFFF :: u32)"
  shows "unat (0x10000 + (push_bit 10 (cp - 0xD800) OR (low - 0xDC00)))
           = 0x10000 + (unat cp - 0xD800) * 1024 + (unat low - 0xDC00)"
proof -
  have h: "unat (cp - 0xD800) = unat cp - 0xD800" "unat cp - 0xD800 < 1024"
    using assms by (auto simp: unat_sub word_le_nat_alt)
  have l: "unat (low - 0xDC00) = unat low - 0xDC00" "unat low - 0xDC00 < 1024"
    using assms by (auto simp: unat_sub word_le_nat_alt)
  have p: "unat (push_bit 10 (cp - 0xD800)) = (unat cp - 0xD800) * 1024"
    using unat_push_10 [of "cp - 0xD800"] h by simp
  have "unat (push_bit 10 (cp - 0xD800) OR (low - 0xDC00)) = (unat cp - 0xD800) * 1024 + (unat low - 0xDC00)"
    using unat_shift_or [of "low - 0xDC00" 10 "cp - 0xD800"] p l by simp
  moreover have "(unat cp - 0xD800) * 1024 + (unat low - 0xDC00) < 1048576" using h l by linarith
  ultimately show ?thesis by (simp add: unat_word_ariths)
qed

lemma unat_ucast_u16: "unat (ucast (u :: u16) :: u32) = unat u"
  using unat_u16_lt [of u] by (simp add: unat_ucast)

lemma utf16_unit_step:
  assumes "i + 1 < n" "d + n \<le> length bs"
  shows "\<exists>cp j. utf16_unit bs d n i = Got (cp, j) \<and> scalar (unat cp) \<and>
    code_points (code_units (sub_bytes bs (d + i) (n - i)))
      = unat cp # code_points (code_units (sub_bytes bs (d + (j + 2)) (n - (j + 2))))"
proof -
  obtain u where u: "read_u16le bs (d + i) = Got u"
      "unat u = unat (bs ! (d + i)) + 256 * unat (bs ! (d + i + 1))"
    using read_u16le_Got [of "d + i" bs] assms by auto
  let ?rest = "code_units (sub_bytes bs (d + (i + 2)) (n - (i + 2)))"
  have units: "code_units (sub_bytes bs (d + i) (n - i)) = unat u # ?rest"
    using u by (simp add: sub_bytes_Cons2 [OF assms])
  note cmp = word_le_nat_alt unat_ucast_u16
  show ?thesis
  proof (cases "is_high (unat u)")
    case False
    then show ?thesis using u(1) unat_u16_lt [of u] unfolding units code_points_Cons [OF False]
      by (auto simp: utf16_unit_def Let_def cmp is_high_def is_low_def scalar_def)
  next
    case high: True
    show ?thesis
    proof (cases "i + 3 < n")
      case False
      then have "?rest = []" by (intro code_units_short) auto
      then show ?thesis using u(1) high False unfolding units
        by (auto simp: utf16_unit_def Let_def cmp is_high_def scalar_def)
    next
      case True
      then obtain l where l: "read_u16le bs (d + i + 2) = Got l"
          "unat l = unat (bs ! (d + i + 2)) + 256 * unat (bs ! (d + i + 3))"
        using read_u16le_Got [of "d + i + 2" bs] assms by (auto simp: numeral_3_eq_3)
      have rest: "?rest = unat l # code_units (sub_bytes bs (d + (i + 2 + 2)) (n - (i + 2 + 2)))"
        using l(2) True assms sub_bytes_Cons2 [of "i + 2" n d bs] by (simp add: eval_nat_numeral)
      show ?thesis
      proof (cases "is_low (unat l)")
        case low: True
        have "unat (0x10000 + (push_bit 10 (ucast u - 0xD800) OR (ucast l - 0xDC00)) :: u32)
                = 0x10000 + (unat u - 0xD800) * 1024 + (unat l - 0xDC00)"
          using surrogate_pair [of "ucast u" "ucast l"] high low
          by (simp add: cmp is_high_def is_low_def)
        moreover have "scalar (0x10000 + (unat u - 0xD800) * 1024 + (unat l - 0xDC00))"
          using high low by (auto simp: scalar_def is_high_def is_low_def)
        ultimately show ?thesis using u(1) l(1) high low True unfolding units rest
          by (auto simp: utf16_unit_def Let_def cmp is_high_def is_low_def add.assoc)
      next
        case False
        then have "code_points (unat u # ?rest) = 0xFFFD # code_points ?rest"
          using high unfolding rest by simp
        then show ?thesis using u(1) l(1) high True False unfolding units
          by (auto simp: utf16_unit_def Let_def cmp is_high_def is_low_def scalar_def)
      qed
    qed
  qed
qed

lemma utf8_bytes_nonzero: "c \<noteq> 0 \<Longrightarrow> 0 \<notin> set (utf8_bytes c)"
  by (auto simp: utf8_bytes_def)

lemma append_utf8_scalar:
  assumes "scalar (unat cp)"
  shows "\<exists>cs. append_utf8 out cp = out @ cs \<and> (cp \<noteq> 0 \<longrightarrow> 0 \<notin> set cs)
    \<and> (\<forall>rest. utf8_decode (cs @ rest) = map_option ((#) (unat cp)) (utf8_decode rest))"
proof -
  obtain cs where cs: "append_utf8 out cp = out @ cs" "map unat cs = utf8_bytes (unat cp)"
    using append_utf8_bytes [of cp out] assms by (auto simp: scalar_def)
  have "0 \<notin> set cs" if "cp \<noteq> 0"
  proof
    assume "0 \<in> set cs"
    then have "0 \<in> set (map unat cs)" by force
    then show False using that cs(2) utf8_bytes_nonzero [of "unat cp"] by (simp add: unat_eq_zero)
  qed
  with cs utf8_decode_bytes [OF assms cs(2)] show ?thesis by blast
qed

lemma utf16le_loop_decodes:
  assumes "d + n \<le> length bs"
  shows "\<exists>cs. utf16le_loop bs d n i out = Got (out @ cs) \<and> 0 \<notin> set cs \<and> utf8_decode cs =
     Some (filter (\<lambda>c. c \<noteq> 0) (code_points (code_units (sub_bytes bs (d + i) (n - i)))))"
  using assms
proof (induction bs d n i out rule: utf16le_loop.induct)
  case (1 bs d n i out)
  show ?case
  proof (cases "i + 1 < n")
    case False
    then have "code_units (sub_bytes bs (d + i) (n - i)) = []" by (intro code_units_short) auto
    with False show ?thesis by (simp add: utf16le_loop.simps)
  next
    case True
    obtain cp j where st: "utf16_unit bs d n i = Got (cp, j)" "scalar (unat cp)"
        "code_points (code_units (sub_bytes bs (d + i) (n - i)))
          = unat cp # code_points (code_units (sub_bytes bs (d + (j + 2)) (n - (j + 2))))"
      using utf16_unit_step [OF True 1(3)] by blast
    obtain es where es: "append_utf8 out cp = out @ es"
        "cp \<noteq> 0 \<Longrightarrow> 0 \<notin> set es"
        "\<And>rest. utf8_decode (es @ rest) = map_option ((#) (unat cp)) (utf8_decode rest)"
      using append_utf8_scalar [OF st(2)] by blast
    have z: "cp = 0 \<longleftrightarrow> unat cp = 0" by (simp add: unat_eq_zero)
    show ?thesis
    proof (cases "cp = 0")
      case c: True
      obtain cs where "utf16le_loop bs d n (j + 2) out = Got (out @ cs)" "0 \<notin> set cs" "utf8_decode cs =
          Some (filter (\<lambda>c. c \<noteq> 0) (code_points (code_units (sub_bytes bs (d + (j + 2)) (n - (j + 2))))))"
        using "1.IH"(1) [OF True st(1) refl c 1(3)] by blast
      then show ?thesis using c st True by (simp add: utf16le_loop.simps [of bs d n i])
    next
      case c: False
      obtain cs where "utf16le_loop bs d n (j + 2) (append_utf8 out cp) = Got (append_utf8 out cp @ cs)" "0 \<notin> set cs"
         "utf8_decode cs = Some (filter (\<lambda>c. c \<noteq> 0) (code_points (code_units (sub_bytes bs (d + (j + 2)) (n - (j + 2))))))"
        using "1.IH"(2) [OF True st(1) refl c 1(3)] by blast
      then show ?thesis using c st True es z
        by (intro exI [of _ "es @ cs"]) (simp add: utf16le_loop.simps [of bs d n i])
    qed
  qed
qed

lemma code_points_encode:
  "\<forall>c \<in> set cs. scalar c \<Longrightarrow> code_points (utf16_encode cs) = cs"
proof (induction cs)
  case (Cons c cs)
  show ?case
  proof (cases "c < 0x10000")
    case True
    with Cons show ?thesis by (auto simp: code_points_Cons is_high_def is_low_def scalar_def)
  next
    case False
    moreover have "(c - 0x10000) div 1024 < 1024" using Cons.prems by (auto simp: scalar_def)
    moreover have "(c - 0x10000) div 1024 * 1024 + (c - 0x10000) mod 1024 = c - 0x10000" by simp
    moreover have "(c - 0x10000) mod 1024 < 1024" by simp
    ultimately show ?thesis using Cons by (simp add: is_high_def is_low_def)
  qed
qed simp


section \<open>Properties\<close>

text \<open>The name bytes never hold a NUL, so \<open>c_str()\<close> passes the whole name on.\<close>

lemma utf16le_to_utf8_no_nul:
  "d + n \<le> length bs \<Longrightarrow> utf16le_to_utf8 bs d n = Got out \<Longrightarrow> 0 \<notin> set out"
  using utf16le_loop_decodes [of d n bs 0 "[]"] by (auto simp: utf16le_to_utf8_def)

lemma utf16le_to_utf8_safe: "d + n \<le> length bs \<Longrightarrow> utf16le_to_utf8 bs d n \<noteq> OutOfBounds"
  using utf16le_loop_decodes [of d n bs 0 "[]"] by (auto simp: utf16le_to_utf8_def)

text \<open>
  C38: for every input inside its buffer the conversion returns, reads no byte outside the
  \<open>byte_count\<close> given, and produces well-formed UTF-8 (a strict decoder accepts it) that holds
  exactly the code points of the UTF-16 input, each unpaired surrogate replaced by U+FFFD and
  zero code points dropped.
\<close>
theorem utf16le_to_utf8_decodes:
  assumes "data + byte_count \<le> length bs"
  shows "\<exists>out. utf16le_to_utf8 bs data byte_count = Got out \<and> utf8_decode out =
           Some (filter (\<lambda>c. c \<noteq> 0) (code_points (code_units (sub_bytes bs data byte_count))))"
  using utf16le_loop_decodes [OF assms, of 0 "[]"] by (auto simp: utf16le_to_utf8_def)

theorem utf16le_to_utf8_decodes_witness:
  "\<exists>out. utf16le_to_utf8 [0x41, 0, 0x3D, 0xD8, 0, 0xDE, 0, 0xDC] 0 8 = Got out
     \<and> utf8_decode out = Some [0x41, 0x1F600, 0xFFFD]"
  using utf16le_to_utf8_decodes [of 0 8 "[0x41, 0, 0x3D, 0xD8, 0, 0xDE, 0, 0xDC]"]
  by (simp add: sub_bytes_def is_high_def is_low_def)

text \<open>
  Round trip: the UTF-16 encoding of any sequence of non-zero Unicode scalar values is
  converted to UTF-8 bytes that decode to the same sequence, whatever bytes lie around it.
\<close>
theorem utf16_roundtrip:
  assumes "\<forall>c \<in> set cs. scalar c \<and> c \<noteq> 0"
    and "code_units name = utf16_encode cs"
  shows "\<exists>out. utf16le_to_utf8 (before @ name @ after) (length before) (length name) = Got out
           \<and> utf8_decode out = Some cs"
proof -
  have "code_points (code_units name) = cs"
    using assms code_points_encode [of cs] by simp
  moreover have "filter (\<lambda>c. c \<noteq> 0) cs = cs" using assms(1) by (simp add: filter_id_conv)
  moreover have "sub_bytes (before @ name @ after) (length before) (length name) = name"
    by (rule sub_bytes_append_mid) simp_all
  ultimately show ?thesis
    using utf16le_loop_decodes [of "length before" "length name" "before @ name @ after" 0 "[]"]
    by (auto simp: utf16le_to_utf8_def)
qed

theorem utf16_roundtrip_witness:
  "\<exists>out. utf16le_to_utf8 ([7] @ [0x41, 0, 0x3D, 0xD8, 0, 0xDE] @ [9])
        (length [7 :: byte]) (length [0x41, 0, 0x3D, 0xD8, 0, 0xDE :: byte]) = Got out
     \<and> utf8_decode out = Some [0x41, 0x1F600]"
  using utf16_roundtrip [of "[0x41, 0x1F600]" "[0x41, 0, 0x3D, 0xD8, 0, 0xDE]" "[7]" "[9]"]
  by (simp add: scalar_def)

end
