(* ===== verification/OutputNames.thy ===== *)
theory OutputNames
  imports Utf
begin

text \<open>
  Output names of \<open>src/RecoveryOutput.cpp\<close>: \<open>sanitize_name\<close>, which turns a name found on the
  disk into one path component, and \<open>CollisionTracker\<close>, which refuses two output paths a
  case-insensitive file system could not tell apart. A \<open>std::filesystem::path\<close> is its text, a
  byte list; \<open>operator/\<close> and \<open>lexically_normal\<close> are the POSIX ones.
\<close>

section \<open>Paths as text\<close>

type_synonym path = bytes

definition SLASH :: byte where "SLASH = 0x2F"
definition DOT :: byte where "DOT = 0x2E"

text \<open>\<open>operator/\<close>: an absolute right operand replaces the left one.\<close>

definition path_append :: "path \<Rightarrow> path \<Rightarrow> path" where
  "path_append base c =
     (if c \<noteq> [] \<and> hd c = SLASH then c
      else if base = [] \<or> last base = SLASH then base @ c
      else base @ SLASH # c)"

fun split_slash :: "bytes \<Rightarrow> bytes list" where
  "split_slash [] = [[]]"
| "split_slash (c # cs) =
     (if c = SLASH then [] # split_slash cs
      else (case split_slash cs of [] \<Rightarrow> [[c]] | s # ss \<Rightarrow> (c # s) # ss))"

fun join_slash :: "bytes list \<Rightarrow> bytes" where
  "join_slash [] = []"
| "join_slash [s] = s"
| "join_slash (s # t # ss) = s @ SLASH # join_slash (t # ss)"

text \<open>
  \<open>lexically_normal\<close>, component by component: the kept components in reverse, and whether the
  path so far denotes a directory by its form (ends in a separator, a dot or a removed dot-dot).
\<close>

definition normal_step :: "bool \<Rightarrow> bytes list \<times> bool \<Rightarrow> bytes \<Rightarrow> bytes list \<times> bool" where
  "normal_step absolute st s =
     (case st of (stack, trailing) \<Rightarrow>
        if s = [] \<or> s = [DOT] then (stack, True)
        else if s = [DOT, DOT] then
          (case stack of
             [] \<Rightarrow> if absolute then ([], True) else ([[DOT, DOT]], False)
           | t # ts \<Rightarrow> if t = [DOT, DOT] then (s # stack, False) else (ts, True))
        else (s # stack, False))"

definition lexically_normal :: "path \<Rightarrow> path" where
  "lexically_normal p =
     (if p = [] then []
      else
        (let absolute = (hd p = SLASH);
             (stack, trailing) = foldl (normal_step absolute) ([], False) (split_slash p)
         in if stack = [] then (if absolute then [SLASH] else [DOT])
            else (if absolute then [SLASH] else []) @ join_slash (rev stack)
                 @ (if trailing \<and> hd stack \<noteq> [DOT, DOT] then [SLASH] else [])))"

section \<open>\<open>sanitize_name\<close>\<close>

definition sanitize_char :: "byte \<Rightarrow> byte" where
  "sanitize_char c = (if c = SLASH \<or> c = 0x5C \<or> c < 0x20 then 0x5F else c)"

definition sanitize_name :: "bytes \<Rightarrow> bytes" where
  "sanitize_name name =
     (let name' = map sanitize_char name in
      if name' = [] \<or> name' = [DOT] \<or> name' = [DOT, DOT] then [0x5F] else name')"

section \<open>\<open>CollisionTracker\<close>\<close>

text \<open>\<open>std::tolower\<close> in the C locale, which the program never changes.\<close>

definition ascii_lower :: "byte \<Rightarrow> byte" where
  "ascii_lower b = (if 0x41 \<le> b \<and> b \<le> 0x5A then b + 0x20 else b)"

definition collision_key :: "path \<Rightarrow> bytes" where
  "collision_key p = map (\<lambda>b. if b < 0x80 then ascii_lower b else b) (lexically_normal p)"

record tracker_entry =
  te_original_name :: bytes
  te_record_id :: u64
  te_path :: path

type_synonym tracker = "bytes \<rightharpoonup> tracker_entry"

text \<open>\<open>CollisionTracker::add\<close>: the exception names the previous entry and the new one.\<close>

definition tracker_add ::
  "tracker \<Rightarrow> path \<Rightarrow> bytes \<Rightarrow> u64 \<Rightarrow> (tracker_entry \<times> tracker_entry) + tracker" where
  "tracker_add entries relative_path original_name record_id =
     (let key = collision_key relative_path;
          candidate = \<lparr>te_original_name = original_name, te_record_id = record_id,
                       te_path = relative_path\<rparr>
      in (case entries key of
            Some previous \<Rightarrow> Inl (previous, candidate)
          | None \<Rightarrow> Inr (entries(key \<mapsto> candidate))))"

section \<open>One component\<close>

text \<open>A file name that a POSIX or a Windows reader takes as exactly one component.\<close>

definition safe_component :: "bytes \<Rightarrow> bool" where
  "safe_component s \<longleftrightarrow>
     s \<noteq> [] \<and> s \<noteq> [DOT] \<and> s \<noteq> [DOT, DOT] \<and> SLASH \<notin> set s \<and> 0x5C \<notin> set s \<and> (\<forall>c \<in> set s. \<not> c < 0x20)"

lemma sanitize_char_safe: "sanitize_char c \<noteq> SLASH \<and> sanitize_char c \<noteq> 0x5C \<and> \<not> sanitize_char c < 0x20"
  by (auto simp: sanitize_char_def SLASH_def)

lemma sanitize_char_id: "c \<noteq> SLASH \<Longrightarrow> c \<noteq> 0x5C \<Longrightarrow> \<not> c < 0x20 \<Longrightarrow> sanitize_char c = c"
  by (simp add: sanitize_char_def)

lemma sanitize_name_component: "safe_component (sanitize_name n)"
  using sanitize_char_safe by (auto simp: safe_component_def sanitize_name_def Let_def SLASH_def DOT_def)

lemma sanitize_name_id: "safe_component s \<Longrightarrow> sanitize_name s = s"
proof -
  assume s: "safe_component s"
  then have "map sanitize_char s = s"
    by (auto simp: safe_component_def intro!: map_idI sanitize_char_id)
  then show ?thesis using s by (simp add: sanitize_name_def safe_component_def)
qed

section \<open>Paths of safe components\<close>

lemma split_slash_not_Nil [simp]: "split_slash s \<noteq> []"
  by (induction s) (auto split: list.splits)

lemma split_slash_single: "SLASH \<notin> set s \<Longrightarrow> split_slash s = [s]"
  by (induction s) (auto split: list.splits)

lemma split_slash_append: "SLASH \<notin> set s \<Longrightarrow> split_slash (s @ SLASH # t) = s # split_slash t"
  by (induction s) (auto split: list.splits)

lemma split_join: "ss \<noteq> [] \<Longrightarrow> \<forall>s \<in> set ss. SLASH \<notin> set s \<Longrightarrow> split_slash (join_slash ss) = ss"
  by (induction ss rule: join_slash.induct) (auto simp: split_slash_single split_slash_append)

lemma join_slash_snoc: "ss \<noteq> [] \<Longrightarrow> join_slash (ss @ [s]) = join_slash ss @ SLASH # s"
  by (induction ss rule: join_slash.induct) auto

lemma last_join_slash:
  assumes "ss \<noteq> []" "\<forall>s \<in> set ss. safe_component s"
  shows "join_slash ss \<noteq> [] \<and> last (join_slash ss) \<noteq> SLASH \<and> hd (join_slash ss) \<noteq> SLASH"
  using assms
proof (induction ss rule: join_slash.induct)
  case (2 s)
  then show ?case by (auto simp: safe_component_def dest: last_in_set hd_in_set)
next
  case (3 s t ss)
  have "hd s \<noteq> SLASH" using 3 by (auto simp: safe_component_def dest: hd_in_set)
  with 3 show ?case by (simp add: safe_component_def hd_append)
qed simp

lemma path_append_safe:
  assumes "\<forall>s \<in> set ss. safe_component s" "safe_component s"
  shows "path_append (join_slash ss) s = join_slash (ss @ [s])"
proof (cases "ss = []")
  case True
  then show ?thesis by (simp add: path_append_def)
next
  case False
  have "hd s \<noteq> SLASH" using assms(2) by (auto simp: safe_component_def dest: hd_in_set)
  then show ?thesis using last_join_slash [OF False assms(1)] False
    by (simp add: path_append_def join_slash_snoc)
qed

lemma normal_steps_safe:
  "\<forall>s \<in> set ss. safe_component s \<Longrightarrow>
     foldl (normal_step a) (st, tr) ss = (rev ss @ st, if ss = [] then tr else False)"
proof (induction ss arbitrary: st tr)
  case (Cons s ss)
  then have "normal_step a (st, tr) s = (s # st, False)"
    by (auto simp: normal_step_def safe_component_def)
  with Cons show ?case by simp
qed simp

lemma lexically_normal_safe:
  assumes "ss \<noteq> []" "\<forall>s \<in> set ss. safe_component s"
  shows "lexically_normal (join_slash ss) = join_slash ss"
proof -
  have "split_slash (join_slash ss) = ss"
    using assms by (intro split_join) (auto simp: safe_component_def)
  then show ?thesis
    using last_join_slash [OF assms] assms
    by (simp add: lexically_normal_def normal_steps_safe)
qed

lemma ascii_lower_SLASH: "ascii_lower b = SLASH \<longleftrightarrow> b = SLASH"
proof -
  have "ascii_lower b = SLASH \<Longrightarrow> b = SLASH"
  proof -
    assume e: "ascii_lower b = SLASH"
    show "b = SLASH"
    proof (cases "0x41 \<le> b \<and> b \<le> 0x5A")
      case True
      with e have "b = SLASH - 0x20" by (simp add: ascii_lower_def eq_diff_eq)
      with True show ?thesis by (simp add: SLASH_def)
    next
      case False
      with e show ?thesis unfolding ascii_lower_def by (simp only: if_False)
    qed
  qed
  then show ?thesis by (auto simp: ascii_lower_def SLASH_def)
qed

lemma ascii_lower_low: "(if b < 0x80 then ascii_lower b else b) = ascii_lower b"
  by (auto simp: ascii_lower_def word_less_nat_alt word_le_nat_alt)

lemma map_join_slash:
  "f SLASH = SLASH \<Longrightarrow> map f (join_slash ss) = join_slash (map (map f) ss)"
  by (induction ss rule: join_slash.induct) auto

lemma join_slash_inj:
  assumes "join_slash ss = join_slash ts" "ss \<noteq> []" "ts \<noteq> []"
    and "\<forall>s \<in> set ss. SLASH \<notin> set s" "\<forall>t \<in> set ts. SLASH \<notin> set t"
  shows "ss = ts"
  using split_join [of ss] split_join [of ts] assms by metis

lemma collision_key_join:
  assumes "ss \<noteq> []" "\<forall>s \<in> set ss. safe_component s"
  shows "collision_key (join_slash ss) = join_slash (map (map ascii_lower) ss)"
  using ascii_lower_SLASH [of SLASH]
  by (simp add: collision_key_def ascii_lower_low lexically_normal_safe [OF assms] map_join_slash cong: map_cong)

lemma collision_key_eq_iff:
  assumes "ss \<noteq> []" "ts \<noteq> []" "\<forall>s \<in> set ss. safe_component s" "\<forall>t \<in> set ts. safe_component t"
  shows "collision_key (join_slash ss) = collision_key (join_slash ts)
     \<longleftrightarrow> map (map ascii_lower) ss = map (map ascii_lower) ts"
proof -
  have n: "SLASH \<notin> set (map ascii_lower s)" if "safe_component s" for s
    using that unfolding safe_component_def by (metis ascii_lower_SLASH image_iff list.set_map)
  show ?thesis
    using assms n join_slash_inj [of "map (map ascii_lower) ss" "map (map ascii_lower) ts"]
    by (auto simp: collision_key_join)
qed


section \<open>UTF-8 survives\<close>

text \<open>What sanitizing does to a code point of a decoded name.\<close>

definition sanitize_point :: "nat \<Rightarrow> nat" where
  "sanitize_point c = (if c = 0x2F \<or> c = 0x5C \<or> c < 0x20 then 0x5F else c)"

lemma sanitize_char_high: "0x80 \<le> unat b \<Longrightarrow> sanitize_char b = b"
  by (auto simp: sanitize_char_def SLASH_def word_less_nat_alt)

lemma sanitize_char_low: "unat b < 0x80 \<Longrightarrow> unat (sanitize_char b) = sanitize_point (unat b) \<and> unat (sanitize_char b) < 0x80"
  by (auto simp: sanitize_char_def sanitize_point_def SLASH_def word_less_nat_alt word_unat_eq_iff)

lemma sanitize_cont: "cont_byte b \<Longrightarrow> sanitize_char b = b"
  by (rule sanitize_char_high) (simp add: cont_byte_def)

lemma utf8_decode_sanitize:
  "utf8_decode s = Some cs \<Longrightarrow> utf8_decode (map sanitize_char s) = Some (map sanitize_point cs)"
proof (induction s arbitrary: cs rule: utf8_decode.induct)
  case (2 b bs)
  have id: "sanitize_point c = c" if "0x80 \<le> c" for c using that by (simp add: sanitize_point_def)
  show ?case
  proof (cases "unat b < 0x80")
    case True
    with 2 show ?thesis using sanitize_char_low [OF True] by auto
  next
    case False
    then have b: "sanitize_char b = b" by (simp add: sanitize_char_high)
    consider (two) "unat b div 32 = 6" | (three) "unat b div 32 \<noteq> 6" "unat b div 16 = 14"
      | (four) "unat b div 32 \<noteq> 6" "unat b div 16 \<noteq> 14" "unat b div 8 = 30"
      using "2.prems" False by (auto split: if_splits)
    then show ?thesis
    proof cases
      case two
      obtain c1 bs1 where bs: "bs = c1 # bs1" using "2.prems" False two by (cases bs) simp_all
      obtain ds where s: "bs = c1 # bs1" "utf8_decode bs1 = Some ds" "cont_byte c1"
          "0x80 \<le> unat b mod 32 * 64 + unat c1 mod 64" "cs = (unat b mod 32 * 64 + unat c1 mod 64) # ds"
        using "2.prems" False two bs by (auto simp: Let_def split: if_splits)
      have "utf8_decode (map sanitize_char bs1) = Some (map sanitize_point ds)"
        using "2.IH"(2) [OF False two s(1) refl] s by simp
      with s show ?thesis using False two b by (simp add: sanitize_cont id)
    next
      case three
      let ?cp = "\<lambda>c1 c2. unat b mod 16 * 4096 + unat c1 mod 64 * 64 + unat (c2 :: byte) mod 64"
      obtain c1 c2 bs1 where bs: "bs = c1 # c2 # bs1"
        using "2.prems" False three by (cases bs; cases "tl bs") simp_all
      obtain ds where s: "bs = c1 # c2 # bs1" "utf8_decode bs1 = Some ds" "cont_byte c1" "cont_byte c2"
          "0x800 \<le> ?cp (c1 :: byte) c2" "scalar (?cp c1 c2)" "cs = ?cp c1 c2 # ds"
        using "2.prems" False three bs by (auto simp: Let_def split: if_splits)
      have "utf8_decode (map sanitize_char bs1) = Some (map sanitize_point ds)"
        using "2.IH"(3) [OF False three s(1) refl refl] s by simp
      with s show ?thesis using False three b by (simp add: sanitize_cont id)
    next
      case four
      let ?cp = "\<lambda>c1 c2 c3. unat b mod 8 * 262144 + unat c1 mod 64 * 4096 + unat (c2 :: byte) mod 64 * 64 + unat (c3 :: byte) mod 64"
      obtain c1 c2 c3 bs1 where bs: "bs = c1 # c2 # c3 # bs1"
        using "2.prems" False four by (cases bs; cases "tl bs"; cases "tl (tl bs)") simp_all
      obtain ds where s: "bs = c1 # c2 # c3 # bs1" "utf8_decode bs1 = Some ds" "cont_byte c1" "cont_byte c2" "cont_byte c3"
          "0x10000 \<le> ?cp (c1 :: byte) c2 c3" "scalar (?cp c1 c2 c3)" "cs = ?cp c1 c2 c3 # ds"
        using "2.prems" False four bs by (auto simp: Let_def split: if_splits)
      have "utf8_decode (map sanitize_char bs1) = Some (map sanitize_point ds)"
        using "2.IH"(4) [OF False four s(1) refl refl refl] s by simp
      with s show ?thesis using False four b by (simp add: sanitize_cont id)
    qed
  qed
qed simp

section \<open>A run of the tracker\<close>

text \<open>The paths added in order, until the first exception.\<close>

fun tracker_adds ::
  "tracker \<Rightarrow> (path \<times> bytes \<times> u64) list \<Rightarrow> (tracker_entry \<times> tracker_entry) + tracker" where
  "tracker_adds t [] = Inr t"
| "tracker_adds t ((p, n, r) # xs) =
     (case tracker_add t p n r of Inl e \<Rightarrow> Inl e | Inr t' \<Rightarrow> tracker_adds t' xs)"

definition added_keys :: "(path \<times> bytes \<times> u64) list \<Rightarrow> bytes list" where
  "added_keys xs = map (\<lambda>(p, n, r). collision_key p) xs"

lemma added_keys_simps [simp]:
  "added_keys [] = []" "added_keys ((p, n, r) # xs) = collision_key p # added_keys xs"
  by (simp_all add: added_keys_def)

definition tracker_ok :: "tracker \<Rightarrow> bool" where
  "tracker_ok t \<longleftrightarrow> (\<forall>k e. t k = Some e \<longrightarrow> collision_key (te_path e) = k)"

lemma tracker_ok_empty: "tracker_ok Map.empty"
  by (simp add: tracker_ok_def)

lemma tracker_add_Inr:
  "tracker_add t p n r = Inr t' \<longleftrightarrow> t (collision_key p) = None
     \<and> t' = t(collision_key p \<mapsto> \<lparr>te_original_name = n, te_record_id = r, te_path = p\<rparr>)"
  by (auto simp: tracker_add_def Let_def split: option.splits)

lemma tracker_add_Inl:
  "tracker_add t p n r = Inl (e, c) \<longleftrightarrow> t (collision_key p) = Some e
     \<and> c = \<lparr>te_original_name = n, te_record_id = r, te_path = p\<rparr>"
  by (auto simp: tracker_add_def Let_def split: option.splits)

lemma tracker_adds_Inr:
  "tracker_adds t xs = Inr t' \<Longrightarrow>
     distinct (added_keys xs) \<and> dom t \<inter> set (added_keys xs) = {} \<and> dom t' = dom t \<union> set (added_keys xs)"
proof (induction xs arbitrary: t)
  case (Cons x xs)
  obtain p n r where x: "x = (p, n, r)" by (cases x)
  from Cons.prems x obtain t1 where a: "tracker_add t p n r = Inr t1" "tracker_adds t1 xs = Inr t'"
    by (auto split: sum.splits)
  have "dom t1 = insert (collision_key p) (dom t)" "collision_key p \<notin> dom t"
    using a(1) by (auto simp: tracker_add_Inr)
  then show ?case using Cons.IH [OF a(2)] by (auto simp: x)
qed simp

lemma tracker_adds_ok: "tracker_adds t xs = Inr t' \<Longrightarrow> tracker_ok t \<Longrightarrow> tracker_ok t'"
proof (induction xs arbitrary: t)
  case (Cons x xs)
  obtain p n r where x: "x = (p, n, r)" by (cases x)
  from Cons.prems x obtain t1 where a: "tracker_add t p n r = Inr t1" "tracker_adds t1 xs = Inr t'"
    by (auto split: sum.splits)
  have "tracker_ok t1" using a(1) Cons.prems(2) by (auto simp: tracker_add_Inr tracker_ok_def)
  then show ?case using Cons.IH [OF a(2)] by simp
qed simp

lemma tracker_adds_Inl:
  "tracker_adds t xs = Inl (e, c) \<Longrightarrow> tracker_ok t \<Longrightarrow>
     collision_key (te_path e) = collision_key (te_path c)
     \<and> (te_path c, te_original_name c, te_record_id c) \<in> set xs
     \<and> (\<not> distinct (added_keys xs) \<or> dom t \<inter> set (added_keys xs) \<noteq> {})"
proof (induction xs arbitrary: t)
  case (Cons x xs)
  obtain p n r where x: "x = (p, n, r)" by (cases x)
  show ?case
  proof (cases "tracker_add t p n r")
    case (Inl ec)
    then have "tracker_add t p n r = Inl (e, c)" using Cons.prems(1) x by simp
    then show ?thesis using Cons.prems(2) by (auto simp: tracker_add_Inl tracker_ok_def x)
  next
    case (Inr t1)
    then have 1: "tracker_adds t1 xs = Inl (e, c)" using Cons.prems(1) x by simp
    have 2: "tracker_ok t1" using Inr Cons.prems(2) by (auto simp: tracker_add_Inr tracker_ok_def)
    show ?thesis using Cons.IH [OF 1 2] Inr by (auto simp: tracker_add_Inr x)
  qed
qed simp

section \<open>Properties\<close>

text \<open>
  For every name on the disk, of any bytes, \<open>sanitize_name\<close> yields exactly one path component:
  non-empty, not a dot or dot-dot, without a separator of either kind and without a control
  character. A name is left alone exactly if it already is one, so sanitizing twice is sanitizing
  once.
\<close>

theorem sanitize_name_safe:
  "safe_component (sanitize_name name)
   \<and> (sanitize_name name = name \<longleftrightarrow> safe_component name)
   \<and> sanitize_name (sanitize_name name) = sanitize_name name"
  using sanitize_name_component sanitize_name_id by metis

text \<open>
  Sanitizing keeps a name readable: a valid UTF-8 name stays valid UTF-8, each code point kept
  except for separators and control characters, which become underscores (or the whole name one
  underscore).
\<close>

theorem sanitize_name_keeps_utf8:
  assumes "utf8_decode name = Some cs"
  shows "utf8_decode (sanitize_name name) =
     Some (if sanitize_name name = map sanitize_char name then map sanitize_point cs else [0x5F])"
  using utf8_decode_sanitize [OF assms] by (auto simp: sanitize_name_def Let_def)

lemma sanitize_name_keeps_utf8_witness:
  "utf8_decode (sanitize_name [0x61, 0x2F, 0xC3, 0xA9]) = Some [0x61, 0x5F, 0xE9]"
  using sanitize_name_keeps_utf8 [of "[0x61, 0x2F, 0xC3, 0xA9]" "[0x61, 0x2F, 0xE9]"]
  by (simp add: cont_byte_def sanitize_name_def sanitize_char_def SLASH_def DOT_def sanitize_point_def)

text \<open>
  No name can leave the output directory. Appending a sanitized name to a path of safe
  components adds exactly one component at its end, and the lexical normal form of the result is
  the result itself: there is nothing in it that goes up or is absolute.
\<close>

theorem sanitized_path_stays_inside:
  assumes "\<forall>s \<in> set ss. safe_component s"
  shows "path_append (join_slash ss) (sanitize_name name) = join_slash (ss @ [sanitize_name name])
     \<and> split_slash (path_append (join_slash ss) (sanitize_name name)) = ss @ [sanitize_name name]
     \<and> lexically_normal (path_append (join_slash ss) (sanitize_name name))
         = path_append (join_slash ss) (sanitize_name name)"
proof -
  note a = path_append_safe [OF assms sanitize_name_component [of name]]
  have s: "\<forall>s \<in> set (ss @ [sanitize_name name]). safe_component s"
    using assms sanitize_name_component by simp
  then have "split_slash (join_slash (ss @ [sanitize_name name])) = ss @ [sanitize_name name]"
    by (intro split_join) (auto simp: safe_component_def)
  then show ?thesis using lexically_normal_safe [OF _ s] by (simp add: a)
qed

lemma sanitized_path_stays_inside_witness:
  "path_append [0x61] (sanitize_name [0x2E, 0x2E]) = [0x61, 0x2F, 0x5F]"
  using sanitized_path_stays_inside [of "[[0x61]]" "[0x2E, 0x2E]"]
  by (simp add: safe_component_def sanitize_name_def sanitize_char_def SLASH_def DOT_def)

text \<open>
  Two output paths of safe components get the same collision key exactly if they agree
  component by component up to the case of ASCII letters; so the tracker refuses what a
  case-insensitive file system would merge and nothing else.
\<close>

theorem collision_key_case_insensitive:
  assumes "ss \<noteq> []" "ts \<noteq> []" "\<forall>s \<in> set ss. safe_component s" "\<forall>t \<in> set ts. safe_component t"
  shows "collision_key (join_slash ss) = collision_key (join_slash ts)
     \<longleftrightarrow> map (map ascii_lower) ss = map (map ascii_lower) ts"
  using assms by (rule collision_key_eq_iff)

lemma collision_key_case_insensitive_witness:
  "collision_key (join_slash [[0x41], [0x62]]) = collision_key (join_slash [[0x61], [0x42]])"
  using collision_key_case_insensitive [of "[[0x41], [0x62]]" "[[0x61], [0x42]]"]
  by (simp add: safe_component_def SLASH_def DOT_def ascii_lower_def)

text \<open>
  The tracker accepts a sequence of paths exactly if their keys are pairwise different; when
  it refuses one, the two entries it reports are the earlier and the offending path and do share
  their key.
\<close>

theorem tracker_detects_collisions:
  "(case tracker_adds Map.empty xs of
      Inr t \<Rightarrow> distinct (added_keys xs) \<and> dom t = set (added_keys xs)
    | Inl (previous, candidate) \<Rightarrow>
        \<not> distinct (added_keys xs)
        \<and> collision_key (te_path previous) = collision_key (te_path candidate)
        \<and> (te_path candidate, te_original_name candidate, te_record_id candidate) \<in> set xs)"
  using tracker_adds_Inr [of Map.empty xs] tracker_adds_Inl [of Map.empty xs] tracker_ok_empty
  by (auto split: sum.split)

end
