(* ===== verification/FileSystem.thy ===== *)
theory FileSystem
  imports OutputNames
begin

text \<open>
  The operating system as the recovery sees it: a name space of paths, the nodes they name, open
  descriptors and the bytes of the source device, with the POSIX calls that \<open>src/RecoveryOutput.cpp\<close>
  and \<open>src/Recover.cpp\<close> make. Every call first takes one entry of the \<open>script\<close>: the files other
  processes create at free paths just before it, and what the kernel makes of the call (it proceeds,
  fails with an \<open>errno\<close>, or transfers at most \<open>n\<close> bytes). An exhausted script means that
  calls proceed undisturbed. All properties hold for every script.
\<close>

datatype errno = ENOENT | ENOTDIR | EEXIST | EINTR | ENOSYS | EINVAL | EISDIR | EBADF | Errno nat

datatype node = Regular bytes | Symlink path | Directory | Special

datatype verdict = Proceed | Fail errno | Short nat

record answer =
  racers :: "(path \<times> node) list"
  ruling :: verdict

record os =
  entries :: "path \<rightharpoonup> nat"
  nodes :: "nat \<rightharpoonup> node"
  descriptors :: "int \<rightharpoonup> nat"
  next_id :: nat
  source_image :: bytes
  script :: "answer list"

type_synonym ('e, 'a) io = "os \<Rightarrow> ('e + 'a) \<times> os"

section \<open>The interference and the ruling of one call\<close>

definition add_node :: "path \<Rightarrow> node \<Rightarrow> os \<Rightarrow> os" where
  "add_node p n s = s\<lparr>entries := (entries s)(p \<mapsto> next_id s), nodes := (nodes s)(next_id s \<mapsto> n),
                      next_id := Suc (next_id s)\<rparr>"

definition race :: "path \<times> node \<Rightarrow> os \<Rightarrow> os" where
  "race pn s = (if entries s (fst pn) = None then add_node (fst pn) (snd pn) s else s)"

definition pop :: "os \<Rightarrow> verdict \<times> os" where
  "pop s = (case script s of
      [] \<Rightarrow> (Proceed, s)
    | a # as \<Rightarrow> (ruling a, fold race (racers a) (s\<lparr>script := as\<rparr>)))"

text \<open>A call: \<open>act\<close> runs unless the ruling is a failure; \<open>cap\<close> bounds its transfer.\<close>

definition syscall :: "(nat option \<Rightarrow> (errno, 'a) io) \<Rightarrow> (errno, 'a) io" where
  "syscall act s = (case pop s of (v, s1) \<Rightarrow>
     (case v of
        Fail e \<Rightarrow> (Inl e, s1)
      | Short n \<Rightarrow> act (Some n) s1
      | Proceed \<Rightarrow> act None s1))"

section \<open>The calls\<close>

definition sys_lstat :: "path \<Rightarrow> (errno, node) io" where
  "sys_lstat p = syscall (\<lambda>cap s.
     (case entries s p of
        None \<Rightarrow> (Inl ENOENT, s)
      | Some i \<Rightarrow> (case nodes s i of None \<Rightarrow> (Inl ENOENT, s) | Some n \<Rightarrow> (Inr n, s))))"

definition unlink_entry :: "path \<Rightarrow> (errno, unit) io" where
  "unlink_entry p s =
     (case entries s p of
        None \<Rightarrow> (Inl ENOENT, s)
      | Some i \<Rightarrow> if nodes s i = Some Directory then (Inl EISDIR, s)
                  else (Inr (), s\<lparr>entries := (entries s)(p := None)\<rparr>))"

definition sys_unlink :: "path \<Rightarrow> (errno, unit) io" where
  "sys_unlink p = syscall (\<lambda>cap. unlink_entry p)"

text \<open>\<open>open\<close> with \<open>O_WRONLY | O_CREAT | O_EXCL | O_CLOEXEC | O_NOFOLLOW\<close>.\<close>

definition sys_open_exclusive :: "path \<Rightarrow> (errno, int) io" where
  "sys_open_exclusive p = syscall (\<lambda>cap s.
     if entries s p \<noteq> None then (Inl EEXIST, s)
     else (let s' = add_node p (Regular []) s
           in (Inr (int (next_id s)), s'\<lparr>descriptors := (descriptors s')(int (next_id s) \<mapsto> next_id s)\<rparr>)))"

definition sys_write :: "int \<Rightarrow> bytes \<Rightarrow> (errno, nat) io" where
  "sys_write fd data = syscall (\<lambda>cap s.
     (case descriptors s fd of
        None \<Rightarrow> (Inl EBADF, s)
      | Some i \<Rightarrow>
          (case nodes s i of
             Some (Regular old) \<Rightarrow>
               (let n = (case cap of None \<Rightarrow> length data | Some m \<Rightarrow> min m (length data))
                in (Inr n, s\<lparr>nodes := (nodes s)(i \<mapsto> Regular (old @ take n data))\<rparr>))
           | _ \<Rightarrow> (Inl EBADF, s))))"

definition sys_fsync :: "int \<Rightarrow> (errno, unit) io" where
  "sys_fsync fd = syscall (\<lambda>cap s. (if descriptors s fd = None then Inl EBADF else Inr (), s))"

text \<open>A descriptor is gone after \<open>close\<close>, whatever it returns (Linux).\<close>

definition sys_close :: "int \<Rightarrow> (errno, unit) io" where
  "sys_close fd s =
     (case syscall (\<lambda>cap s. (if descriptors s fd = None then Inl EBADF else Inr (), s)) s of
        (r, s') \<Rightarrow> (r, s'\<lparr>descriptors := (descriptors s')(fd := None)\<rparr>))"

definition move_entry :: "path \<Rightarrow> path \<Rightarrow> (errno, unit) io" where
  "move_entry src dst s =
     (case entries s src of
        None \<Rightarrow> (Inl ENOENT, s)
      | Some i \<Rightarrow> (Inr (), s\<lparr>entries := (entries s)(src := None, dst \<mapsto> i)\<rparr>))"

definition sys_rename :: "path \<Rightarrow> path \<Rightarrow> (errno, unit) io" where
  "sys_rename src dst = syscall (\<lambda>cap s.
     (case entries s dst of
        Some j \<Rightarrow> if nodes s j = Some Directory then (Inl EISDIR, s) else move_entry src dst s
      | None \<Rightarrow> move_entry src dst s))"

text \<open>\<open>renameat2\<close> with \<open>RENAME_NOREPLACE\<close>.\<close>

definition sys_rename_noreplace :: "path \<Rightarrow> path \<Rightarrow> (errno, unit) io" where
  "sys_rename_noreplace src dst = syscall (\<lambda>cap s.
     if entries s dst \<noteq> None then (Inl EEXIST, s) else move_entry src dst s)"

definition sys_link :: "path \<Rightarrow> path \<Rightarrow> (errno, unit) io" where
  "sys_link src dst = syscall (\<lambda>cap s.
     if entries s dst \<noteq> None then (Inl EEXIST, s)
     else (case entries s src of
             None \<Rightarrow> (Inl ENOENT, s)
           | Some i \<Rightarrow> (Inr (), s\<lparr>entries := (entries s)(dst \<mapsto> i)\<rparr>)))"

text \<open>\<open>pread\<close> on the source: \<open>off_t\<close> is signed, a negative offset is an error.\<close>

definition sys_pread :: "nat \<Rightarrow> u64 \<Rightarrow> (errno, bytes) io" where
  "sys_pread sz off = syscall (\<lambda>cap s.
     if sint off < 0 then (Inl EINVAL, s)
     else (let n = (case cap of None \<Rightarrow> sz | Some m \<Rightarrow> min m sz)
           in (Inr (sub_bytes (source_image s) (unat off) n), s)))"

section \<open>What a call can change\<close>

text \<open>
  Every path names a node, and no number at or above the next one is in use, neither as a node
  nor as a descriptor; there is no negative descriptor.
\<close>

definition wf_os :: "os \<Rightarrow> bool" where
  "wf_os s \<longleftrightarrow> (\<forall>p i. entries s p = Some i \<longrightarrow> (\<exists>n. nodes s i = Some n))
     \<and> (\<forall>i n. nodes s i = Some n \<longrightarrow> i < next_id s)
     \<and> (\<forall>fd i. descriptors s fd = Some i \<longrightarrow> 0 \<le> fd \<and> fd < int (next_id s))"

lemma wf_entry: "wf_os s \<Longrightarrow> entries s p = Some j \<Longrightarrow> \<exists>n. nodes s j = Some n \<and> j < next_id s"
  unfolding wf_os_def by blast

lemma wf_fresh: "wf_os s \<Longrightarrow> next_id s \<le> k \<Longrightarrow> nodes s k = None"
  unfolding wf_os_def by (metis not_None_eq not_less)

text \<open>No other process interferes.\<close>

definition quiet :: "os \<Rightarrow> bool" where
  "quiet s \<longleftrightarrow> (\<forall>a \<in> set (script s). racers a = [])"

lemma quiet_update [simp]:
  "quiet (s\<lparr>entries := e\<rparr>) = quiet s" "quiet (s\<lparr>nodes := n\<rparr>) = quiet s"
  "quiet (s\<lparr>descriptors := d\<rparr>) = quiet s" "quiet (s\<lparr>next_id := i\<rparr>) = quiet s"
  by (simp_all add: quiet_def)

text \<open>
  From \<open>s\<close> to \<open>s'\<close>, apart from the node \<open>own\<close> and the paths \<open>P\<close>: no path is lost or
  renamed, no node is modified, and the source image is the same; undisturbed, no other path appears.
\<close>

definition preserved :: "path set \<Rightarrow> nat \<Rightarrow> os \<Rightarrow> os \<Rightarrow> bool" where
  "preserved P own s s' \<longleftrightarrow>
     (\<forall>p j. entries s p = Some j \<and> j \<noteq> own \<and> p \<notin> P \<longrightarrow> entries s' p = Some j)
     \<and> (\<forall>j n. nodes s j = Some n \<and> j \<noteq> own \<longrightarrow> nodes s' j = Some n)
     \<and> next_id s \<le> next_id s' \<and> source_image s' = source_image s
     \<and> (quiet s \<longrightarrow> quiet s' \<and> (\<forall>p j. entries s' p = Some j \<longrightarrow> entries s p = Some j \<or> j = own))"

lemma preserved_refl [simp, intro]: "preserved P own s s"
  by (simp add: preserved_def)

lemma preserved_trans:
  "preserved P own s s' \<Longrightarrow> preserved Q own s' s'' \<Longrightarrow> preserved (P \<union> Q) own s s''"
  unfolding preserved_def
  by (elim conjE, intro conjI) (blast, blast, simp, simp, blast)

lemma preserved_mono: "preserved P own s s' \<Longrightarrow> P \<subseteq> Q \<Longrightarrow> preserved Q own s s'"
  by (auto simp: preserved_def)

text \<open>What the interference before a call can do: the whole old state stays.\<close>

definition grown :: "os \<Rightarrow> os \<Rightarrow> bool" where
  "grown s s' \<longleftrightarrow>
     (\<forall>p j. entries s p = Some j \<longrightarrow> entries s' p = Some j)
     \<and> (\<forall>p j. entries s' p = Some j \<longrightarrow> entries s p = Some j \<or> next_id s \<le> j)
     \<and> (\<forall>j n. nodes s j = Some n \<longrightarrow> nodes s' j = Some n)
     \<and> descriptors s' = descriptors s \<and> source_image s' = source_image s \<and> next_id s \<le> next_id s'
     \<and> (wf_os s \<longrightarrow> wf_os s')"

definition extended :: "os \<Rightarrow> os \<Rightarrow> bool" where
  "extended s s' \<longleftrightarrow>
     (\<forall>p j. entries s p = Some j \<longrightarrow> entries s' p = Some j)
     \<and> (\<forall>p j. entries s' p = Some j \<longrightarrow> entries s p = Some j \<or> next_id s \<le> j)
     \<and> (\<forall>j n. nodes s j = Some n \<longrightarrow> nodes s' j = Some n)
     \<and> descriptors s' = descriptors s \<and> source_image s' = source_image s \<and> next_id s \<le> next_id s'
     \<and> (wf_os s \<longrightarrow> wf_os s')
     \<and> (quiet s \<longrightarrow> quiet s' \<and> entries s' = entries s)"

lemma extended_iff: "extended s s' \<longleftrightarrow> grown s s' \<and> (quiet s \<longrightarrow> quiet s' \<and> entries s' = entries s)"
  by (simp add: extended_def grown_def)

lemma extended_refl [simp, intro]: "extended s s"
  by (simp add: extended_def)

lemma grown_trans: "grown s s' \<Longrightarrow> grown s' s'' \<Longrightarrow> grown s s''"
  unfolding grown_def
  by (elim conjE, intro conjI) (blast, meson order_trans, blast, simp_all)

lemma wf_add_node: "wf_os s \<Longrightarrow> wf_os (add_node p n s)"
  unfolding wf_os_def by (intro conjI allI impI; elim conjE)
    (auto simp: add_node_def less_Suc_eq split: if_splits)

lemma add_node_grown:
  assumes "wf_os s" "entries s p = None"
  shows "grown s (add_node p n s)"
proof -
  have f: "j \<noteq> next_id s" if "nodes s j = Some m" for j m using assms(1) that by (auto simp: wf_os_def)
  then show ?thesis
    using assms(2) wf_add_node by (auto simp: grown_def) (auto simp: add_node_def split: if_splits)
qed

lemma race_grown: "wf_os s \<Longrightarrow> grown s (race pn s)"
  by (simp add: race_def add_node_grown) (simp add: grown_def)

lemma races_grown: "wf_os s \<Longrightarrow> grown s (fold race rs s)"
proof (induction rs arbitrary: s)
  case Nil
  then show ?case by (simp add: grown_def)
next
  case (Cons r rs)
  have g: "grown s (race r s)" using Cons.prems by (rule race_grown)
  moreover from this Cons.prems have "wf_os (race r s)" by (simp add: grown_def)
  ultimately show ?case using Cons.IH grown_trans [OF g] by simp
qed

lemma races_script: "script (fold race rs s) = script s"
  by (induction rs arbitrary: s) (simp_all add: race_def add_node_def)

lemma pop_extended:
  assumes "wf_os s" "pop s = (v, s')"
  shows "extended s s'" and "script s' = tl (script s)" and "script s = [] \<Longrightarrow> v = Proceed"
proof -
  have "grown s (fold race rs (s\<lparr>script := as\<rparr>))" for rs as
    using races_grown [of "s\<lparr>script := as\<rparr>" rs] assms(1) by (auto simp: grown_def wf_os_def)
  moreover have "grown s s" by (simp add: grown_def)
  ultimately have "grown s s'" using assms(2) by (auto simp: pop_def split: list.splits)
  moreover have "quiet s \<longrightarrow> quiet s' \<and> entries s' = entries s"
    using assms(2) by (auto simp: pop_def quiet_def split: list.splits)
  ultimately show "extended s s'" by (simp add: extended_iff)
  show "script s' = tl (script s)" "script s = [] \<Longrightarrow> v = Proceed"
    using assms(2) by (auto simp: pop_def races_script split: list.splits)
qed

end
