(* ===== verification/AtomicFile.thy ===== *)
theory AtomicFile
  imports FileSystem
begin

text \<open>
  \<open>AtomicFile\<close> of \<open>src/RecoveryOutput.cpp\<close>: the output is written to a fresh
  \<open>.partial\<close> file and published under its final name in one step. Exceptions are the values of
  \<open>runtime_error\<close>, one constructor per \<open>throw\<close> of the output code and of the copying in \<open>src/Recover.cpp\<close>; an operation that
  may throw is an \<open>io\<close> over the operating-system state.
\<close>

datatype runtime_error =
    CannotInspect path errno
  | RefuseSymlink path
  | RefuseNonRegular path
  | OutputExists path
  | StalePartial path
  | CannotRemoveStale path errno
  | CannotCreate path errno
  | WriteFailed path errno
  | NoProgress path
  | FsyncFailed path errno
  | CloseFailed path errno
  | CannotPublish path path errno
  | SizeOverflow string
  | BootSectorUnreadable errno
  | InvalidGeometry
  | MemoryFault

record atomic_file =
  final_path :: path
  partial_path :: path
  af_fd :: int
  overwrite :: bool
  committed :: bool

definition partial_suffix :: bytes where
  "partial_suffix = [0x2E, 0x70, 0x61, 0x72, 0x74, 0x69, 0x61, 0x6C]"

section \<open>The operations\<close>

text \<open>\<open>path_exists\<close>: \<open>lstat\<close>, with its result when there is one.\<close>

definition path_exists :: "path \<Rightarrow> (runtime_error, node option) io" where
  "path_exists p s =
     (case sys_lstat p s of
        (Inr n, s1) \<Rightarrow> (Inr (Some n), s1)
      | (Inl e, s1) \<Rightarrow> if e = ENOENT \<or> e = ENOTDIR then (Inr None, s1) else (Inl (CannotInspect p e), s1))"

definition unsafe_existing_output :: "path \<Rightarrow> node \<Rightarrow> runtime_error option" where
  "unsafe_existing_output p n =
     (case n of Symlink t \<Rightarrow> Some (RefuseSymlink p) | Regular c \<Rightarrow> None | _ \<Rightarrow> Some (RefuseNonRegular p))"

text \<open>The constructor, in three steps: the final path, a stale partial, the exclusive creation.\<close>

definition check_final :: "path \<Rightarrow> bool \<Rightarrow> (runtime_error, unit) io" where
  "check_final final ov s =
     (case path_exists final s of
        (Inl e, s1) \<Rightarrow> (Inl e, s1)
      | (Inr None, s1) \<Rightarrow> (Inr (), s1)
      | (Inr (Some n), s1) \<Rightarrow>
          (case unsafe_existing_output final n of
             Some e \<Rightarrow> (Inl e, s1)
           | None \<Rightarrow> if \<not> ov then (Inl (OutputExists final), s1) else (Inr (), s1)))"

definition clear_partial :: "path \<Rightarrow> bool \<Rightarrow> (runtime_error, unit) io" where
  "clear_partial part ov s =
     (case path_exists part s of
        (Inl e, s1) \<Rightarrow> (Inl e, s1)
      | (Inr None, s1) \<Rightarrow> (Inr (), s1)
      | (Inr (Some n), s1) \<Rightarrow>
          (case unsafe_existing_output part n of
             Some e \<Rightarrow> (Inl e, s1)
           | None \<Rightarrow>
               if \<not> ov then (Inl (StalePartial part), s1)
               else (case sys_unlink part s1 of
                       (Inl e, s2) \<Rightarrow> (Inl (CannotRemoveStale part e), s2)
                     | (Inr u, s2) \<Rightarrow> (Inr (), s2))))"

definition open_atomic :: "path \<Rightarrow> bool \<Rightarrow> (runtime_error, atomic_file) io" where
  "open_atomic final ov s =
     (let part = final @ partial_suffix in
      case check_final final ov s of
        (Inl e, s1) \<Rightarrow> (Inl e, s1)
      | (Inr u, s1) \<Rightarrow>
          (case clear_partial part ov s1 of
             (Inl e, s2) \<Rightarrow> (Inl e, s2)
           | (Inr u, s2) \<Rightarrow>
               (case sys_open_exclusive part s2 of
                  (Inl e, s3) \<Rightarrow> (Inl (CannotCreate part e), s3)
                | (Inr fd, s3) \<Rightarrow>
                    (Inr \<lparr>final_path = final, partial_path = part, af_fd = fd,
                          overwrite = ov, committed = False\<rparr>, s3))))"

lemma syscall_script:
  assumes "syscall act s = (r, s')" "\<And>c s1 r s2. act c s1 = (r, s2) \<Longrightarrow> script s2 = script s1"
  shows "script s' = tl (script s)"
  using assms by (auto simp: syscall_def pop_def races_script split: list.splits verdict.splits prod.splits)

lemma sys_write_script: "sys_write fd data s = (r, s') \<Longrightarrow> script s' = tl (script s)"
  unfolding sys_write_def by (erule syscall_script) (auto split: option.splits node.splits simp: Let_def)

lemma sys_write_EINTR: "sys_write fd data s = (Inl EINTR, s') \<Longrightarrow> script s \<noteq> []"
  by (auto simp: sys_write_def syscall_def pop_def Let_def split: list.splits verdict.splits option.splits node.splits)

text \<open>
  The write loop: interrupted calls are repeated, short counts are continued. Each round uses up
  an entry of the script or writes a byte, so it ends.
\<close>

function write_loop :: "int \<Rightarrow> path \<Rightarrow> bytes \<Rightarrow> nat \<Rightarrow> (runtime_error, unit) io" where
  "write_loop fd part data written s =
     (if written < length data then
        (case sys_write fd (drop written data) s of
           (Inl e, s1) \<Rightarrow>
             if e = EINTR then write_loop fd part data written s1 else (Inl (WriteFailed part e), s1)
         | (Inr count, s1) \<Rightarrow>
             if count = 0 then (Inl (NoProgress part), s1)
             else write_loop fd part data (written + count) s1)
      else (Inr (), s))"
  by pat_completeness auto
termination
proof (relation "measure (\<lambda>(fd, part, data, written, s). (length data - written) + length (script s))", goal_cases)
  case 1 then show ?case by simp
next
  case (2 fd part data written s p s1 e)
  then have "sys_write fd (drop written data) s = (Inl EINTR, s1)" by (metis prod.collapse)
  from sys_write_script [OF this] sys_write_EINTR [OF this] show ?case
    by (cases "script s") simp_all
next
  case (3 fd part data written s p s1 e)
  then have "sys_write fd (drop written data) s = (Inr e, s1)" by (metis prod.collapse)
  from sys_write_script [OF this] 3 show ?case by simp
qed

declare write_loop.simps [simp del]

definition write_atomic :: "atomic_file \<Rightarrow> bytes \<Rightarrow> (runtime_error, unit) io" where
  "write_atomic f data = write_loop (af_fd f) (partial_path f) data 0"

definition rename_without_replacement :: "path \<Rightarrow> path \<Rightarrow> (errno, unit) io" where
  "rename_without_replacement src dst s =
     (case sys_rename_noreplace src dst s of
        (Inr u, s1) \<Rightarrow> (Inr (), s1)
      | (Inl e, s1) \<Rightarrow>
          if e \<noteq> ENOSYS \<and> e \<noteq> EINVAL then (Inl e, s1)
          else
            (case sys_link src dst s1 of
               (Inl e, s2) \<Rightarrow> (Inl e, s2)
             | (Inr u, s2) \<Rightarrow>
                 (case sys_unlink src s2 of
                    (Inr u, s3) \<Rightarrow> (Inr (), s3)
                  | (Inl unlink_error, s3) \<Rightarrow> (Inl unlink_error, snd (sys_unlink dst s3)))))"

text \<open>\<open>commit\<close> changes the object as well: the descriptor is given up, \<open>committed\<close> set last.\<close>

definition commit_atomic :: "atomic_file \<Rightarrow> os \<Rightarrow> (runtime_error + unit) \<times> atomic_file \<times> os" where
  "commit_atomic f s =
     (if committed f then (Inr (), f, s)
      else
        (case sys_fsync (af_fd f) s of
           (Inl e, s1) \<Rightarrow> (Inl (FsyncFailed (partial_path f) e), f, s1)
         | (Inr u, s1) \<Rightarrow>
             (case sys_close (af_fd f) s1 of
                (Inl e, s2) \<Rightarrow> (Inl (CloseFailed (partial_path f) e), f\<lparr>af_fd := -1\<rparr>, s2)
              | (Inr u, s2) \<Rightarrow>
                  (case (if overwrite f then sys_rename (partial_path f) (final_path f) s2
                         else rename_without_replacement (partial_path f) (final_path f) s2) of
                     (Inl e, s3) \<Rightarrow>
                       (Inl (CannotPublish (partial_path f) (final_path f) e), f\<lparr>af_fd := -1\<rparr>, s3)
                   | (Inr u, s3) \<Rightarrow> (Inr (), f\<lparr>af_fd := -1, committed := True\<rparr>, s3)))))"

text \<open>The destructor; its calls' failures are ignored.\<close>

definition cleanup_partial :: "atomic_file \<Rightarrow> os \<Rightarrow> os" where
  "cleanup_partial f s =
     (let s1 = (if af_fd f \<ge> 0 then snd (sys_close (af_fd f) s) else s)
      in if committed f then s1 else snd (sys_unlink (partial_path f) s1))"

text \<open>
  The life of one \<open>AtomicFile\<close> in a scope: construction, the scope's body, destruction on every
  way out of it. A constructor that throws leaves no object to destroy.
\<close>

definition with_atomic_file ::
  "path \<Rightarrow> bool \<Rightarrow> (atomic_file \<Rightarrow> os \<Rightarrow> (runtime_error + 'a) \<times> atomic_file \<times> os) \<Rightarrow> (runtime_error, 'a) io" where
  "with_atomic_file final ov body s =
     (case open_atomic final ov s of
        (Inl e, s1) \<Rightarrow> (Inl e, s1)
      | (Inr f, s1) \<Rightarrow> (case body f s1 of (r, f', s2) \<Rightarrow> (r, cleanup_partial f' s2)))"

text \<open>The typical body: some writes, then the commit.\<close>

fun write_all :: "bytes list \<Rightarrow> atomic_file \<Rightarrow> (runtime_error, unit) io" where
  "write_all [] f s = (Inr (), s)"
| "write_all (c # cs) f s =
     (case write_atomic f c s of (Inl e, s1) \<Rightarrow> (Inl e, s1) | (Inr u, s1) \<Rightarrow> write_all cs f s1)"

definition publish_body :: "bytes list \<Rightarrow> atomic_file \<Rightarrow> os \<Rightarrow> (runtime_error + unit) \<times> atomic_file \<times> os" where
  "publish_body chunks f s =
     (case write_all chunks f s of
        (Inl e, s1) \<Rightarrow> (Inl e, f, s1)
      | (Inr u, s1) \<Rightarrow> commit_atomic f s1)"

definition publish :: "path \<Rightarrow> bool \<Rightarrow> bytes list \<Rightarrow> (runtime_error, unit) io" where
  "publish final ov chunks = with_atomic_file final ov (publish_body chunks)"

section \<open>The effect of each call\<close>

lemma syscall_cases:
  assumes "wf_os s" "syscall act s = (r, s')"
  obtains (failed) e s1 where "extended s s1" "wf_os s1" "script s1 = tl (script s)" "script s \<noteq> []"
      "r = Inl e" "s' = s1"
    | (ran) s1 cap where "extended s s1" "wf_os s1" "script s1 = tl (script s)" "act cap s1 = (r, s')"
proof -
  obtain v s1 where p: "pop s = (v, s1)" by (cases "pop s")
  note e = pop_extended [OF assms(1) p]
  have w: "wf_os s1" using e(1) assms(1) by (simp add: extended_def)
  show ?thesis using assms(2) p e w that by (cases v) (auto simp: syscall_def)
qed

lemma extended_preserved: "extended s s' \<Longrightarrow> preserved P own s s'"
  by (auto simp: extended_def preserved_def)

lemma sys_lstat_effect:
  assumes "wf_os s" "sys_lstat p s = (r, s')"
  shows "extended s s' \<and> wf_os s'"
  using assms(2) unfolding sys_lstat_def
  by (rule syscall_cases [OF assms(1)]) (auto split: option.splits)

lemma path_exists_effect: "wf_os s \<Longrightarrow> path_exists p s = (r, s') \<Longrightarrow> extended s s' \<and> wf_os s'"
  using sys_lstat_effect [of s p] by (fastforce simp: path_exists_def split: prod.splits sum.splits if_splits)

lemma check_final_effect: "wf_os s \<Longrightarrow> check_final p ov s = (r, s') \<Longrightarrow> extended s s' \<and> wf_os s'"
  using path_exists_effect [of s p]
  by (fastforce simp: check_final_def split: prod.splits sum.splits if_splits option.splits)

lemma unlink_entry_cases:
  "unlink_entry p s = (r, s') \<Longrightarrow>
     (\<exists>e. r = Inl e \<and> s' = s) \<or> (r = Inr () \<and> s' = s\<lparr>entries := (entries s)(p := None)\<rparr>)"
  by (auto simp: unlink_entry_def split: option.splits if_splits)

lemma wf_remove_entry: "wf_os s \<Longrightarrow> wf_os (s\<lparr>entries := (entries s)(p := None)\<rparr>)"
  by (simp add: wf_os_def)

lemma sys_unlink_cases:
  assumes "wf_os s" "sys_unlink p s = (r, s')"
  obtains s1 where "extended s s1" "wf_os s1" "s' = s1" "\<exists>e. r = Inl e"
    | s1 where "extended s s1" "wf_os s1" "s' = s1\<lparr>entries := (entries s1)(p := None)\<rparr>" "r = Inr ()"
  using assms(2) unfolding sys_unlink_def
proof (rule syscall_cases [OF assms(1)], goal_cases)
  case (1 e s1)
  then show ?case by blast
next
  case (2 s1 cap)
  with unlink_entry_cases [OF 2(6)] show ?case by blast
qed

lemma sys_unlink_preserved:
  assumes "wf_os s" "sys_unlink p s = (r, s')"
  shows "wf_os s' \<and> preserved {p} own s s' \<and> descriptors s' = descriptors s"
  using assms
proof (rule sys_unlink_cases)
  fix s1 assume "extended s s1" "wf_os s1" "s' = s1"
  then show ?thesis by (auto simp: extended_preserved extended_def)
next
  fix s1 assume "extended s s1" "wf_os s1" "s' = s1\<lparr>entries := (entries s1)(p := None)\<rparr>"
  then show ?thesis by (auto simp: extended_def preserved_def wf_remove_entry)
qed

definition replaced :: "bool \<Rightarrow> path \<Rightarrow> path set" where
  "replaced ov p = (if ov then {p} else {})"

lemma clear_partial_effect:
  assumes "wf_os s" "clear_partial p ov s = (r, s')"
  shows "wf_os s' \<and> preserved (replaced ov p) own s s'"
proof -
  obtain r1 s1 where e: "path_exists p s = (r1, s1)" by (cases "path_exists p s")
  note p = path_exists_effect [OF assms(1) e]
  then have 1: "wf_os s1" "preserved (replaced ov p) own s s1" by (auto intro: extended_preserved)
  consider "s' = s1" | r2 where "ov" "sys_unlink p s1 = (r2, s')"
    using assms(2) e by (auto simp: clear_partial_def split: sum.splits option.splits if_splits prod.splits)
  then show ?thesis
  proof cases
    case 2
    with sys_unlink_preserved [OF 1(1) 2(2), of own] 1 show ?thesis
      using preserved_trans [of "{p}" own s s1 "{p}" s'] by (auto simp: replaced_def)
  qed (use 1 in simp)
qed


section \<open>Owning a partial file\<close>

text \<open>
  \<open>AtomicFile\<close> between construction and publication: its node \<open>k\<close> holds \<open>c\<close>, the partial
  path and no other path names it, and the descriptor is open on it.
\<close>

definition owned :: "path set \<Rightarrow> nat \<Rightarrow> bytes \<Rightarrow> os \<Rightarrow> bool" where
  "owned P k c s \<longleftrightarrow> wf_os s \<and> nodes s k = Some (Regular c) \<and> (\<forall>p. entries s p = Some k \<longrightarrow> p \<in> P)"

definition owns :: "path \<Rightarrow> int \<Rightarrow> nat \<Rightarrow> bytes \<Rightarrow> os \<Rightarrow> bool" where
  "owns part fd k c s \<longleftrightarrow> owned {part} k c s \<and> entries s part = Some k \<and> descriptors s fd = Some k"

lemma owned_less: "owned P k c s \<Longrightarrow> k < next_id s"
  by (simp add: owned_def wf_os_def)

lemma owned_extended: "owned P k c s \<Longrightarrow> extended s s' \<Longrightarrow> wf_os s' \<Longrightarrow> owned P k c s'"
  using owned_less [of P k c s] by (fastforce simp: owned_def extended_def)

lemma owns_extended: "owns part fd k c s \<Longrightarrow> extended s s' \<Longrightarrow> wf_os s' \<Longrightarrow> owns part fd k c s'"
  using owned_extended [of "{part}" k c s s'] by (auto simp: owns_def extended_def)

lemma owned_mono: "owned P k c s \<Longrightarrow> P \<subseteq> Q \<Longrightarrow> owned Q k c s"
  by (auto simp: owned_def)

lemma sys_open_exclusive_effect:
  assumes "wf_os s" "sys_open_exclusive p s = (r, s')"
  shows "(\<exists>e. r = Inl e \<and> wf_os s' \<and> extended s s')
    \<or> (\<exists>k. r = Inr (int k) \<and> owns p (int k) k [] s' \<and> next_id s \<le> k \<and> preserved {} k s s')"
  using assms(2) unfolding sys_open_exclusive_def
proof (rule syscall_cases [OF assms(1)], goal_cases)
  case (1 e s1)
  then show ?case by blast
next
  case (2 s1 cap)
  show ?case
  proof (cases "entries s1 p")
    case None
    let ?s = "add_node p (Regular []) s1"
    have w: "wf_os ?s" using wf_add_node [OF 2(2)] .
    have r: "r = Inr (int (next_id s1))"
        "s' = ?s\<lparr>descriptors := (descriptors ?s)(int (next_id s1) \<mapsto> next_id s1)\<rparr>"
      using 2(4) None by (auto simp: Let_def)
    have "wf_os s'" using w by (auto simp: r wf_os_def add_node_def less_Suc_eq)
    moreover have "entries s1 q \<noteq> Some (next_id s1)" for q
      using 2(2) by (auto simp: wf_os_def)
    ultimately have "owns p (int (next_id s1)) (next_id s1) [] s'"
      by (auto simp: owns_def owned_def r add_node_def)
    moreover have "preserved {} (next_id s1) s1 s'"
      using 2(2) None by (auto simp: r preserved_def add_node_def wf_os_def quiet_def)
    then have "preserved {} (next_id s1) s s'"
      using preserved_trans [OF extended_preserved [OF 2(1), of "{}" "next_id s1"]] by simp
    ultimately show ?thesis using 2(1) r by (auto simp: extended_def)
  next
    case (Some i)
    with 2 show ?thesis by auto
  qed
qed

lemma sys_write_effect:
  assumes "owns part fd k c s" "sys_write fd data s = (r, s')"
  shows "(\<exists>e. r = Inl e \<and> owns part fd k c s' \<and> preserved {} k s s')
    \<or> (\<exists>n \<le> length data. r = Inr n \<and> owns part fd k (c @ take n data) s' \<and> preserved {} k s s')"
proof -
  have w: "wf_os s" using assms(1) by (simp add: owns_def owned_def)
  from assms(2) show ?thesis unfolding sys_write_def
  proof (rule syscall_cases [OF w], goal_cases)
    case (1 e s1)
    then show ?case using owns_extended [OF assms(1)] by (auto simp: extended_preserved)
  next
    case (2 s1 cap)
    have o1: "owns part fd k c s1" using owns_extended [OF assms(1)] 2 by simp
    then have d: "descriptors s1 fd = Some k" "nodes s1 k = Some (Regular c)"
      by (simp_all add: owns_def owned_def)
    define n where "n = (case cap of None \<Rightarrow> length data | Some m \<Rightarrow> min m (length data))"
    have n: "n \<le> length data" by (simp add: n_def split: option.split)
    have r: "r = Inr n" "s' = s1\<lparr>nodes := (nodes s1)(k \<mapsto> Regular (c @ take n data))\<rparr>"
      using 2(4) d by (auto simp: n_def Let_def)
    have "owns part fd k (c @ take n data) s'"
      using o1 by (auto simp: r owns_def owned_def wf_os_def)
    moreover have "preserved {} k s s'"
      using extended_preserved [OF 2(1), of "{}" k] by (simp add: r preserved_def)
    ultimately show ?case using n r(1) by blast
  qed
qed

lemma preserved_trans0: "preserved {} own s s' \<Longrightarrow> preserved {} own s' s'' \<Longrightarrow> preserved {} own s s''"
  using preserved_trans [of "{}" own s s' "{}" s''] by simp

lemma write_loop_effect:
  assumes "owns part fd k c s" "write_loop fd part data written s = (r, s')"
  shows "\<exists>d. owns part fd k (c @ d) s' \<and> preserved {} k s s'
    \<and> (r = Inr () \<longrightarrow> d = drop written data) \<and> (\<exists>n. d = take n (drop written data))"
  using assms
proof (induction fd part data written s arbitrary: c rule: write_loop.induct)
  case (1 fd part data written s)
  show ?case
  proof (cases "written < length data")
    case True
    obtain r1 s1 where w: "sys_write fd (drop written data) s = (r1, s1)"
      by (cases "sys_write fd (drop written data) s")
    from sys_write_effect [OF "1.prems"(1) w]
    consider (bad) e where "r1 = Inl e" "owns part fd k c s1" "preserved {} k s s1"
      | (wrote) n where "n \<le> length (drop written data)" "r1 = Inr n"
          "owns part fd k (c @ take n (drop written data)) s1" "preserved {} k s s1" by blast
    then show ?thesis
    proof cases
      case bad
      show ?thesis
      proof (cases "e = EINTR")
        case eintr: True
        then have "write_loop fd part data written s1 = (r, s')"
          using "1.prems"(2) True w bad by (simp add: write_loop.simps [of fd part data written s])
        from "1.IH"(1) [OF True w [symmetric] bad(1) eintr bad(2) this] bad(3) show ?thesis
          by (blast intro: preserved_trans0)
      next
        case False
        then have "r = Inl (WriteFailed part e)" "s' = s1"
          using "1.prems"(2) True w bad by (simp_all add: write_loop.simps [of fd part data written s])
        then show ?thesis using bad by (intro exI [of _ "[]"]) (auto intro: exI [of _ 0])
      qed
    next
      case wrote
      show ?thesis
      proof (cases "n = 0")
        case z: True
        then have "r = Inl (NoProgress part)" "s' = s1"
          using "1.prems"(2) True w wrote by (simp_all add: write_loop.simps [of fd part data written s])
        then show ?thesis using wrote z by (intro exI [of _ "[]"]) (auto intro: exI [of _ 0])
      next
        case nz: False
        then have "write_loop fd part data (written + n) s1 = (r, s')"
          using "1.prems"(2) True w wrote by (simp add: write_loop.simps [of fd part data written s])
        from "1.IH"(2) [OF True w [symmetric] wrote(2) nz wrote(3) this]
        obtain d m where d: "owns part fd k ((c @ take n (drop written data)) @ d) s'" "preserved {} k s1 s'"
            "r = Inr () \<longrightarrow> d = drop (written + n) data" "d = take m (drop (written + n) data)" by blast
        have "drop written data = take n (drop written data) @ drop (written + n) data"
          using append_take_drop_id [of n "drop written data"] by (simp add: add.commute)
        then show ?thesis
          using d preserved_trans0 [OF wrote(4) d(2)]
          by (intro exI [of _ "take n (drop written data) @ d"])
            (auto simp: take_add add.commute [of written n] intro!: exI [of _ "n + m"])
      qed
    qed
  next
    case False
    then have "r = Inr ()" "s' = s"
      using "1.prems"(2) by (simp_all add: write_loop.simps [of fd part data written s])
    then show ?thesis using "1.prems"(1) False by (intro exI [of _ "[]"]) auto
  qed
qed


section \<open>Construction\<close>

lemma open_atomic_Inr:
  assumes "wf_os s" "open_atomic final ov s = (Inr f, s')"
  shows "\<exists>k. f = \<lparr>final_path = final, partial_path = final @ partial_suffix, af_fd = int k,
        overwrite = ov, committed = False\<rparr>
    \<and> owns (final @ partial_suffix) (int k) k [] s' \<and> next_id s \<le> k
    \<and> preserved (replaced ov (final @ partial_suffix)) k s s'"
proof -
  let ?p = "final @ partial_suffix"
  obtain u s1 where c: "check_final final ov s = (Inr u, s1)"
    using assms(2) by (auto simp: open_atomic_def Let_def split: prod.splits sum.splits)
  from assms(2) c obtain u2 s2 where p: "clear_partial ?p ov s1 = (Inr u2, s2)"
    by (auto simp: open_atomic_def Let_def split: prod.splits sum.splits)
  from assms(2) c p obtain fd where o: "sys_open_exclusive ?p s2 = (Inr fd, s')"
    and f: "f = \<lparr>final_path = final, partial_path = ?p, af_fd = fd, overwrite = ov, committed = False\<rparr>"
    by (auto simp: open_atomic_def Let_def split: prod.splits sum.splits)
  note 1 = check_final_effect [OF assms(1) c]
  note 2 = clear_partial_effect [OF conjunct2 [OF 1] p]
  from sys_open_exclusive_effect [OF conjunct1 [OF 2] o]
  obtain k where k: "fd = int k" "owns ?p (int k) k [] s'" "next_id s2 \<le> k" "preserved {} k s2 s'" by auto
  have a: "preserved (replaced ov ?p) k s s2"
    using preserved_trans [OF extended_preserved [OF conjunct1 [OF 1], of "{}" k] conjunct2 [OF 2]] by simp
  then have "preserved (replaced ov ?p) k s s'" "next_id s \<le> k"
    using preserved_trans [OF a k(4)] k(3) by (auto simp: preserved_def)
  with k f show ?thesis by blast
qed

lemma open_atomic_Inl:
  assumes "wf_os s" "open_atomic final ov s = (Inl e, s')"
  shows "wf_os s' \<and> preserved (replaced ov (final @ partial_suffix)) own s s'"
proof -
  let ?p = "final @ partial_suffix"
  obtain r1 s1 where c: "check_final final ov s = (r1, s1)" by (cases "check_final final ov s")
  note 1 = check_final_effect [OF assms(1) c]
  obtain r2 s2 where p: "clear_partial ?p ov s1 = (r2, s2)" by (cases "clear_partial ?p ov s1")
  note 2 = clear_partial_effect [OF conjunct2 [OF 1] p, of own]
  have a: "preserved (replaced ov ?p) own s s2"
    using preserved_trans [OF extended_preserved [OF conjunct1 [OF 1], of "{}" own] conjunct2 [OF 2]] by simp
  obtain r3 s3 where o: "sys_open_exclusive ?p s2 = (r3, s3)" by (cases "sys_open_exclusive ?p s2")
  consider "s' = s1" | "s' = s2" | e' where "r3 = Inl e'" "s' = s3"
    using assms(2) c p o by (auto simp: open_atomic_def Let_def split: sum.splits)
  then show ?thesis
  proof cases
    case 3
    with sys_open_exclusive_effect [OF conjunct1 [OF 2] o] have "wf_os s3" "extended s2 s3" by auto
    then show ?thesis using preserved_trans [OF a extended_preserved [of s2 s3 "{}" own]] 3 by simp
  qed (use 1 2 a in \<open>auto intro: extended_preserved\<close>)
qed

section \<open>Publication\<close>

lemma sys_fsync_effect:
  assumes "wf_os s" "sys_fsync fd s = (r, s')"
  shows "extended s s' \<and> wf_os s'"
  using assms(2) unfolding sys_fsync_def
  by (rule syscall_cases [OF assms(1)]) auto

lemma sys_close_effect:
  assumes "owned P k c s" "sys_close fd s = (r, s')"
  shows "owned P k c s' \<and> preserved {} k s s' \<and> (\<forall>p j. entries s p = Some j \<longrightarrow> entries s' p = Some j)"
proof -
  have w: "wf_os s" using assms(1) by (simp add: owned_def)
  obtain r1 s1 where c: "syscall (\<lambda>cap s. (if descriptors s fd = None then Inl EBADF else Inr (), s)) s = (r1, s1)"
      "s' = s1\<lparr>descriptors := (descriptors s1)(fd := None)\<rparr>"
    using assms(2) by (auto simp: sys_close_def split: prod.splits)
  have e: "extended s s1" "wf_os s1" using c(1) by (auto elim: syscall_cases [OF w])
  have "owned P k c s1" using owned_extended [OF assms(1) e] .
  then have "owned P k c s'" by (auto simp: c owned_def wf_os_def)
  moreover have "preserved {} k s s'"
    using extended_preserved [OF e(1), of "{}" k] by (simp add: c preserved_def)
  ultimately show ?thesis using e(1) by (simp add: c extended_def)
qed

lemma wf_add_entry: "wf_os s \<Longrightarrow> nodes s k = Some n \<Longrightarrow> wf_os (s\<lparr>entries := (entries s)(p \<mapsto> k)\<rparr>)"
  unfolding wf_os_def by auto

text \<open>Moving the partial's name to another path, and adding a second name.\<close>

lemma move_entry_effect:
  assumes "owned {part} k c s" "entries s part = Some k" "part \<noteq> final"
    "move_entry part final s = (r, s')"
  shows "r = Inr () \<and> owned {final} k c s' \<and> entries s' final = Some k \<and> preserved {final} k s s'
    \<and> (entries s final = None \<longrightarrow> preserved {} k s s')"
proof -
  have s': "r = Inr ()" "s' = s\<lparr>entries := (entries s)(part := None, final \<mapsto> k)\<rparr>"
    using assms(2,4) by (auto simp: move_entry_def)
  have "owned {final} k c s'"
    using assms(1) wf_add_entry [OF wf_remove_entry [of s part], of k "Regular c" final]
    by (auto simp: s' owned_def)
  moreover have "preserved {final} k s s'" using assms(2) by (simp add: s' preserved_def)
  moreover have "entries s final = None \<longrightarrow> preserved {} k s s'" using assms(2) by (simp add: s' preserved_def)
  ultimately show ?thesis by (simp add: s')
qed

lemma sys_rename_effect:
  assumes "owned {part} k c s" "entries s part = Some k" "part \<noteq> final"
    "sys_rename part final s = (r, s')"
  shows "(\<exists>e. r = Inl e \<and> extended s s' \<and> wf_os s')
    \<or> (r = Inr () \<and> owned {final} k c s' \<and> entries s' final = Some k \<and> preserved {final} k s s')"
proof -
  have w: "wf_os s" using assms(1) by (simp add: owned_def)
  from assms(4) show ?thesis unfolding sys_rename_def
  proof (rule syscall_cases [OF w], goal_cases)
    case (1 e s1)
    then show ?case by blast
  next
    case (2 s1 cap)
    have o: "owned {part} k c s1" "entries s1 part = Some k"
      using owned_extended [OF assms(1) 2(1,2)] assms(2) 2(1) by (auto simp: extended_def)
    consider e where "r = Inl e" "s' = s1" | "move_entry part final s1 = (r, s')"
      using 2(4) by (auto split: option.splits if_splits)
    then show ?case
    proof cases
      case 2
      from move_entry_effect [OF o assms(3) 2] preserved_trans [OF extended_preserved [OF \<open>extended s s1\<close>, of "{}" k]]
      show ?thesis by fastforce
    qed (use 2 in blast)
  qed
qed

lemma sys_rename_noreplace_effect:
  assumes "owned {part} k c s" "entries s part = Some k" "part \<noteq> final"
    "sys_rename_noreplace part final s = (r, s')"
  shows "(\<exists>e. r = Inl e \<and> extended s s' \<and> wf_os s')
    \<or> (r = Inr () \<and> owned {final} k c s' \<and> entries s' final = Some k \<and> preserved {} k s s')"
proof -
  have w: "wf_os s" using assms(1) by (simp add: owned_def)
  from assms(4) show ?thesis unfolding sys_rename_noreplace_def
  proof (rule syscall_cases [OF w], goal_cases)
    case (1 e s1)
    then show ?case by blast
  next
    case (2 s1 cap)
    have o: "owned {part} k c s1" "entries s1 part = Some k"
      using owned_extended [OF assms(1) 2(1,2)] assms(2) 2(1) by (auto simp: extended_def)
    consider e where "r = Inl e" "s' = s1" | "entries s1 final = None" "move_entry part final s1 = (r, s')"
      using 2(4) by (auto split: if_splits)
    then show ?case
    proof cases
      case 2
      from move_entry_effect [OF o assms(3) 2(2)] 2(1) preserved_trans0 [OF extended_preserved [OF \<open>extended s s1\<close>, of "{}" k]]
      show ?thesis by blast
    qed (use 2 in blast)
  qed
qed

lemma sys_link_effect:
  assumes "owned {part} k c s" "entries s part = Some k"
    "sys_link part final s = (r, s')"
  shows "(\<exists>e. r = Inl e \<and> extended s s' \<and> wf_os s')
    \<or> (r = Inr () \<and> owned {part, final} k c s' \<and> entries s' part = Some k \<and> entries s' final = Some k
       \<and> preserved {} k s s')"
proof -
  have w: "wf_os s" using assms(1) by (simp add: owned_def)
  from assms(3) show ?thesis unfolding sys_link_def
  proof (rule syscall_cases [OF w], goal_cases)
    case (1 e s1)
    then show ?case by blast
  next
    case (2 s1 cap)
    have o: "owned {part} k c s1" "entries s1 part = Some k"
      using owned_extended [OF assms(1) 2(1,2)] assms(2) 2(1) by (auto simp: extended_def)
    consider e where "r = Inl e" "s' = s1"
      | "entries s1 final = None" "r = Inr ()" "s' = s1\<lparr>entries := (entries s1)(final \<mapsto> k)\<rparr>"
      using 2(4) o by (auto split: if_splits option.splits)
    then show ?case
    proof cases
      case 2
      have "preserved {} k s1 s'" using 2(1) unfolding 2(3) preserved_def by simp
      then have "preserved {} k s s'"
        by (rule preserved_trans0 [OF extended_preserved [OF \<open>extended s s1\<close>]])
      moreover have "owned {part, final} k c s'" 
        using o(1) wf_add_entry [of s1 k "Regular c" final] by (auto simp: 2(3) owned_def)
      moreover have "entries s' part = Some k" "entries s' final = Some k" using o(2) by (simp_all add: 2(3))
      ultimately show ?thesis using 2(2) by blast
    qed (use 2 in blast)
  qed
qed

text \<open>Removing a name of the owned node.\<close>

lemma sys_unlink_owned:
  assumes "owned P k c s" "entries s p = Some k" "sys_unlink p s = (r, s')"
  shows "owned P k c s' \<and> preserved {} k s s'
    \<and> (\<forall>q. q \<noteq> p \<longrightarrow> entries s q = Some k \<longrightarrow> entries s' q = Some k)
    \<and> (if r = Inr () then owned (P - {p}) k c s' \<and> entries s' p = None else entries s' p = Some k)"
proof -
  have w: "wf_os s" using assms(1) by (simp add: owned_def)
  show ?thesis using w assms(3)
  proof (rule sys_unlink_cases)
    fix s1 assume e: "extended s s1" "wf_os s1" "s' = s1" "\<exists>e. r = Inl e"
    then show ?thesis using owned_extended [OF assms(1) e(1,2)] assms(2)
      by (auto simp: extended_preserved extended_def)
  next
    fix s1 assume e: "extended s s1" "wf_os s1" "s' = s1\<lparr>entries := (entries s1)(p := None)\<rparr>" "r = Inr ()"
    have o: "owned P k c s1" using owned_extended [OF assms(1) e(1,2)] .
    have "entries s1 p = Some k" using e(1) assms(2) by (simp add: extended_def)
    then have "preserved {} k s1 s'" by (auto simp: e preserved_def)
    then show ?thesis using o e preserved_trans0 [OF extended_preserved [OF e(1), of "{}" k]]
      by (auto simp: owned_def wf_remove_entry extended_def)
  qed
qed

end
