(* ===== verification/Publication.thy ===== *)
theory Publication
  imports AtomicFile
begin

text \<open>
  The promise of \<open>AtomicFile\<close> (\<open>src/RecoveryOutput.cpp\<close>) over a whole scope: whatever the calls
  return and whatever other processes create meanwhile, nothing existing is lost, a final path
  never shows partial content, and what is published is exactly what was written.
\<close>

section \<open>Publishing\<close>

text \<open>
  What a publication step leaves behind: on success only the final path names the node, on failure
  the partial path still does and nothing else was touched (the final path may name it too, if both
  the fallback's \<open>unlink\<close> and its undoing failed).
\<close>

definition publish_outcome :: "(errno + unit) \<Rightarrow> path \<Rightarrow> path \<Rightarrow> path set \<Rightarrow> nat \<Rightarrow> bytes \<Rightarrow> os \<Rightarrow> os \<Rightarrow> bool" where
  "publish_outcome r part final R k c s s' \<longleftrightarrow>
     (case r of
        Inr u \<Rightarrow> owned {final} k c s' \<and> entries s' final = Some k \<and> preserved R k s s'
      | Inl e \<Rightarrow> owned {part, final} k c s' \<and> entries s' part = Some k \<and> preserved {} k s s')"

lemma publish_failed_early:
  assumes "owned {part} k c s" "entries s part = Some k" "extended s s'" "wf_os s'"
  shows "publish_outcome (Inl e) part final R k c s s'"
  using owned_mono [OF owned_extended [OF assms(1,3,4)], of "{part, final}"] assms
  by (auto simp: publish_outcome_def extended_preserved extended_def)

lemma rename_without_replacement_effect:
  assumes "owned {part} k c s" "entries s part = Some k" "part \<noteq> final"
    and "rename_without_replacement part final s = (r, s')"
  shows "publish_outcome r part final {} k c s s'"
proof -
  obtain r1 s1 where a: "sys_rename_noreplace part final s = (r1, s1)" by (cases "sys_rename_noreplace part final s")
  from sys_rename_noreplace_effect [OF assms(1-3) a]
  consider (ok) "r1 = Inr ()" "owned {final} k c s1" "entries s1 final = Some k" "preserved {} k s s1"
    | (no) e where "r1 = Inl e" "extended s s1" "wf_os s1" by blast
  then show ?thesis
  proof cases
    case ok
    then show ?thesis using assms(4) a by (auto simp: rename_without_replacement_def publish_outcome_def)
  next
    case no
    note early = publish_failed_early [OF assms(1,2) no(2,3)]
    show ?thesis
    proof (cases "e \<noteq> ENOSYS \<and> e \<noteq> EINVAL")
      case True
      then show ?thesis using assms(4) a no(1) early by (auto simp: rename_without_replacement_def)
    next
      case False
      have o1: "owned {part} k c s1" "entries s1 part = Some k" "preserved {} k s s1"
        using owned_extended [OF assms(1) no(2,3)] assms(2) no(2) by (auto simp: extended_def extended_preserved)
      obtain r2 s2 where b: "sys_link part final s1 = (r2, s2)" by (cases "sys_link part final s1")
      from sys_link_effect [OF o1(1,2) b]
      consider (ok) "r2 = Inr ()" "owned {part, final} k c s2" "entries s2 part = Some k" "entries s2 final = Some k"
          "preserved {} k s1 s2"
        | (no2) e2 where "r2 = Inl e2" "extended s1 s2" "wf_os s2" by blast
      then show ?thesis
      proof cases
        case no2
        then have "r = Inl e2" "s' = s2"
          using assms(4) a b no(1) False by (auto simp: rename_without_replacement_def)
        moreover have "publish_outcome (Inl e2) part final {} k c s s2"
          using publish_failed_early [OF o1(1,2) no2(2,3), of e2 final "{}"] preserved_trans0 [OF o1(3)]
          by (simp add: publish_outcome_def)
        ultimately show ?thesis by simp
      next
        case ok
        have p2: "preserved {} k s s2" using preserved_trans0 [OF o1(3) ok(5)] .
        obtain r3 s3 where d: "sys_unlink part s2 = (r3, s3)" by (cases "sys_unlink part s2")
        note u = sys_unlink_owned [OF ok(2,3) d]
        have p3: "preserved {} k s s3" using u preserved_trans0 [OF p2] by blast
        show ?thesis
        proof (cases r3)
          case (Inr x)
          then have "r = Inr ()" "s' = s3"
            using assms(4) a b d no(1) ok(1) False by (auto simp: rename_without_replacement_def)
          moreover have "owned {final} k c s3" "entries s3 final = Some k"
            using u Inr ok(4) assms(3) by (auto intro: owned_mono)
          ultimately show ?thesis using p3 by (simp add: publish_outcome_def)
        next
          case (Inl e3)
          obtain r4 s4 where f: "sys_unlink final s3 = (r4, s4)" by (cases "sys_unlink final s3")
          have r: "r = Inl e3" "s' = s4"
            using assms(4) a b d f no(1) ok(1) Inl False by (auto simp: rename_without_replacement_def)
          have 3: "owned {part, final} k c s3" "entries s3 final = Some k" "entries s3 part = Some k"
            using u Inl ok(4) assms(3) by auto
          note v = sys_unlink_owned [OF 3(1,2) f]
          then show ?thesis using r 3 assms(3) preserved_trans0 [OF p3] by (simp add: publish_outcome_def)
        qed
      qed
    qed
  qed
qed

text \<open>The same for \<open>commit\<close>, with the object's fields.\<close>

definition commit_outcome ::
  "(runtime_error + unit) \<Rightarrow> atomic_file \<Rightarrow> atomic_file \<Rightarrow> nat \<Rightarrow> bytes \<Rightarrow> os \<Rightarrow> os \<Rightarrow> bool" where
  "commit_outcome r f f' k c s s' \<longleftrightarrow>
     partial_path f' = partial_path f \<and> final_path f' = final_path f \<and> overwrite f' = overwrite f
     \<and> (case r of
          Inr u \<Rightarrow> committed f' \<and> af_fd f' = -1 \<and> owned {final_path f} k c s'
             \<and> entries s' (final_path f) = Some k
             \<and> preserved (replaced (overwrite f) (final_path f)) k s s'
        | Inl e \<Rightarrow> \<not> committed f' \<and> owned {partial_path f, final_path f} k c s'
             \<and> entries s' (partial_path f) = Some k \<and> preserved {} k s s')"

lemma commit_atomic_effect:
  assumes "owned {partial_path f} k c s" "entries s (partial_path f) = Some k"
    and "partial_path f \<noteq> final_path f" "\<not> committed f"
    and "commit_atomic f s = (r, f', s')"
  shows "commit_outcome r f f' k c s s'"
proof -
  have w: "wf_os s" using assms(1) by (simp add: owned_def)
  obtain r1 s1 where a: "sys_fsync (af_fd f) s = (r1, s1)" by (cases "sys_fsync (af_fd f) s")
  note 1 = sys_fsync_effect [OF w a]
  have o1: "owned {partial_path f} k c s1" "entries s1 (partial_path f) = Some k" "preserved {} k s s1"
    using owned_extended [OF assms(1)] assms(2) 1 by (auto simp: extended_def extended_preserved)
  obtain r2 s2 where b: "sys_close (af_fd f) s1 = (r2, s2)" by (cases "sys_close (af_fd f) s1")
  note 2 = sys_close_effect [OF o1(1) b]
  have o2: "owned {partial_path f} k c s2" "entries s2 (partial_path f) = Some k" "preserved {} k s s2"
    using 2 o1(2) preserved_trans0 [OF o1(3)] by auto
  define m where "m = (if overwrite f then sys_rename (partial_path f) (final_path f) s2
                         else rename_without_replacement (partial_path f) (final_path f) s2)"
  obtain r3 s3 where d: "m = (r3, s3)" by (cases m)
  have 3: "publish_outcome r3 (partial_path f) (final_path f) (replaced (overwrite f) (final_path f)) k c s2 s3"
  proof (cases "overwrite f")
    case True
    then have "sys_rename (partial_path f) (final_path f) s2 = (r3, s3)" using d by (simp add: m_def)
    from sys_rename_effect [OF o2(1,2) assms(3) this] publish_failed_early [OF o2(1,2)] True
    show ?thesis by (auto simp: publish_outcome_def replaced_def)
  next
    case False
    then have "rename_without_replacement (partial_path f) (final_path f) s2 = (r3, s3)" using d by (simp add: m_def)
    from rename_without_replacement_effect [OF o2(1,2) assms(3) this] False
    show ?thesis by (simp add: replaced_def)
  qed
  consider e where "r1 = Inl e" | e where "r1 = Inr ()" "r2 = Inl e" | e where "r1 = Inr ()" "r2 = Inr ()" "r3 = Inl e"
    | "r1 = Inr ()" "r2 = Inr ()" "r3 = Inr ()" by (metis old.unit.exhaust sum.exhaust)
  then show ?thesis
  proof cases
    case 1
    then show ?thesis using assms(4,5) a o1 owned_mono [OF o1(1), of "{partial_path f, final_path f}"]
      by (auto simp: commit_atomic_def commit_outcome_def)
  next
    case 2
    then show ?thesis using assms(4,5) a b o2 owned_mono [OF o2(1), of "{partial_path f, final_path f}"]
      by (auto simp: commit_atomic_def commit_outcome_def)
  next
    case r: 3
    then have "r = Inl (CannotPublish (partial_path f) (final_path f) e)" "f' = f\<lparr>af_fd := -1\<rparr>" "s' = s3"
      using assms(4,5) a b d by (auto simp: commit_atomic_def m_def [symmetric])
    then show ?thesis using 3 r(3) assms(4) preserved_trans0 [OF o2(3)]
      by (simp add: commit_outcome_def publish_outcome_def)
  next
    case r: 4
    then have "r = Inr ()" "f' = f\<lparr>af_fd := -1, committed := True\<rparr>" "s' = s3"
      using assms(4,5) a b d by (auto simp: commit_atomic_def m_def [symmetric])
    moreover have "preserved (replaced (overwrite f) (final_path f)) k s s3"
      using 3 r(3) preserved_trans [OF o2(3)] by (fastforce simp: publish_outcome_def)
    ultimately show ?thesis using 3 r(3)
      by (simp add: commit_outcome_def publish_outcome_def)
  qed
qed

lemma cleanup_partial_effect:
  assumes "owned P k c s" "entries s (partial_path f) = Some k \<or> committed f"
  shows "owned P k c (cleanup_partial f s) \<and> preserved {} k s (cleanup_partial f s)
    \<and> (committed f \<longrightarrow> (\<forall>p j. entries s p = Some j \<longrightarrow> entries (cleanup_partial f s) p = Some j))"
proof -
  define s1 where "s1 = (if af_fd f \<ge> 0 then snd (sys_close (af_fd f) s) else s)"
  have 1: "owned P k c s1 \<and> preserved {} k s s1 \<and> (\<forall>p j. entries s p = Some j \<longrightarrow> entries s1 p = Some j)"
    using sys_close_effect [OF assms(1), of "af_fd f"] assms(1) by (auto simp: s1_def) (metis prod.collapse)+
  show ?thesis
  proof (cases "committed f")
    case True
    then show ?thesis using 1 by (simp add: cleanup_partial_def s1_def [symmetric])
  next
    case False
    then have e: "entries s1 (partial_path f) = Some k" using assms(2) 1 by blast
    obtain r2 s2 where u: "sys_unlink (partial_path f) s1 = (r2, s2)" by (cases "sys_unlink (partial_path f) s1")
    from sys_unlink_owned [OF conjunct1 [OF 1] e u] 1 preserved_trans0 [of k s s1 s2] u False
    show ?thesis by (simp add: cleanup_partial_def s1_def [symmetric])
  qed
qed


section \<open>A whole scope\<close>

text \<open>
  What the scope's body may do with its object: publish it with some content satisfying \<open>C\<close>, and
  then its result is \<open>ok\<close>; try to and fail; or write something and leave.
\<close>

definition body_outcome ::
  "((runtime_error + 'a) \<Rightarrow> bool) \<Rightarrow> (bytes \<Rightarrow> bool) \<Rightarrow> (runtime_error + 'a) \<Rightarrow> atomic_file \<Rightarrow> atomic_file \<Rightarrow> nat
     \<Rightarrow> os \<Rightarrow> os \<Rightarrow> bool" where
  "body_outcome ok C r f f' k s s' \<longleftrightarrow>
     (\<exists>c s1 rc. C c \<and> preserved {} k s s1 \<and> commit_outcome rc f f' k c s1 s' \<and> (ok r \<longleftrightarrow> rc = Inr ()))
     \<or> (\<exists>c. \<not> ok r \<and> f' = f \<and> owns (partial_path f) (af_fd f) k c s' \<and> preserved {} k s s')"

definition scope_outcome ::
  "path \<Rightarrow> bool \<Rightarrow> bool \<Rightarrow> (bytes \<Rightarrow> bool) \<Rightarrow> nat \<Rightarrow> os \<Rightarrow> os \<Rightarrow> bool" where
  "scope_outcome final ov published C k s s' \<longleftrightarrow>
     next_id s \<le> k \<and> wf_os s' \<and>
     (let part = final @ partial_suffix in
      if published then
        (\<exists>c. C c \<and> owned {final} k c s' \<and> entries s' final = Some k
           \<and> preserved (replaced ov part \<union> replaced ov final) k s s')
      else preserved (replaced ov part) k s s'
        \<and> (\<forall>p. entries s' p = Some k \<longrightarrow> p = part \<or> (p = final \<and> (\<exists>c. C c \<and> nodes s' k = Some (Regular c)))))"

lemma owned_entry: "owned P k c s \<Longrightarrow> entries s p = Some k \<Longrightarrow> p \<in> P"
  by (simp add: owned_def)

lemma with_atomic_file_effect:
  assumes w: "wf_os s" and r: "with_atomic_file final ov body s = (r, s')"
    and nok: "\<And>e. \<not> ok (Inl e)"
    and body: "\<And>f s1 k r f' s2. owns (partial_path f) (af_fd f) k [] s1 \<Longrightarrow> \<not> committed f
        \<Longrightarrow> partial_path f \<noteq> final_path f \<Longrightarrow> source_image s1 = source_image s \<Longrightarrow> body f s1 = (r, f', s2)
        \<Longrightarrow> body_outcome ok C r f f' k s1 s2"
  shows "\<exists>k. scope_outcome final ov (ok r) C k s s'"
proof -
  let ?p = "final @ partial_suffix"
  obtain r0 s0 where o: "open_atomic final ov s = (r0, s0)" by (cases "open_atomic final ov s")
  show ?thesis
  proof (cases r0)
    case (Inl e)
    then have r': "r = Inl e" "s' = s0" using r o by (auto simp: with_atomic_file_def)
    have 1: "wf_os s0" "preserved (replaced ov ?p) (next_id s0) s s0"
      using open_atomic_Inl [OF w o [unfolded Inl]] by auto
    then have "entries s0 p \<noteq> Some (next_id s0)" for p by (auto simp: wf_os_def)
    moreover have "next_id s \<le> next_id s0" using 1(2) by (simp add: preserved_def)
    ultimately show ?thesis using 1 r' nok by (auto simp: scope_outcome_def intro!: exI [of _ "next_id s0"])
  next
    case (Inr f)
    obtain k where k: "f = \<lparr>final_path = final, partial_path = ?p, af_fd = int k, overwrite = ov, committed = False\<rparr>"
        "owns ?p (int k) k [] s0" "next_id s \<le> k"
      and p0: "preserved (replaced ov ?p) k s s0"
      using open_atomic_Inr [OF w o [unfolded Inr]] by blast
    obtain r2 f2 s2 where b: "body f s0 = (r2, f2, s2)" by (cases "body f s0")
    have fin: "r = r2" "s' = cleanup_partial f2 s2" using r o Inr b by (auto simp: with_atomic_file_def)
    have "body_outcome ok C r2 f f2 k s0 s2"
      by (rule body [OF _ _ _ _ b]) (use k p0 in \<open>simp_all add: partial_suffix_def preserved_def\<close>)
    then consider (commit) c s1 rc where "C c" "preserved {} k s0 s1" "commit_outcome rc f f2 k c s1 s2"
          "ok r2 \<longleftrightarrow> rc = Inr ()"
      | (leave) c where "\<not> ok r2" "f2 = f" "owns (partial_path f) (af_fd f) k c s2" "preserved {} k s0 s2"
      unfolding body_outcome_def by blast
    then show ?thesis
    proof cases
      case leave
      have "owned {?p} k c s2" "entries s2 (partial_path f2) = Some k"
        using leave k(1) by (simp_all add: owns_def)
      note cl = cleanup_partial_effect [OF this(1) disjI1 [OF this(2)]]
      have "preserved (replaced ov ?p) k s s'"
        using preserved_trans [OF preserved_trans [OF p0 leave(4)] conjunct1 [OF conjunct2 [OF cl]]] fin by simp
      moreover have o: "owned {?p} k c s'" using cl fin by simp
      moreover have "wf_os s'" using o by (simp add: owned_def)
      ultimately have "scope_outcome final ov False C k s s'"
        using k(3) owned_entry [OF o] unfolding scope_outcome_def Let_def by auto
      then show ?thesis using leave(1) fin by (metis (full_types))
    next
      case commit
      have f2: "partial_path f2 = ?p" using commit(3) k(1) by (simp add: commit_outcome_def)
      show ?thesis
      proof (cases "ok r2")
        case True
        then have c2: "committed f2" "owned {final} k c s2" "entries s2 final = Some k"
            "preserved (replaced ov final) k s1 s2"
          using commit k(1) by (auto simp: commit_outcome_def)
        note cl = cleanup_partial_effect [OF c2(2) disjI2 [OF c2(1)]]
        have "preserved (replaced ov ?p \<union> replaced ov final) k s s'"
          using preserved_trans [OF preserved_trans [OF preserved_trans [OF p0 commit(2)] c2(4)]
              conjunct1 [OF conjunct2 [OF cl]]] fin by simp
        moreover have "owned {final} k c s'" "entries s' final = Some k" using cl c2 fin by auto
        moreover have "wf_os s'" using \<open>owned {final} k c s'\<close> by (simp add: owned_def)
        ultimately have "scope_outcome final ov True C k s s'"
          using commit(1) k(3) unfolding scope_outcome_def Let_def by auto
        then show ?thesis using True fin by (metis (full_types))
      next
        case False
        then obtain e where "rc = Inl e" using commit(4) by (cases rc) auto
        then have c2: "owned {?p, final} k c s2" "entries s2 (partial_path f2) = Some k" "preserved {} k s1 s2"
          using commit k(1) f2 by (auto simp: commit_outcome_def)
        note cl = cleanup_partial_effect [OF c2(1) disjI1 [OF c2(2)]]
        have "preserved (replaced ov ?p) k s s'"
          using preserved_trans [OF preserved_trans [OF preserved_trans [OF p0 commit(2)] c2(3)]
              conjunct1 [OF conjunct2 [OF cl]]] fin by simp
        moreover have o: "owned {?p, final} k c s'" using cl fin by simp
        moreover have "wf_os s'" "nodes s' k = Some (Regular c)" using o by (simp_all add: owned_def)
        ultimately have "scope_outcome final ov False C k s s'"
          using commit(1) k(3) owned_entry [OF o] unfolding scope_outcome_def Let_def by auto
        then show ?thesis using False fin by (metis (full_types))
      qed
    qed
  qed
qed

text \<open>The body of \<open>publish\<close>.\<close>

lemma write_all_effect:
  "owns (partial_path f) (af_fd f) k c s \<Longrightarrow> write_all cs f s = (r, s') \<Longrightarrow>
     \<exists>d. owns (partial_path f) (af_fd f) k (c @ d) s' \<and> preserved {} k s s' \<and> (r = Inr () \<longrightarrow> d = concat cs)"
proof (induction cs arbitrary: c s)
  case Nil
  then show ?case by (intro exI [of _ "[]"]) auto
next
  case (Cons x xs)
  obtain r1 s1 where a: "write_atomic f x s = (r1, s1)" by (cases "write_atomic f x s")
  then obtain d where d: "owns (partial_path f) (af_fd f) k (c @ d) s1" "preserved {} k s s1" "r1 = Inr () \<longrightarrow> d = x"
    using write_loop_effect [OF Cons.prems(1)] by (fastforce simp: write_atomic_def)
  show ?case
  proof (cases r1)
    case (Inl e)
    then show ?thesis using Cons.prems(2) a d by auto
  next
    case (Inr u)
    then have "write_all xs f s1 = (r, s')" "d = x" using Cons.prems(2) a d by auto
    from Cons.IH [OF d(1) this(1)] obtain d2 where
      "owns (partial_path f) (af_fd f) k ((c @ d) @ d2) s'" "preserved {} k s1 s'" "r = Inr () \<longrightarrow> d2 = concat xs" by blast
    then show ?thesis using \<open>d = x\<close> preserved_trans0 [OF d(2)] by (intro exI [of _ "x @ d2"]) auto
  qed
qed

lemma commit_body:
  assumes "owns (partial_path f) (af_fd f) k c s" "\<not> committed f" "partial_path f \<noteq> final_path f"
    and "commit_atomic f s = (r, f', s')"
  shows "commit_outcome r f f' k c s s'"
  using commit_atomic_effect assms by (simp add: owns_def)

lemma publish_body_outcome:
  assumes "owns (partial_path f) (af_fd f) k [] s" "\<not> committed f" "partial_path f \<noteq> final_path f"
    and "publish_body chunks f s = (r, f', s')"
  shows "body_outcome (\<lambda>r. r = Inr ()) (\<lambda>c. c = concat chunks) r f f' k s s'"
proof -
  obtain r1 s1 where a: "write_all chunks f s = (r1, s1)" by (cases "write_all chunks f s")
  from write_all_effect [OF assms(1) a] obtain d where
    d: "owns (partial_path f) (af_fd f) k d s1" "preserved {} k s s1" "r1 = Inr () \<longrightarrow> d = concat chunks" by auto
  show ?thesis
  proof (cases r1)
    case (Inl e)
    then have "r = Inl e" "f' = f" "s' = s1" using assms(4) a by (simp_all add: publish_body_def)
    then show ?thesis using d(1,2) unfolding body_outcome_def by blast
  next
    case (Inr u)
    then have "commit_atomic f s1 = (r, f', s')" using assms(4) a by (simp add: publish_body_def)
    from commit_body [OF d(1) assms(2,3) this] have "commit_outcome r f f' k (concat chunks) s1 s'"
      using d(3) Inr by simp
    then have "\<exists>c s1 rc. c = concat chunks \<and> preserved {} k s s1 \<and> commit_outcome rc f f' k c s1 s'
        \<and> (r = Inr () \<longleftrightarrow> rc = Inr ())" using d(2) by blast
    then show ?thesis unfolding body_outcome_def by (rule disjI1)
  qed
qed

lemma publish_effect:
  assumes "wf_os s" "publish final ov chunks s = (r, s')"
  shows "\<exists>k. scope_outcome final ov (r = Inr ()) (\<lambda>c. c = concat chunks) k s s'"
  using assms unfolding publish_def
  by (intro with_atomic_file_effect [where ok = "\<lambda>r. r = Inr ()"] publish_body_outcome) auto

section \<open>Calls that are not refused\<close>

text \<open>Rulings a write loop survives: it proceeds, is interrupted, or transfers something.\<close>

fun retryable :: "verdict \<Rightarrow> bool" where
  "retryable Proceed = True"
| "retryable (Fail e) = (e = EINTR)"
| "retryable (Short n) = (0 < n)"

definition cooperative :: "os \<Rightarrow> bool" where
  "cooperative s \<longleftrightarrow> (\<forall>a \<in> set (script s). retryable (ruling a))"

lemma sys_write_cooperative:
  assumes "owns part fd k c s" "cooperative s" "data \<noteq> []" "sys_write fd data s = (r, s')"
  shows "cooperative s' \<and> (r = Inl EINTR \<or> (\<exists>n. r = Inr n \<and> 0 < n))"
proof -
  have w: "wf_os s" using assms(1) by (simp add: owns_def owned_def)
  have c: "cooperative s'"
    using sys_write_script [OF assms(4)] assms(2) by (cases "script s") (auto simp: cooperative_def)
  obtain v s1 where p: "pop s = (v, s1)" by (cases "pop s")
  note e = pop_extended [OF w p]
  have "owns part fd k c s1" using owns_extended [OF assms(1) e(1)] e(1) w by (simp add: extended_def)
  then have d: "descriptors s1 fd = Some k" "nodes s1 k = Some (Regular c)"
    by (simp_all add: owns_def owned_def)
  have "retryable v" using p assms(2) by (auto simp: pop_def cooperative_def split: list.splits)
  then show ?thesis using assms(3,4) p d c
    by (cases v) (auto simp: sys_write_def syscall_def Let_def)
qed

lemma write_loop_completes:
  assumes "owns part fd k c s" "cooperative s" "write_loop fd part data written s = (r, s')"
  shows "r = Inr () \<and> cooperative s'"
  using assms
proof (induction fd part data written s arbitrary: c rule: write_loop.induct)
  case (1 fd part data written s)
  show ?case
  proof (cases "written < length data")
    case True
    obtain r1 s1 where w: "sys_write fd (drop written data) s = (r1, s1)"
      by (cases "sys_write fd (drop written data) s")
    have "cooperative s1 \<and> (r1 = Inl EINTR \<or> (\<exists>n. r1 = Inr n \<and> 0 < n))"
      using sys_write_cooperative [OF "1.prems"(1,2) _ w] True by simp
    then consider (again) "r1 = Inl EINTR" "cooperative s1"
      | (wrote) n where "r1 = Inr n" "n \<noteq> 0" "cooperative s1" by auto
    then show ?thesis
    proof cases
      case again
      then have o: "owns part fd k c s1" using sys_write_effect [OF "1.prems"(1) w] by auto
      have "write_loop fd part data written s1 = (r, s')"
        using "1.prems"(3) True w again by (simp add: write_loop.simps [of fd part data written s])
      then show ?thesis using "1.IH"(1) [OF True w [symmetric] again(1) refl o again(2)] by simp
    next
      case wrote
      then obtain c' where o: "owns part fd k c' s1" using sys_write_effect [OF "1.prems"(1) w] by auto
      have "write_loop fd part data (written + n) s1 = (r, s')"
        using "1.prems"(3) True w wrote by (simp add: write_loop.simps [of fd part data written s])
      then show ?thesis using "1.IH"(2) [OF True w [symmetric] wrote(1,2) o wrote(3)] by simp
    qed
  next
    case False
    then show ?thesis using "1.prems" by (simp add: write_loop.simps [of fd part data written s])
  qed
qed

lemma write_loop_script_Nil:
  "write_loop fd part data written s = (r, s') \<Longrightarrow> script s = [] \<Longrightarrow> script s' = []"
proof (induction fd part data written s rule: write_loop.induct)
  case (1 fd part data written s)
  obtain r1 s1 where w: "sys_write fd (drop written data) s = (r1, s1)"
    by (cases "sys_write fd (drop written data) s")
  have "script s1 = []" using sys_write_script [OF w] "1.prems"(2) by simp
  then show ?case using "1.prems"(1) w
      "1.IH"(1) [OF _ w [symmetric]] "1.IH"(2) [OF _ w [symmetric]]
    by (cases "written < length data"; cases r1)
       (use "1.prems"(2) in \<open>auto simp: write_loop.simps [of fd part data written s] split: if_splits\<close>)
qed

text \<open>An exhausted script: every call does what it is asked.\<close>

lemma syscall_calm: "script s = [] \<Longrightarrow> syscall act s = act None s"
  by (simp add: syscall_def pop_def)

lemma sys_lstat_calm: "script s = [] \<Longrightarrow> sys_lstat p s =
   ((case entries s p of None \<Rightarrow> Inl ENOENT
      | Some i \<Rightarrow> (case nodes s i of None \<Rightarrow> Inl ENOENT | Some n \<Rightarrow> Inr n)), s)"
  by (simp add: sys_lstat_def syscall_calm split: option.splits)

definition node_at :: "os \<Rightarrow> path \<Rightarrow> node option" where
  "node_at s p = Option.bind (entries s p) (nodes s)"

lemma path_exists_calm: "script s = [] \<Longrightarrow> path_exists p s = (Inr (node_at s p), s)"
  by (auto simp: path_exists_def sys_lstat_calm node_at_def split: option.splits)

lemma node_at_None: "wf_os s \<Longrightarrow> node_at s p = None \<longleftrightarrow> entries s p = None"
  by (cases "entries s p") (auto simp: node_at_def wf_os_def)

lemma write_all_calm:
  "owns (partial_path f) (af_fd f) k c s \<Longrightarrow> script s = [] \<Longrightarrow> write_all cs f s = (r, s') \<Longrightarrow>
     r = Inr () \<and> script s' = []"
proof (induction cs arbitrary: c s)
  case (Cons x xs)
  obtain r1 s1 where a: "write_atomic f x s = (r1, s1)" by (cases "write_atomic f x s")
  have l: "write_loop (af_fd f) (partial_path f) x 0 s = (r1, s1)" using a by (simp add: write_atomic_def)
  have r1: "r1 = Inr ()"
    using write_loop_completes [OF Cons.prems(1) _ l] Cons.prems(2) by (simp add: cooperative_def)
  have n: "script s1 = []" using write_loop_script_Nil [OF l Cons.prems(2)] .
  obtain d where "owns (partial_path f) (af_fd f) k (c @ d) s1"
    using write_loop_effect [OF Cons.prems(1) l] by blast
  then show ?case using Cons.IH [OF _ n] Cons.prems(3) a r1 by simp
qed simp

lemma commit_atomic_calm:
  assumes "owns (partial_path f) (af_fd f) k c s" "script s = []"
    and "overwrite f \<and> node_at s (final_path f) \<noteq> Some Directory \<or> entries s (final_path f) = None"
    and "commit_atomic f s = (r, f', s')"
  shows "r = Inr ()"
proof -
  have d: "descriptors s (af_fd f) = Some k" "entries s (partial_path f) = Some k"
    using assms(1) by (simp_all add: owns_def)
  show ?thesis
  proof (cases "overwrite f")
    case True
    then show ?thesis using assms(2-4) d
      by (auto simp: commit_atomic_def sys_fsync_def sys_close_def sys_rename_def syscall_calm move_entry_def
          node_at_def split: if_splits option.splits)
  next
    case False
    then show ?thesis using assms(2-4) d
      by (auto simp: commit_atomic_def sys_fsync_def sys_close_def rename_without_replacement_def
          sys_rename_noreplace_def syscall_calm move_entry_def split: if_splits)
  qed
qed


definition available :: "os \<Rightarrow> bool \<Rightarrow> path \<Rightarrow> bool" where
  "available s ov p \<longleftrightarrow> (case node_at s p of None \<Rightarrow> True | Some (Regular c) \<Rightarrow> ov | _ \<Rightarrow> False)"

lemma check_final_calm:
  "script s = [] \<Longrightarrow> available s ov p \<Longrightarrow> check_final p ov s = (Inr (), s)"
  by (auto simp: check_final_def path_exists_calm available_def unsafe_existing_output_def
      split: option.splits node.splits)

lemma clear_partial_calm:
  assumes "wf_os s" "script s = []" "available s ov p"
  shows "\<exists>s'. clear_partial p ov s = (Inr (), s') \<and> script s' = [] \<and> entries s' = (entries s)(p := None) \<and> nodes s' = nodes s"
proof (cases "node_at s p")
  case None
  then have "entries s p = None" using node_at_None [OF assms(1)] by simp
  then have "(entries s)(p := None) = entries s" by (simp add: fun_upd_idem)
  then show ?thesis using None assms(2) by (simp add: clear_partial_def path_exists_calm)
next
  case (Some n)
  then obtain c where n: "n = Regular c" "ov" using assms(3) by (auto simp: available_def split: node.splits)
  obtain i where "entries s p = Some i" "nodes s i = Some n" using Some by (auto simp: node_at_def bind_eq_Some_conv)
  then show ?thesis using n Some assms(2)
    by (simp add: clear_partial_def path_exists_calm unsafe_existing_output_def sys_unlink_def syscall_calm unlink_entry_def)
qed

lemma open_atomic_calm:
  assumes "wf_os s" "script s = []" "available s ov final" "available s ov (final @ partial_suffix)"
  obtains f s1 k where "open_atomic final ov s = (Inr f, s1)" "script s1 = []" "\<not> committed f"
    "owns (partial_path f) (af_fd f) k [] s1"
    "\<And>d s2. owns (partial_path f) (af_fd f) k d s2 \<Longrightarrow> preserved {} k s1 s2 \<Longrightarrow>
       overwrite f \<and> node_at s2 (final_path f) \<noteq> Some Directory \<or> entries s2 (final_path f) = None"
proof -
  let ?p = "final @ partial_suffix"
  have np: "final \<noteq> ?p" by (simp add: partial_suffix_def)
  obtain s1 where c: "clear_partial ?p ov s = (Inr (), s1)" "script s1 = []"
      "entries s1 = (entries s)(?p := None)" "nodes s1 = nodes s"
    using clear_partial_calm [OF assms(1,2,4)] by blast
  obtain fd s2 where o: "sys_open_exclusive ?p s1 = (Inr fd, s2)" "script s2 = []"
      "entries s2 = (entries s)(?p \<mapsto> next_id s1)" "\<forall>j. j \<noteq> next_id s1 \<longrightarrow> nodes s2 j = nodes s j"
    using c by (auto simp: sys_open_exclusive_def syscall_calm add_node_def Let_def)
  let ?f = "\<lparr>final_path = final, partial_path = ?p, af_fd = fd, overwrite = ov, committed = False\<rparr>"
  have open': "open_atomic final ov s = (Inr ?f, s2)"
    using check_final_calm [OF assms(2,3)] c o by (simp add: open_atomic_def Let_def)
  obtain k where k: "owns ?p fd k [] s2" using open_atomic_Inr [OF assms(1) open'] by auto
  have q: "quiet s2" using o(2) by (simp add: quiet_def)
  have kn: "k = next_id s1" using k o(3) by (simp add: owns_def)
  have e2: "entries s2 final = entries s final" using o(3) np by simp
  have "ov \<and> node_at s3 final \<noteq> Some Directory \<or> entries s3 final = None"
    if d: "owns ?p fd k d s3" "preserved {} k s2 s3" for d s3
  proof (cases "entries s final")
    case None
    have "entries s3 final \<noteq> Some j" for j
      using None e2 d q np owned_entry [of "{?p}" k d s3 final] unfolding preserved_def owns_def by fastforce
    then show ?thesis by (simp add: not_Some_eq [symmetric] del: not_Some_eq)
  next
    case (Some i)
    then obtain n where "nodes s i = Some n" using wf_entry [OF assms(1)] by blast
    then obtain c where c: "nodes s i = Some (Regular c)" ov
      using Some assms(3) by (auto simp: available_def node_at_def split: node.splits)
    have "i \<noteq> k" using Some e2 k np owned_entry [of "{?p}" k "[]" s2 final] by (auto simp: owns_def)
    then have "nodes s2 i = Some (Regular c)" using o(4) c(1) kn by simp
    then have "entries s3 final = Some i" "nodes s3 i = Some (Regular c)"
      using Some e2 d(2) \<open>i \<noteq> k\<close> unfolding preserved_def by auto
    then show ?thesis using c(2) by (simp add: node_at_def)
  qed
  then show thesis using that [OF open' o(2)] k by simp
qed

lemma publish_calm:
  assumes "wf_os s" "script s = []" "available s ov final" "available s ov (final @ partial_suffix)"
    and "publish final ov chunks s = (r, s')"
  shows "r = Inr ()"
  using assms(1-4)
proof (rule open_atomic_calm)
  fix f s2 k
  assume o: "open_atomic final ov s = (Inr f, s2)" "script s2 = []" "owns (partial_path f) (af_fd f) k [] s2"
    and free: "\<And>d s3. owns (partial_path f) (af_fd f) k d s3 \<Longrightarrow> preserved {} k s2 s3 \<Longrightarrow>
       overwrite f \<and> node_at s3 (final_path f) \<noteq> Some Directory \<or> entries s3 (final_path f) = None"
  obtain r3 s3 where w: "write_all chunks f s2 = (r3, s3)" by (cases "write_all chunks f s2")
  have 3: "r3 = Inr ()" "script s3 = []" using write_all_calm [OF o(3,2) w] by auto
  obtain d where d: "owns (partial_path f) (af_fd f) k d s3" "preserved {} k s2 s3"
    using write_all_effect [OF o(3) w] by auto
  obtain r4 f4 s4 where m: "commit_atomic f s3 = (r4, f4, s4)" by (cases "commit_atomic f s3")
  have "r4 = Inr ()" by (rule commit_atomic_calm [OF d(1) 3(2) free [OF d] m])
  then show ?thesis using assms(5) o w m 3(1) by (simp add: publish_def with_atomic_file_def publish_body_def)
qed


lemma publish_refused:
  assumes "script s = []" "node_at s final = Some n" "\<forall>c. n = Regular c \<longrightarrow> \<not> ov"
  shows "publish final ov chunks s =
    (Inl (case n of Symlink t \<Rightarrow> RefuseSymlink final | Regular c \<Rightarrow> OutputExists final
          | _ \<Rightarrow> RefuseNonRegular final), s)"
  using assms by (cases n) (simp_all add: publish_def with_atomic_file_def open_atomic_def Let_def check_final_def
      path_exists_calm unsafe_existing_output_def)

section \<open>A concrete state\<close>

text \<open>A directory with one file \<open>a\<close>, and the same with an open partial of \<open>b\<close>.\<close>

definition sample_os :: "answer list \<Rightarrow> os" where
  "sample_os as = \<lparr>entries = [[0x61] \<mapsto> 0], nodes = [0 \<mapsto> Regular [7]], descriptors = Map.empty,
     next_id = 1, source_image = [], script = as\<rparr>"

definition sample_file :: atomic_file where
  "sample_file = \<lparr>final_path = [0x62], partial_path = 0x62 # partial_suffix, af_fd = 1,
     overwrite = False, committed = False\<rparr>"

definition sample_open_os :: "answer list \<Rightarrow> os" where
  "sample_open_os as = \<lparr>entries = [[0x61] \<mapsto> 0, 0x62 # partial_suffix \<mapsto> 1],
     nodes = [0 \<mapsto> Regular [7], 1 \<mapsto> Regular [5]], descriptors = [1 \<mapsto> 1],
     next_id = 2, source_image = [], script = as\<rparr>"

text \<open>Another process creates \<open>b\<close>, a write is interrupted, another shortened to one byte.\<close>

definition sample_script :: "answer list" where
  "sample_script = [\<lparr>racers = [([0x62], Regular [9])], ruling = Proceed\<rparr>,
     \<lparr>racers = [], ruling = Fail EINTR\<rparr>, \<lparr>racers = [], ruling = Short 1\<rparr>]"

lemma wf_sample_os: "wf_os (sample_os as)"
  by (auto simp: wf_os_def sample_os_def)

lemma owns_sample: "owns (partial_path sample_file) (af_fd sample_file) 1 [5] (sample_open_os as)"
  by (auto simp: owns_def owned_def wf_os_def sample_open_os_def sample_file_def split: if_splits)

section \<open>Properties\<close>

text \<open>
  Without the overwrite option nothing that exists is ever lost. Whatever the calls return and
  whatever other processes create in between, after the scope of an \<open>AtomicFile\<close> every path that
  existed still names the same node with the same content, the final and the partial path included.
\<close>

theorem publish_never_clobbers:
  assumes "wf_os s" "publish final False chunks s = (r, s')"
    and "entries s p = Some j"
  shows "entries s' p = Some j \<and> nodes s' j = nodes s j"
proof -
  obtain k where k: "next_id s \<le> k" "preserved {} k s s'"
    using publish_effect [OF assms(1,2)] by (auto simp: scope_outcome_def replaced_def Let_def split: if_splits)
  obtain n where n: "nodes s j = Some n" "j < next_id s" using wf_entry [OF assms(1,3)] by blast
  then show ?thesis using k assms(3) by (auto simp: preserved_def)
qed

lemma publish_never_clobbers_witness:
  "entries (snd (publish [0x62] False [[1, 2], [3]] (sample_os sample_script))) [0x61] = Some 0"
  using publish_never_clobbers [OF wf_sample_os prod.collapse [symmetric], of sample_script "[0x61]" 0 "[0x62]" "[[1, 2], [3]]"]
  by (simp add: sample_os_def)

text \<open>
  Publication is exact and fresh. If no exception is raised, the final path names a node that
  did not exist before, whose content is exactly the concatenation of everything written, in order,
  whatever short counts and interruptions occurred; and no other path names it, so the partial is
  gone.
\<close>

theorem publish_exact:
  assumes "wf_os s" "publish final ov chunks s = (Inr (), s')"
  shows "\<exists>k. entries s' final = Some k \<and> nodes s' k = Some (Regular (concat chunks))
    \<and> nodes s k = None \<and> (\<forall>p. entries s' p = Some k \<longrightarrow> p = final)"
proof -
  obtain k where k: "next_id s \<le> k" "owned {final} k (concat chunks) s'" "entries s' final = Some k"
    using publish_effect [OF assms] unfolding scope_outcome_def Let_def by auto
  have "nodes s' k = Some (Regular (concat chunks))" using k(2) by (simp add: owned_def)
  then show ?thesis using k(3) wf_fresh [OF assms(1) k(1)] owned_entry [OF k(2)] by blast
qed

lemma publish_exact_witness:
  "\<exists>k s'. entries s' [0x62] = Some k \<and> nodes s' k = Some (Regular [1, 2, 3])
     \<and> publish [0x62] False [[1, 2], [3]] (sample_os []) = (Inr (), s')"
proof -
  let ?m = "publish [0x62] False [[1, 2], [3]] (sample_os [])"
  have "fst ?m = Inr ()"
    by (rule publish_calm [OF wf_sample_os _ _ _ prod.collapse [symmetric]])
      (simp_all add: sample_os_def available_def node_at_def partial_suffix_def)
  then have r: "?m = (Inr (), snd ?m)" by (metis prod.collapse)
  from publish_exact [OF wf_sample_os r] show ?thesis using r by auto
qed

text \<open>
  A failed publication is invisible. If an exception is raised, also with the overwrite
  option, then every existing path but a stale partial is untouched, the old final output included;
  and when no other process interferes the only path that can be new is the partial, or the final
  path with the complete content, never with a part of it.
\<close>

theorem publish_failure_atomic:
  assumes "wf_os s" "publish final ov chunks s = (Inl e, s')"
  shows "(\<forall>p j. entries s p = Some j \<and> p \<noteq> final @ partial_suffix \<longrightarrow> entries s' p = Some j \<and> nodes s' j = nodes s j)
    \<and> (quiet s \<longrightarrow> (\<forall>p j. entries s' p = Some j \<and> entries s p = None \<longrightarrow>
         p = final @ partial_suffix \<or> (p = final \<and> nodes s' j = Some (Regular (concat chunks)))))"
proof -
  obtain k where k: "next_id s \<le> k" "preserved (replaced ov (final @ partial_suffix)) k s s'"
    "\<forall>p. entries s' p = Some k \<longrightarrow> p = final @ partial_suffix \<or> (p = final \<and> nodes s' k = Some (Regular (concat chunks)))"
    using publish_effect [OF assms] by (auto simp: scope_outcome_def Let_def)
  have "entries s' p = Some j \<and> nodes s' j = nodes s j"
    if h: "entries s p = Some j" "p \<noteq> final @ partial_suffix" for p j
  proof -
    obtain n where "nodes s j = Some n" "j < next_id s" using wf_entry [OF assms(1) h(1)] by blast
    then show ?thesis using k(1,2) h by (auto simp: preserved_def replaced_def split: if_splits)
  qed
  moreover have "p = final @ partial_suffix \<or> (p = final \<and> nodes s' j = Some (Regular (concat chunks)))"
    if "quiet s" "entries s' p = Some j" "entries s p = None" for p j
  proof -
    have "j = k" using k(2) that unfolding preserved_def by fastforce
    then show ?thesis using k(3) that(2) by blast
  qed
  ultimately show ?thesis by blast
qed

lemma publish_failure_atomic_witness:
  "entries (snd (publish [0x61] False [[1]] (sample_os []))) [0x61] = Some 0"
proof -
  have "publish [0x61] False [[1]] (sample_os []) = (Inl (OutputExists [0x61]), sample_os [])"
    using publish_refused [of "sample_os []" "[0x61]" "Regular [7]" False "[[1]]"]
    by (simp add: sample_os_def node_at_def)
  from publish_failure_atomic [OF wf_sample_os this] this show ?thesis
    by (simp add: sample_os_def partial_suffix_def)
qed

text \<open>
  An abandoned partial is removed. Destroying an uncommitted \<open>AtomicFile\<close> whose calls are not
  refused leaves no path that names its node, whatever was written to it.
\<close>

theorem abandoned_partial_removed:
  assumes "owns (partial_path f) (af_fd f) k c s" "\<not> committed f" "script s = []"
  shows "entries (cleanup_partial f s) p \<noteq> Some k"
proof -
  have o: "owned {partial_path f} k c s" "entries s (partial_path f) = Some k" using assms(1) by (simp_all add: owns_def)
  define s1 where "s1 = (if af_fd f \<ge> 0 then snd (sys_close (af_fd f) s) else s)"
  have "owned {partial_path f} k c s1 \<and> (\<forall>p j. entries s p = Some j \<longrightarrow> entries s1 p = Some j)"
    using sys_close_effect [OF o(1), of "af_fd f"] o(1) by (auto simp: s1_def) (metis prod.collapse)+
  then have 1: "owned {partial_path f} k c s1" "entries s1 (partial_path f) = Some k" using o(2) by auto
  have n: "script s1 = []" using assms(3) by (simp add: s1_def sys_close_def syscall_calm)
  obtain r s2 where u: "sys_unlink (partial_path f) s1 = (r, s2)" by (cases "sys_unlink (partial_path f) s1")
  have "nodes s1 k = Some (Regular c)" using 1(1) by (simp add: owned_def)
  then have "r = Inr ()" using u n 1(2) by (auto simp: sys_unlink_def syscall_calm unlink_entry_def)
  then have "owned {} k c s2" using sys_unlink_owned [OF 1 u] by simp
  then show ?thesis using assms(2) u owned_entry [of "{}" k c s2 p] by (auto simp: cleanup_partial_def s1_def [symmetric])
qed

lemma abandoned_partial_removed_witness:
  "entries (cleanup_partial sample_file (sample_open_os [])) (0x62 # partial_suffix) \<noteq> Some 1"
  by (rule abandoned_partial_removed [OF owns_sample]) (simp_all add: sample_file_def sample_open_os_def)

text \<open>
  C40: writing makes progress. As long as the kernel only interrupts calls or shortens them to at
  least one byte, \<open>write\<close> returns without an exception and has appended the whole buffer, however
  many interruptions there are.
\<close>

theorem write_completes:
  assumes "owns (partial_path f) (af_fd f) k c s" "cooperative s"
    and "write_atomic f data s = (r, s')"
  shows "r = Inr () \<and> nodes s' k = Some (Regular (c @ data))"
proof -
  note l = assms(3) [unfolded write_atomic_def]
  have "r = Inr ()" using write_loop_completes [OF assms(1,2) l] by simp
  moreover obtain d where "owns (partial_path f) (af_fd f) k (c @ d) s'" "r = Inr () \<longrightarrow> d = data"
    using write_loop_effect [OF assms(1) l] by auto
  ultimately show ?thesis by (simp add: owns_def owned_def)
qed

lemma write_completes_witness:
  "fst (write_atomic sample_file [1, 2, 3] (sample_open_os sample_script)) = Inr ()"
proof -
  have "cooperative (sample_open_os sample_script)"
    by (simp add: cooperative_def sample_open_os_def sample_script_def)
  from write_completes [OF owns_sample this prod.collapse [symmetric]] show ?thesis by blast
qed

text \<open>
  Publication succeeds. If the final path and the partial are free, or are regular files and
  overwriting is asked for, and no call is refused, then there is no exception.
\<close>

theorem publish_succeeds:
  assumes "wf_os s" "script s = []" "available s ov final" "available s ov (final @ partial_suffix)"
  shows "fst (publish final ov chunks s) = Inr ()"
  using publish_calm [OF assms] by (metis prod.collapse)

lemma publish_succeeds_witness: "fst (publish [0x62] False [[1, 2], [3]] (sample_os [])) = Inr ()"
  by (rule publish_succeeds [OF wf_sample_os])
    (simp_all add: sample_os_def available_def node_at_def partial_suffix_def)

text \<open>
  The refusals of the constructor. An existing regular output is refused without the overwrite
  option, a symbolic link or another special file always, and nothing is created or changed.
\<close>

theorem unsafe_output_refused:
  assumes "script s = []" "node_at s final = Some n" "\<forall>c. n = Regular c \<longrightarrow> \<not> ov"
  shows "publish final ov chunks s =
    (Inl (case n of Symlink t \<Rightarrow> RefuseSymlink final | Regular c \<Rightarrow> OutputExists final
          | _ \<Rightarrow> RefuseNonRegular final), s)"
  using assms by (rule publish_refused)

lemma unsafe_output_refused_witness:
  "publish [0x61] False [[1]] (sample_os []) = (Inl (OutputExists [0x61]), sample_os [])"
  using unsafe_output_refused [of "sample_os []" "[0x61]" "Regular [7]" False "[[1]]"]
  by (simp add: sample_os_def node_at_def)

end
