(* ===== verification/LittleEndian.thy ===== *)
theory LittleEndian
  imports Prelude
begin

text \<open>
  Little-endian integers: the reader \<open>read_le\<close> of \<open>src/MftRecord.cpp\<close> with its accumulation
  loop, which \<open>parse_data_runs\<close> repeats for its variable-width fields, and the writer
  \<open>put_le\<close> of the test fixtures \<open>tests/NtfsFixtures.cpp\<close>, against which it is a codec.
\<close>

section \<open>The code\<close>

text \<open>
  \<open>for (i = 0; i < n; ++i) value |= uint64(bytes[offset + i]) << (8 * i)\<close>, from index
  \<open>i\<close> on with \<open>k\<close> rounds left.
\<close>

fun le_loop :: "bytes \<Rightarrow> nat \<Rightarrow> nat \<Rightarrow> nat \<Rightarrow> u64 \<Rightarrow> u64 access" where
  "le_loop bs off i 0 v = Got v"
| "le_loop bs off i (Suc k) v =
     acc_bind (byte_at bs (off + i)) (\<lambda>b.
       le_loop bs off (Suc i) k (v OR push_bit (8 * i) (ucast b)))"

text \<open>\<open>read_le<T>\<close>: the width of the result type gives \<open>sizeof(T)\<close>.\<close>

definition read_le :: "bytes \<Rightarrow> nat \<Rightarrow> 'a::len word option access" where
  "read_le bs off =
     (let n = LENGTH('a) div 8 in
      if off > length bs \<or> n > length bs - off then Got None
      else acc_bind (le_loop bs off 0 n 0) (\<lambda>v. Got (Some (ucast v))))"

text \<open>\<open>put_le\<close> throws \<open>out_of_range\<close> when the value does not fit (None here).\<close>

definition le_bytes :: "nat \<Rightarrow> 'a::len word \<Rightarrow> bytes" where
  "le_bytes n v = map (\<lambda>i. ucast (drop_bit (8 * i) v)) [0..<n]"

definition put_le :: "bytes \<Rightarrow> nat \<Rightarrow> 'a::len word \<Rightarrow> bytes option" where
  "put_le bs off v =
     (let n = LENGTH('a) div 8 in
      if off > length bs \<or> n > length bs - off then None
      else Some (take off bs @ le_bytes n v @ drop (off + n) bs))"

section \<open>Values\<close>

fun le_nat :: "bytes \<Rightarrow> nat" where
  "le_nat [] = 0"
| "le_nat (b # bs) = unat b + 256 * le_nat bs"

lemma le_nat_less: "le_nat bs < 256 ^ length bs"
proof (induction bs)
  case (Cons b bs)
  then show ?case using unat_byte_lt [of b] by simp
qed simp

lemma unat_push_byte:
  assumes "i < 8"
  shows "unat (push_bit (8 * i) (ucast (b :: byte) :: u64)) = unat b * 256 ^ i"
proof -
  have "unat b * 256 ^ i < 256 * 256 ^ i" using unat_byte_lt [of b] by simp
  also have "\<dots> \<le> 256 ^ 8" using assms power_increasing [of "Suc i" 8 "256 :: nat"] by simp
  finally have "unat b * 256 ^ i < 2 ^ 64" by simp
  then show ?thesis
    using unat_byte_lt [of b] by (simp add: unat_push_bit unat_ucast power_mult)
qed

lemma le_loop_Got:
  assumes "off + i + k \<le> length bs" "i + k \<le> 8" "unat v < 256 ^ i"
  shows "\<exists>w. le_loop bs off i k v = Got w \<and> unat w = unat v + 256 ^ i * le_nat (sub_bytes bs (off + i) k)"
  using assms
proof (induction k arbitrary: i v)
  case 0
  then show ?case by (simp add: sub_bytes_def)
next
  case (Suc k)
  let ?b = "bs ! (off + i)"
  let ?v = "v OR push_bit (8 * i) (ucast ?b)"
  have v: "unat ?v = unat v + 256 ^ i * unat ?b"
  proof -
    have "unat v < 2 ^ (8 * i)" using Suc.prems by (simp add: power_mult)
    from unat_shift_or [OF this, of "ucast ?b"] show ?thesis
      using unat_push_byte [of i ?b] Suc.prems by (simp add: or.commute mult.commute)
  qed
  have "unat v + 256 ^ i * unat ?b < 256 ^ i * (1 + unat ?b)" using Suc.prems by simp
  also have "\<dots> \<le> 256 ^ Suc i" using unat_byte_lt [of ?b] by (simp add: mult.commute)
  finally have "unat ?v < 256 ^ Suc i" using v by simp
  then obtain w where w: "le_loop bs off (Suc i) k ?v = Got w"
      "unat w = unat ?v + 256 ^ Suc i * le_nat (sub_bytes bs (off + Suc i) k)"
    using Suc.IH [of "Suc i" ?v] Suc.prems by auto
  have "sub_bytes bs (off + i) (Suc k) = ?b # sub_bytes bs (off + Suc i) k"
    using Suc.prems by (simp add: sub_bytes_def Cons_nth_drop_Suc [symmetric])
  then show ?case using w v Suc.prems by (simp add: access_simps algebra_simps)
qed


text \<open>What a read yields: the little-endian value of the bytes it covers, at the type's width.\<close>

definition le_word :: "bytes \<Rightarrow> nat \<Rightarrow> 'a::len word" where
  "le_word bs off = of_nat (le_nat (sub_bytes bs off (LENGTH('a) div 8)))"

lemma read_le_eq [le_simps]:
  assumes "8 dvd LENGTH('a)" "LENGTH('a) \<le> 64"
  shows "(read_le bs off :: 'a::len word option access) =
    Got (if off + LENGTH('a) div 8 \<le> length bs then Some (le_word bs off) else None)"
proof (cases "off + LENGTH('a) div 8 \<le> length bs")
  case True
  have "LENGTH('a) div 8 \<le> 8" using assms(2) div_le_mono [of "LENGTH('a)" 64 8] by simp
  with True obtain w where w: "le_loop bs off 0 (LENGTH('a) div 8) 0 = Got w"
      "unat w = le_nat (sub_bytes bs off (LENGTH('a) div 8))"
    using le_loop_Got [of off 0 "LENGTH('a) div 8" bs 0] by auto
  have "(ucast w :: 'a word) = of_nat (unat w)" by (simp add: word_unat_eq_iff unat_ucast unat_of_nat)
  then show ?thesis using w True by (auto simp: read_le_def le_word_def Let_def)
next
  case False
  then show ?thesis by (auto simp: read_le_def Let_def)
qed

lemma unat_le_word:
  assumes "8 dvd LENGTH('a)" "off + LENGTH('a) div 8 \<le> length bs"
  shows "unat (le_word bs off :: 'a::len word) = le_nat (sub_bytes bs off (LENGTH('a) div 8))"
proof -
  have "le_nat (sub_bytes bs off (LENGTH('a) div 8)) < 256 ^ (LENGTH('a) div 8)"
    using le_nat_less [of "sub_bytes bs off (LENGTH('a) div 8)"] assms(2) by simp
  also have "(256 :: nat) ^ (LENGTH('a) div 8) = 2 ^ LENGTH('a)"
    using assms(1) power_mult [of "2 :: nat" 8 "LENGTH('a) div 8"] by simp
  finally show ?thesis by (simp add: le_word_def unat_of_nat)
qed

lemma le_nat_le_bytes: "le_nat (le_bytes n (v :: 'a::len word)) = unat v mod 256 ^ n"
proof (induction n arbitrary: v)
  case 0
  then show ?case by (simp add: le_bytes_def)
next
  case (Suc n)
  have "le_bytes (Suc n) v = ucast v # le_bytes n (drop_bit 8 v)"
    by (simp add: le_bytes_def upt_conv_Cons map_Suc_upt [symmetric] drop_bit_drop_bit del: upt_Suc)
      (simp add: comp_def add.commute)
  then have "le_nat (le_bytes (Suc n) v) = unat v mod 256 + 256 * (unat v div 256 mod 256 ^ n)"
    using Suc.IH [of "drop_bit 8 v"] by (simp add: unat_ucast unat_drop_bit)
  then show ?case by (simp add: mod_mult2_eq)
qed

lemma length_le_bytes [simp]: "length (le_bytes n v) = n"
  by (simp add: le_bytes_def)

section \<open>The codec interface\<close>

text \<open>
  What the parser and the fixture builder rely on: a fixed-width reader and writer on one
  buffer, the reader total on every offset.
\<close>

locale le_codec =
  fixes width :: nat
    and rd :: "bytes \<Rightarrow> nat \<Rightarrow> 'v option access"
    and wr :: "bytes \<Rightarrow> nat \<Rightarrow> 'v \<Rightarrow> bytes option"
  assumes rd_inside: "off + width \<le> length bs \<Longrightarrow> \<exists>v. rd bs off = Got (Some v)"
    and rd_outside: "\<not> off + width \<le> length bs \<Longrightarrow> rd bs off = Got None"
    and rd_local: "off + width \<le> length bs \<Longrightarrow> off + width \<le> length cs \<Longrightarrow>
          sub_bytes bs off width = sub_bytes cs off width \<Longrightarrow> rd bs off = rd cs off"
    and wr_inside: "off + width \<le> length bs \<Longrightarrow> \<exists>cs. wr bs off v = Some cs"
    and wr_length: "wr bs off v = Some cs \<Longrightarrow> length cs = length bs"
    and wr_frame: "wr bs off v = Some cs \<Longrightarrow> i < off \<or> off + width \<le> i \<Longrightarrow> i < length bs
          \<Longrightarrow> cs ! i = bs ! i"
    and rd_wr: "wr bs off v = Some cs \<Longrightarrow> rd cs off = Got (Some v)"
begin

lemma rd_safe: "rd bs off \<noteq> OutOfBounds"
  using rd_inside [of off bs] rd_outside [of off bs] by fastforce

lemma rd_Some_iff: "(\<exists>v. rd bs off = Got (Some v)) \<longleftrightarrow> off + width \<le> length bs"
  using rd_inside [of off bs] rd_outside [of off bs] by fastforce

text \<open>A read that does not overlap a write is not affected by it.\<close>

lemma rd_wr_disjoint:
  assumes w: "wr bs off v = Some cs" and d: "p + width \<le> off \<or> off + width \<le> p"
  shows "rd cs p = rd bs p"
proof (cases "p + width \<le> length bs")
  case True
  have "sub_bytes cs p width = sub_bytes bs p width"
    using True d wr_length [OF w] by (intro nth_equalityI) (auto intro!: wr_frame [OF w])
  with True show ?thesis using wr_length [OF w] by (intro rd_local) auto
next
  case False
  then show ?thesis using wr_length [OF w] by (simp add: rd_outside)
qed

end

section \<open>The codec laws hold for \<open>read_le\<close> and \<open>put_le\<close>\<close>

lemma put_le_Some:
  "put_le bs off (v :: 'a::len word) = Some cs \<longleftrightarrow>
     off + LENGTH('a) div 8 \<le> length bs
     \<and> cs = take off bs @ le_bytes (LENGTH('a) div 8) v @ drop (off + LENGTH('a) div 8) bs"
  by (auto simp: put_le_def Let_def)

lemma le_word_put:
  assumes "8 dvd LENGTH('a)" "put_le bs off (v :: 'a::len word) = Some cs"
  shows "le_word cs off = v"
proof -
  have cs: "off + LENGTH('a) div 8 \<le> length bs"
      "cs = take off bs @ le_bytes (LENGTH('a) div 8) v @ drop (off + LENGTH('a) div 8) bs"
    using assms(2) by (auto simp: put_le_Some)
  then have "sub_bytes cs off (LENGTH('a) div 8) = le_bytes (LENGTH('a) div 8) v"
    by (simp add: sub_bytes_append_mid)
  moreover have "(256 :: nat) ^ (LENGTH('a) div 8) = 2 ^ LENGTH('a)"
    using assms(1) power_mult [of "2 :: nat" 8 "LENGTH('a) div 8"] by simp
  ultimately have "le_nat (sub_bytes cs off (LENGTH('a) div 8)) = unat v"
    by (simp add: le_nat_le_bytes)
  then show ?thesis by (simp add: le_word_def)
qed

lemma le_codec_word:
  assumes "8 dvd LENGTH('a)" "LENGTH('a) \<le> 64"
  shows "le_codec (LENGTH('a) div 8) read_le (put_le :: bytes \<Rightarrow> nat \<Rightarrow> 'a::len word \<Rightarrow> bytes option)"
proof
  fix bs cs :: bytes and off i :: nat and v :: "'a word"
  let ?w = "LENGTH('a) div 8"
  show "\<exists>v. read_le bs off = Got (Some (v :: 'a word))" if "off + ?w \<le> length bs"
    using that by (simp add: read_le_eq [OF assms])
  show "read_le bs off = Got (None :: 'a word option)" if "\<not> off + ?w \<le> length bs"
    using that by (simp add: read_le_eq [OF assms])
  show "read_le bs off = (read_le cs off :: 'a word option access)"
    if "off + ?w \<le> length bs" "off + ?w \<le> length cs" "sub_bytes bs off ?w = sub_bytes cs off ?w"
    using that by (simp add: read_le_eq [OF assms] le_word_def)
  show "\<exists>cs. put_le bs off v = Some cs" if "off + ?w \<le> length bs"
    using that by (simp add: put_le_Some)
  show "length cs = length bs" if "put_le bs off v = Some cs"
    using that by (auto simp: put_le_Some)
  show "cs ! i = bs ! i" if "put_le bs off v = Some cs" "i < off \<or> off + ?w \<le> i" "i < length bs"
    using that by (auto simp: put_le_Some nth_append)
  show "read_le cs off = Got (Some v)" if "put_le bs off v = Some cs"
    using that le_word_put [OF assms(1) that] by (auto simp: put_le_Some read_le_eq [OF assms])
qed

interpretation le16: le_codec 2 read_le "put_le :: bytes \<Rightarrow> nat \<Rightarrow> u16 \<Rightarrow> bytes option"
  using le_codec_word [where ?'a = 16] by simp

interpretation le32: le_codec 4 read_le "put_le :: bytes \<Rightarrow> nat \<Rightarrow> u32 \<Rightarrow> bytes option"
  using le_codec_word [where ?'a = 32] by simp

interpretation le64: le_codec 8 read_le "put_le :: bytes \<Rightarrow> nat \<Rightarrow> u64 \<Rightarrow> bytes option"
  using le_codec_word [where ?'a = 64] by simp

end
