(* ===== verification/DataRuns.thy ===== *)
theory DataRuns
  imports LittleEndian "HOL-Library.Signed_Division"
begin

text \<open>
  The data-run decoder of \<open>src/MftRecord.cpp\<close> (\<open>sign_extend\<close>, \<open>checked_add\<close>,
  \<open>parse_data_runs\<close>) and the run encoder of the test fixtures \<open>tests/NtfsFixtures.cpp\<close>
  (\<open>unsigned_width\<close>, \<open>signed_width\<close>, \<open>encode_runs\<close>). The reference splits decoding in
  two passes on unbounded numbers: \<open>decode_runs\<close> reads (count, delta) pairs, \<open>resolve_runs\<close>
  turns the deltas into absolute cluster numbers and refuses those no 63-bit number holds.
\<close>

section \<open>The decoder\<close>

record data_run =
  lcn :: u64
  cluster_count :: u64
  sparse :: bool

definition INT64_MAX :: i64 where
  "INT64_MAX = 0x7FFFFFFFFFFFFFFF"

definition INT64_MIN :: i64 where
  "INT64_MIN = 0x8000000000000000"

definition sign_extend :: "u64 \<Rightarrow> nat \<Rightarrow> i64" where
  "sign_extend v byte_count =
     (if byte_count = 0 \<or> byte_count \<ge> 8 then v
      else
        (let sign_bit = push_bit (byte_count * 8 - 1) 1 in
         if v AND sign_bit = 0 then v
         else v OR NOT (push_bit (byte_count * 8) 1 - 1)))"

definition checked_add :: "i64 \<Rightarrow> i64 \<Rightarrow> i64 option" where
  "checked_add lhs rhs =
     (if (0 <s rhs \<and> INT64_MAX - rhs <s lhs) \<or> (rhs <s 0 \<and> lhs <s INT64_MIN - rhs) then None
      else Some (lhs + rhs))"

function parse_runs_loop ::
  "bytes \<Rightarrow> nat \<Rightarrow> nat \<Rightarrow> i64 \<Rightarrow> data_run list \<Rightarrow> data_run list option access" where
  "parse_runs_loop bs off e current_lcn runs =
     (if off < e then
        acc_bind (byte_at bs off) (\<lambda>header.
          if header = 0 then Got (Some runs)
          else
            let length_size = unat (header AND 0x0F);
                offset_size = unat (drop_bit 4 header AND 0x0F);
                off1 = off + 1
            in if length_size = 0 \<or> length_size > 8 \<or> offset_size > 8
                  \<or> off1 + length_size + offset_size > e then Got None
               else
                 acc_bind (le_loop bs off1 0 length_size 0) (\<lambda>count.
                 acc_bind (le_loop bs (off1 + length_size) 0 offset_size 0) (\<lambda>raw_delta.
                   if offset_size = 0 then
                     parse_runs_loop bs (off1 + length_size + offset_size) e current_lcn
                       (runs @ [\<lparr>lcn = 0, cluster_count = count, sparse = True\<rparr>])
                   else
                     (case checked_add current_lcn (sign_extend raw_delta offset_size) of
                        None \<Rightarrow> Got None
                      | Some next_lcn \<Rightarrow>
                          if next_lcn <s 0 then Got None
                          else parse_runs_loop bs (off1 + length_size + offset_size) e next_lcn
                            (runs @ [\<lparr>lcn = next_lcn, cluster_count = count, sparse = False\<rparr>])))))
      else Got None)"
  by pat_completeness auto
termination
  by (relation "measure (\<lambda>(bs, off, e, cur, runs). e - off)") auto

declare parse_runs_loop.simps [simp del]

definition parse_data_runs :: "bytes \<Rightarrow> nat \<Rightarrow> nat \<Rightarrow> data_run list option access" where
  "parse_data_runs bs off e = parse_runs_loop bs off e 0 []"

section \<open>The fixture's encoder\<close>

record run_spec =
  spec_count :: u64
  spec_delta :: "i64 option"

function unsigned_width_from :: "nat \<Rightarrow> u64 \<Rightarrow> nat" where
  "unsigned_width_from w v =
     (if w < 8 \<and> drop_bit (8 * w) v \<noteq> 0 then unsigned_width_from (w + 1) v else w)"
  by pat_completeness auto
termination
  by (relation "measure (\<lambda>(w, v). 8 - w)") auto

declare unsigned_width_from.simps [simp del]

definition unsigned_width :: "u64 \<Rightarrow> nat" where
  "unsigned_width v = unsigned_width_from 1 v"

function signed_width_from :: "nat \<Rightarrow> i64 \<Rightarrow> nat" where
  "signed_width_from w v =
     (if w < 8 then
        (if - (2 ^ (8 * w - 1)) \<le> sint v \<and> sint v \<le> 2 ^ (8 * w - 1) - 1 then w
         else signed_width_from (w + 1) v)
      else 8)"
  by pat_completeness auto
termination
  by (relation "measure (\<lambda>(w, v). 8 - w)") auto

declare signed_width_from.simps [simp del]

definition signed_width :: "i64 \<Rightarrow> nat" where
  "signed_width v = signed_width_from 1 v"

definition encode_run :: "run_spec \<Rightarrow> bytes" where
  "encode_run r =
     (let length_width = unsigned_width (spec_count r);
          offset_width = (case spec_delta r of None \<Rightarrow> 0 | Some d \<Rightarrow> signed_width d)
      in of_nat (push_bit 4 offset_width OR length_width)
         # le_bytes length_width (spec_count r)
         @ (case spec_delta r of None \<Rightarrow> [] | Some d \<Rightarrow> le_bytes offset_width d))"

definition encode_runs :: "run_spec list \<Rightarrow> bytes" where
  "encode_runs runs = concat (map encode_run runs) @ [0]"

section \<open>Signed arithmetic\<close>

lemma signed_take_bit_small:
  fixes x :: int
  assumes "0 \<le> x" "x < 2 ^ Suc k"
  shows "signed_take_bit k x = (if x < 2 ^ k then x else x - 2 ^ Suc k)"
proof -
  have "x div 2 ^ k = (if x < 2 ^ k then 0 else 1)"
    using assms by (auto intro: int_div_pos_eq [where r = "x - 2 ^ k"])
  then have "bit x k \<longleftrightarrow> \<not> x < 2 ^ k" by (simp add: bit_iff_odd)
  moreover have "take_bit (Suc k) x = x" using assms by (simp add: take_bit_int_eq_self)
  ultimately show ?thesis by (simp add: signed_take_bit_eq_take_bit_minus)
qed

lemma uint_range64: "0 \<le> uint (w :: 64 word) \<and> uint w < 2 ^ 64"
  using unsigned_less [of w, where ?'a = int] unsigned_greater_eq [of w, where ?'a = int] by simp

lemma sint64: "sint (w :: 64 word) = (if uint w < 2 ^ 63 then uint w else uint w - 2 ^ 64)"
  using signed_take_bit_small [of "uint w" 63] uint_range64 [of w] by (simp add: sint_uint)

lemma sint64_range: "- (2 ^ 63) \<le> sint (w :: 64 word) \<and> sint w < 2 ^ 63"
  using sint_ge [of w] sint_lt [of w] by simp

text \<open>The two's complement value of an \<open>n\<close>-byte field read as \<open>x\<close>.\<close>

definition signed_value :: "nat \<Rightarrow> nat \<Rightarrow> int" where
  "signed_value n x = (if x < 2 ^ (8 * n - 1) then int x else int x - 2 ^ (8 * n))"

lemma sint_less64: "sint w = x \<Longrightarrow> w <s 0 \<longleftrightarrow> x < 0" for w :: i64
  by (simp add: word_sless_alt)

lemma sint_sub64:
  assumes "- (2 ^ 63) \<le> sint a - sint b" "sint a - sint b < 2 ^ 63"
  shows "sint (a - b :: 64 word) = sint a - sint b"
  using signed_take_bit_int_eq_self [OF assms] by (simp add: sint_word_ariths)

lemma sint_add64:
  assumes "- (2 ^ 63) \<le> sint a + sint b" "sint a + sint b < 2 ^ 63"
  shows "sint (a + b :: 64 word) = sint a + sint b"
  using signed_take_bit_int_eq_self [OF assms] by (simp add: sint_word_ariths)

lemma sint_limits: "sint INT64_MAX = 2 ^ 63 - 1" "sint INT64_MIN = - (2 ^ 63)"
  by (simp_all add: INT64_MAX_def INT64_MIN_def sint64)

lemma checked_add_exact:
  "checked_add a b =
     (if - (2 ^ 63) \<le> sint a + sint b \<and> sint a + sint b < 2 ^ 63 then Some (a + b) else None)"
proof -
  note r = sint64_range [of a] sint64_range [of b]
  have hi: "0 < sint b \<Longrightarrow> sint (INT64_MAX - b) = 2 ^ 63 - 1 - sint b"
    using r sint_sub64 [of INT64_MAX b] by (simp add: sint_limits)
  have lo: "sint b < 0 \<Longrightarrow> sint (INT64_MIN - b) = - (2 ^ 63) - sint b"
    using r sint_sub64 [of INT64_MIN b] by (simp add: sint_limits)
  consider "0 < sint b" | "sint b = 0" | "sint b < 0" by linarith
  then show ?thesis
  proof cases
    case 1
    with hi r show ?thesis by (auto simp: checked_add_def word_sless_alt)
  next
    case 2
    with r show ?thesis by (auto simp: checked_add_def word_sless_alt)
  next
    case 3
    with lo r show ?thesis by (auto simp: checked_add_def word_sless_alt)
  qed
qed


lemma sign_extend_bits:
  assumes "0 < n" "n < 8" "unat v < 2 ^ (8 * n)"
  shows "sign_extend v n = signed_take_bit (8 * n - 1) v"
proof -
  define k where "k = 8 * n - 1"
  have k: "8 * n = Suc k" "n * 8 - Suc 0 = k" "n * 8 = Suc k" "k < 63" using assms by (auto simp: k_def)
  have top: "v AND push_bit k 1 = 0 \<longleftrightarrow> \<not> bit v k"
    by (simp add: bit_iff_and_push_bit_not_eq_0)
  have hi: "k < m \<Longrightarrow> \<not> bit v m" for m
    using bit_less_exp [of v "Suc k" m] assms(3) k by auto
  have m: "NOT (push_bit (Suc k) 1 - 1) = (NOT (mask (Suc k)) :: u64)"
    by (simp add: mask_eq_exp_minus_1 push_bit_eq_mult)
  show ?thesis
  proof (cases "bit v k")
    case True
    then have "sign_extend v n = v OR NOT (mask (Suc k))"
      using assms top m k by (simp add: sign_extend_def)
    also have "\<dots> = signed_take_bit k v"
      by (rule bit_word_eqI) (use hi True in \<open>auto simp: bit_simps min_def not_less_eq le_less not_le\<close>)
    finally show ?thesis unfolding k_def .
  next
    case False
    then have "sign_extend v n = v"
      using assms top k by (simp add: sign_extend_def)
    also have "v = signed_take_bit k v"
      by (rule bit_word_eqI) (use hi False in \<open>auto simp: bit_simps min_def le_less not_le\<close>)
    finally show ?thesis unfolding k_def .
  qed
qed


lemma sint_signed_take_bit64:
  fixes v :: u64
  assumes "k < 64"
  shows "sint (signed_take_bit k v) = signed_take_bit k (uint v)"
  by (rule bit_eqI) (use assms in \<open>auto simp: bit_simps min_def\<close>)

lemma uint_less_exp: "uint v < 2 ^ k \<longleftrightarrow> unat v < 2 ^ k"
proof -
  have "int (unat v) < int (2 ^ k) \<longleftrightarrow> unat v < 2 ^ k" by (rule of_nat_less_iff)
  then show ?thesis by simp
qed

lemma sign_extend_value:
  assumes "0 < n" "n \<le> 8" "unat v < 256 ^ n"
  shows "sint (sign_extend v n) = signed_value n (unat v)"
proof (cases "n = 8")
  case True
  then show ?thesis using uint_less_exp [of v 63]
    by (simp add: sign_extend_def signed_value_def sint64)
next
  case False
  then have n: "n < 8" "Suc (8 * n - 1) = 8 * n" "8 * n - 1 < 64" using assms by auto
  have p: "(256::nat) ^ n = 2 ^ (8 * n)" by (simp add: power_mult)
  have "signed_take_bit (8 * n - 1) (uint v) = signed_value n (unat v)"
    using signed_take_bit_small [of "uint v" "8 * n - 1"] uint_range64 [of v] n assms(3)
    by (simp add: signed_value_def p uint_less_exp)
  then show ?thesis
    using sign_extend_bits [of n v] assms n p sint_signed_take_bit64 [of "8 * n - 1" v] by simp
qed

section \<open>Reference: decoding in two passes\<close>

fun decode_runs :: "bytes \<Rightarrow> (nat \<times> int option) list option" where
  "decode_runs [] = None"
| "decode_runs (h # bs) =
     (if h = 0 then Some []
      else
        let ls = unat h mod 16; os = unat h div 16 in
        if ls = 0 \<or> ls > 8 \<or> os > 8 \<or> ls + os > length bs then None
        else map_option
          ((#) (le_nat (take ls bs),
                if os = 0 then None else Some (signed_value os (le_nat (take os (drop ls bs))))))
          (decode_runs (drop (ls + os) bs)))"

declare decode_runs.simps(2) [simp del]

fun resolve_runs :: "int \<Rightarrow> (nat \<times> int option) list \<Rightarrow> data_run list option" where
  "resolve_runs cur [] = Some []"
| "resolve_runs cur ((count, None) # rs) =
     map_option ((#) \<lparr>lcn = 0, cluster_count = of_nat count, sparse = True\<rparr>) (resolve_runs cur rs)"
| "resolve_runs cur ((count, Some delta) # rs) =
     (let next = cur + delta in
      if 0 \<le> next \<and> next < 2 ^ 63 then
        map_option ((#) \<lparr>lcn = of_int next, cluster_count = of_nat count, sparse = False\<rparr>)
          (resolve_runs next rs)
      else None)"

section \<open>The loop against the reference\<close>

lemma unat_nibbles: "unat ((h :: byte) AND 0x0F) = unat h mod 16"
  "unat (drop_bit 4 (h :: byte) AND 0x0F) = unat h div 16"
proof -
  have "unat h div 16 < 16" using unat_byte_lt [of h] by (simp add: less_mult_imp_div_less)
  then show "unat (drop_bit 4 h AND 0x0F) = unat h div 16"
    using unat_and_mask [of "drop_bit 4 h" 4] by (simp add: mask_eq_exp_minus_1 unat_drop_bit)
  show "unat (h AND 0x0F) = unat h mod 16"
    using unat_and_mask [of h 4] by (simp add: mask_eq_exp_minus_1)
qed

lemma unat_field:
  assumes "length xs \<le> 8"
  shows "unat (of_nat (le_nat xs) :: u64) = le_nat xs"
proof -
  have "le_nat xs < 256 ^ length xs" by (rule le_nat_less)
  also have "\<dots> \<le> 256 ^ 8" using assms by (intro power_increasing) simp_all
  finally show ?thesis by (simp add: unat_of_nat)
qed

lemma le_loop_field:
  assumes "off + n \<le> length bs" "n \<le> 8"
  shows "le_loop bs off 0 n 0 = Got (of_nat (le_nat (sub_bytes bs off n)))"
proof -
  obtain w where "le_loop bs off 0 n 0 = Got w" "unat w = le_nat (sub_bytes bs off n)"
    using le_loop_Got [of off 0 n bs 0] assms by auto
  then have "w = of_nat (le_nat (sub_bytes bs off n))"
    using assms by (simp add: word_unat_eq_iff unat_field)
  with \<open>le_loop bs off 0 n 0 = Got w\<close> show ?thesis by simp
qed

lemma sub_bytes_Cons:
  "off < e \<Longrightarrow> e \<le> length bs \<Longrightarrow> sub_bytes bs off (e - off) = bs ! off # sub_bytes bs (off + 1) (e - (off + 1))"
  by (rule nth_equalityI) (auto simp: nth_Cons split: nat.splits)

lemma take_sub_bytes: "n \<le> m \<Longrightarrow> take n (sub_bytes bs off m) = sub_bytes bs off n"
  by (simp add: sub_bytes_def min_absorb1)

lemma drop_sub_bytes: "drop n (sub_bytes bs off m) = sub_bytes bs (off + n) (m - n)"
  by (simp add: sub_bytes_def drop_take add.commute)


lemma sint_of_int64:
  assumes "0 \<le> sint cur + x" "sint cur + x < 2 ^ 63"
  shows "sint (cur + of_int x :: i64) = sint cur + x"
proof -
  have "cur + of_int x = of_int (sint cur + x)" by simp
  then have "sint (cur + of_int x) = signed_take_bit 63 (sint cur + x)"
    using sint_sbintrunc' [of "sint cur + x", where ?'a = 64] by simp
  also have "\<dots> = sint cur + x" by (rule signed_take_bit_int_eq_self) (use assms in auto)
  finally show ?thesis .
qed

text \<open>One round of the loop, with its reads and its checked addition evaluated.\<close>

lemma parse_runs_step:
  fixes bs :: bytes and off e :: nat and cur :: i64 and runs :: "data_run list"
  defines "h \<equiv> bs ! off"
  defines "ls \<equiv> unat h mod 16" and "os \<equiv> unat h div 16"
  defines "count \<equiv> le_nat (sub_bytes bs (off + 1) ls)"
    and "raw \<equiv> le_nat (sub_bytes bs (off + 1 + ls) os)"
  defines "nxt \<equiv> off + 1 + ls + os"
  assumes "off < e" "e \<le> length bs" "0 \<le> sint cur"
  shows "parse_runs_loop bs off e cur runs =
    (if h = 0 then Got (Some runs)
     else if ls = 0 \<or> ls > 8 \<or> os > 8 \<or> nxt > e then Got None
     else if os = 0 then
       parse_runs_loop bs nxt e cur (runs @ [\<lparr>lcn = 0, cluster_count = of_nat count, sparse = True\<rparr>])
     else if 0 \<le> sint cur + signed_value os raw \<and> sint cur + signed_value os raw < 2 ^ 63 then
       parse_runs_loop bs nxt e (cur + of_int (signed_value os raw))
         (runs @ [\<lparr>lcn = cur + of_int (signed_value os raw), cluster_count = of_nat count, sparse = False\<rparr>])
     else Got None)"
proof (cases "h = 0 \<or> ls = 0 \<or> ls > 8 \<or> os > 8 \<or> nxt > e")
  case True
  then show ?thesis using assms(7-8)
    unfolding parse_runs_loop.simps [of bs off] Let_def unat_nibbles(2)
    unfolding unat_nibbles(1)
    by (auto simp: byte_at_def h_def [symmetric] ls_def [symmetric] os_def [symmetric]
        nxt_def [symmetric] simp del: One_nat_def add_Suc_right)
next
  case False
  then have ok: "h \<noteq> 0" "ls \<noteq> 0" "\<not> ls > 8" "\<not> os > 8" "\<not> nxt > e" "ls \<le> 8" "os \<le> 8" "nxt \<le> e" by auto
  have f1: "le_loop bs (off + 1) 0 ls 0 = Got (of_nat count)"
    using le_loop_field [of "off + 1" ls bs] ok assms(8) by (simp add: count_def nxt_def)
  have f2: "le_loop bs (off + 1 + ls) 0 os 0 = Got (of_nat raw)"
    using le_loop_field [of "off + 1 + ls" os bs] ok assms(8) by (simp add: raw_def nxt_def)
  have at: "byte_at bs off = Got h" using assms(7,8) by (simp add: byte_at_def h_def)
  have red: "parse_runs_loop bs off e cur runs =
    (if os = 0 then
       parse_runs_loop bs nxt e cur (runs @ [\<lparr>lcn = 0, cluster_count = of_nat count, sparse = True\<rparr>])
     else (case checked_add cur (sign_extend (of_nat raw) os) of None \<Rightarrow> Got None
            | Some nx \<Rightarrow> if nx <s 0 then Got None
               else parse_runs_loop bs nxt e nx
                 (runs @ [\<lparr>lcn = nx, cluster_count = of_nat count, sparse = False\<rparr>])))"
    unfolding parse_runs_loop.simps [of bs off] Let_def unat_nibbles(2) at acc_bind.simps
    unfolding unat_nibbles(1)
    using assms(7) by (simp only: ls_def [symmetric] os_def [symmetric] ok f1 f2 acc_bind.simps
        nxt_def [symmetric] if_True if_False simp_thms)
  show ?thesis
  proof (cases "os = 0")
    case True
    then show ?thesis using ok red by simp
  next
    case False
    have rb: "raw < 256 ^ os"
    proof -
      have "length (sub_bytes bs (off + 1 + ls) os) = os" using ok assms(8) by (simp add: nxt_def)
      then show ?thesis unfolding raw_def by (metis le_nat_less)
    qed
    have "unat (of_nat raw :: u64) = raw" unfolding raw_def by (rule unat_field) (use ok in simp)
    then have d: "sint (sign_extend (of_nat raw) os) = signed_value os raw"
      using sign_extend_value [of os "of_nat raw"] False ok rb by simp
    then have w: "sign_extend (of_nat raw) os = of_int (signed_value os raw)"
      by (metis of_int_sint scast_id)
    have lo: "- (2 ^ 63) \<le> sint cur + signed_value os raw"
      using assms(9) sint64_range [of "sign_extend (of_nat raw) os"] unfolding d by linarith
    show ?thesis
    proof (cases "sint cur + signed_value os raw < 2 ^ 63")
      case True
      with lo d have "sint (cur + sign_extend (of_nat raw) os) = sint cur + signed_value os raw"
        using sint_add64 [of cur "sign_extend (of_nat raw) os"] by simp
      then show ?thesis using True False ok red lo d w by (simp add: checked_add_exact word_sless_alt)
    next
      case f: False
      then show ?thesis using False ok red d by (simp add: checked_add_exact)
    qed
  qed
qed

lemma append_snoc_fun: "(@) (xs @ [x]) = (\<lambda>ys. xs @ x # ys)"
  by (rule ext) simp

lemma parse_runs_loop_eq:
  assumes "e \<le> length bs" "off \<le> e" "0 \<le> sint cur"
  shows "parse_runs_loop bs off e cur runs =
    Got (map_option ((@) runs)
      (Option.bind (decode_runs (sub_bytes bs off (e - off))) (resolve_runs (sint cur))))"
  using assms(2,3)
proof (induction "e - off" arbitrary: off cur runs rule: less_induct)
  case less
  show ?case
  proof (cases "off < e")
    case False
    then show ?thesis by (simp add: parse_runs_loop.simps sub_bytes_def)
  next
    case lt: True
    define h where "h = bs ! off"
    define ls where "ls = unat h mod 16"
    define os where "os = unat h div 16"
    define count where "count = le_nat (sub_bytes bs (off + 1) ls)"
    define raw where "raw = le_nat (sub_bytes bs (off + 1 + ls) os)"
    define nxt where "nxt = off + 1 + ls + os"
    note step = parse_runs_step [OF lt assms(1) less.prems(2), of runs, folded h_def, folded ls_def os_def,
        folded count_def raw_def nxt_def]
    let ?rest = "sub_bytes bs (off + 1) (e - (off + 1))"
    have sub: "sub_bytes bs off (e - off) = h # ?rest"
      using sub_bytes_Cons lt assms(1) by (simp add: h_def)
    show ?thesis
    proof (cases "h = 0 \<or> ls = 0 \<or> ls > 8 \<or> os > 8 \<or> nxt > e")
      case True
      then show ?thesis using assms(1) lt
        by (auto simp: step sub decode_runs.simps(2) Let_def ls_def [symmetric] os_def [symmetric] nxt_def)
    next
      case False
      then have ok: "h \<noteq> 0" "ls \<noteq> 0" "\<not> ls > 8" "\<not> os > 8" "nxt \<le> e" by auto
      let ?tl = "decode_runs (sub_bytes bs nxt (e - nxt))"
      have len: "\<not> ls + os > length ?rest" using ok assms(1) by (simp add: nxt_def)
      have dec: "decode_runs (h # ?rest) =
          map_option ((#) (count, if os = 0 then None else Some (signed_value os raw))) ?tl"
      proof -
        have t: "take ls ?rest = sub_bytes bs (off + 1) ls"
            "take os (drop ls ?rest) = sub_bytes bs (off + 1 + ls) os"
            "drop (ls + os) ?rest = sub_bytes bs nxt (e - nxt)"
          using ok by (auto simp: nxt_def take_sub_bytes drop_sub_bytes add.assoc)
        show ?thesis using ok len unfolding decode_runs.simps(2) Let_def ls_def [symmetric]
            os_def [symmetric] t count_def raw_def by simp
      qed
      have IH: "parse_runs_loop bs nxt e c rs =
          Got (map_option ((@) rs) (Option.bind ?tl (resolve_runs (sint c))))"
        if "0 \<le> sint c" for c rs
        using less.hyps [of nxt c rs] that ok lt by (simp add: nxt_def)
      have nx: "sint (cur + of_int (signed_value os raw)) = sint cur + signed_value os raw"
        if "0 \<le> sint cur + signed_value os raw" "sint cur + signed_value os raw < 2 ^ 63"
        using that by (intro sint_of_int64) auto
      show ?thesis
        unfolding step sub dec using ok IH nx less.prems(2)
        by (cases ?tl) (auto simp: option.map_comp comp_def Let_def append_snoc_fun)
    qed
  qed
qed
section \<open>The encoder against the reference\<close>

definition spec_pair :: "run_spec \<Rightarrow> nat \<times> int option" where
  "spec_pair r = (unat (spec_count r), map_option sint (spec_delta r))"

lemma unsigned_width_from_fits:
  assumes "1 \<le> w" "w \<le> 8"
  shows "1 \<le> unsigned_width_from w v \<and> unsigned_width_from w v \<le> 8
    \<and> unat v < 256 ^ unsigned_width_from w v"
  using assms
proof (induction w v rule: unsigned_width_from.induct)
  case (1 w v)
  show ?case
  proof (cases "w < 8 \<and> drop_bit (8 * w) v \<noteq> 0")
    case True
    then show ?thesis using 1 by (simp add: unsigned_width_from.simps [of w v])
  next
    case False
    have "unat v < 256 ^ w"
    proof (cases "w = 8")
      case True
      then show ?thesis using unsigned_less [of v, where ?'a = nat] by simp
    next
      case f: False
      then have "unat v div 2 ^ (8 * w) = 0"
        using False 1(3) unat_drop_bit [of "8 * w" v] by simp
      then show ?thesis by (simp add: div_eq_0_iff power_mult)
    qed
    then show ?thesis using False 1 unfolding unsigned_width_from.simps [of w v] by auto
  qed
qed

lemma signed_width_from_fits:
  assumes "1 \<le> w" "w \<le> 8"
  shows "1 \<le> signed_width_from w v \<and> signed_width_from w v \<le> 8
    \<and> - (2 ^ (8 * signed_width_from w v - 1)) \<le> sint v \<and> sint v < 2 ^ (8 * signed_width_from w v - 1)"
  using assms
proof (induction w v rule: signed_width_from.induct)
  case (1 w v)
  show ?case
  proof (cases "w < 8")
    case False
    then have "signed_width_from w v = 8" by (simp add: signed_width_from.simps [of w v])
    then show ?thesis using sint64_range [of v] by simp
  next
    case True
    then show ?thesis using 1 unfolding signed_width_from.simps [of w v] by auto
  qed
qed

lemma signed_value_le_bytes:
  fixes d :: i64
  assumes "1 \<le> w" "w \<le> 8" "- (2 ^ (8 * w - 1)) \<le> sint d" "sint d < 2 ^ (8 * w - 1)"
  shows "signed_value w (le_nat (le_bytes w d)) = sint d"
proof -
  have e: "8 * w = Suc (8 * w - 1)" using assms by simp
  have p: "(256::nat) ^ w = 2 ^ (8 * w)" by (simp add: power_mult)
  have "int (le_nat (le_bytes w d)) = uint d mod 2 ^ (8 * w)"
    by (simp add: le_nat_le_bytes p of_nat_mod)
  also have "\<dots> = take_bit (8 * w) (sint d)"
    using assms(2) by (simp add: take_bit_eq_mod [symmetric] sint_uint take_bit_signed_take_bit)
  finally have i: "int (le_nat (le_bytes w d)) = take_bit (8 * w) (sint d)" .
  have "signed_take_bit (8 * w - 1) (take_bit (8 * w) (sint d)) = signed_value w (le_nat (le_bytes w d))"
    using signed_take_bit_small [of "int (le_nat (le_bytes w d))" "8 * w - 1"] e
      take_bit_int_less_exp [of "8 * w" "sint d"]
    unfolding signed_value_def i [symmetric] by (simp del: take_bit_int_less_exp)
  then have "signed_value w (le_nat (le_bytes w d)) = signed_take_bit (8 * w - 1) (sint d)"
  proof -
    have "\<not> 8 * w \<le> 8 * w - 1" using assms(1) by linarith
    then show ?thesis
      using \<open>signed_take_bit (8 * w - 1) (take_bit (8 * w) (sint d)) = _\<close>
      by (simp only: signed_take_bit_take_bit if_False)
  qed
  also have "\<dots> = sint d" by (rule signed_take_bit_int_eq_self) (use assms in auto)
  finally show ?thesis .
qed

lemma header_byte:
  assumes "lw < 16" "ow < 16"
  shows "unat (of_nat (push_bit 4 ow OR lw) :: byte) = ow * 16 + lw"
proof -
  have hi: "4 \<le> n \<Longrightarrow> \<not> bit lw n" for n
    using take_bit_nat_eq_self [of lw 4, simplified, OF assms(1)] by (metis bit_take_bit_iff leD)
  have "push_bit 4 ow AND lw = 0" by (auto intro!: bit_eqI simp: bit_simps hi)
  then have "push_bit 4 ow OR lw = push_bit 4 ow + lw" by (metis disjunctive_add_eq_or)
  then have "push_bit 4 ow OR lw = ow * 16 + lw" by (simp add: push_bit_eq_mult)
  then show ?thesis using assms by (simp add: unat_of_nat del: of_nat_add of_nat_mult)
qed

lemma decode_encode_run:
  "decode_runs (encode_run r @ rest) = map_option ((#) (spec_pair r)) (decode_runs rest)"
proof -
  define lw where "lw = unsigned_width (spec_count r)"
  define ow where "ow = (case spec_delta r of None \<Rightarrow> 0 | Some d \<Rightarrow> signed_width d)"
  define dbs where "dbs = (case spec_delta r of None \<Rightarrow> [] | Some d \<Rightarrow> le_bytes ow d)"
  define h where "h = (of_nat (push_bit 4 ow OR lw) :: byte)"
  have lw: "1 \<le> lw" "lw \<le> 8" "unat (spec_count r) < 256 ^ lw"
    using unsigned_width_from_fits [of 1 "spec_count r"] by (simp_all add: lw_def unsigned_width_def)
  have ow: "ow \<le> 8" "ow = 0 \<longleftrightarrow> spec_delta r = None"
    "\<And>d. spec_delta r = Some d \<Longrightarrow> signed_value ow (le_nat (le_bytes ow d)) = sint d"
    using signed_width_from_fits [of 1] signed_value_le_bytes
    by (auto simp: ow_def signed_width_def split: option.splits) (metis Suc_le_eq not_less0)
  have h: "unat h mod 16 = lw" "unat h div 16 = ow" "h \<noteq> 0"
  proof -
    have u: "unat h = ow * 16 + lw" unfolding h_def by (rule header_byte) (use lw ow in auto)
    show "unat h mod 16 = lw" "unat h div 16 = ow" using u lw by auto
    show "h \<noteq> 0" using u lw by auto
  qed
  have enc: "encode_run r @ rest = h # (le_bytes lw (spec_count r) @ dbs @ rest)"
    by (simp add: encode_run_def Let_def h_def lw_def ow_def dbs_def split: option.splits)
  have ld: "length dbs = ow" by (simp add: dbs_def ow(2) split: option.splits)
  have pair: "(le_nat (le_bytes lw (spec_count r)),
      if ow = 0 then None else Some (signed_value ow (le_nat dbs))) = spec_pair r"
    using ow lw by (auto simp: dbs_def spec_pair_def le_nat_le_bytes split: option.splits)
  have ok: "\<not> (lw = 0 \<or> 8 < lw \<or> 8 < ow \<or> lw + ow > length (le_bytes lw (spec_count r) @ dbs @ rest))"
    using lw ow(1) ld by simp
  have t: "take lw (le_bytes lw (spec_count r) @ dbs @ rest) = le_bytes lw (spec_count r)"
    "take ow (drop lw (le_bytes lw (spec_count r) @ dbs @ rest)) = dbs"
    "drop (lw + ow) (le_bytes lw (spec_count r) @ dbs @ rest) = rest"
    using ld by simp_all
  show ?thesis
    unfolding enc decode_runs.simps(2) Let_def h(1,2) t pair using h(3) ok by (simp only: if_False)
qed

lemma decode_encode_runs: "decode_runs (encode_runs rs @ rest) = Some (map spec_pair rs)"
  by (induction rs) (simp_all add: encode_runs_def decode_runs.simps(2) decode_encode_run)

lemma uint_of_int63: "0 \<le> x \<Longrightarrow> x < 2 ^ 63 \<Longrightarrow> uint (of_int x :: u64) = x"
  by (simp add: uint_word_of_int)

lemma resolve_runs_bounds:
  "resolve_runs cur ps = Some runs \<Longrightarrow> r \<in> set runs \<Longrightarrow> uint (lcn r) < 2 ^ 63 \<and> (sparse r \<longrightarrow> lcn r = 0)"
proof (induction cur ps arbitrary: runs rule: resolve_runs.induct)
  case (3 cur c d rs)
  then show ?case using uint_of_int63 [of "cur + d"]
    by (auto simp: Let_def simp del: of_int_add split: if_splits)
qed auto


section \<open>Properties\<close>

lemma map_option_append_Nil [simp]: "map_option ((@) []) x = x"
  by (cases x) auto

lemma parse_data_runs_eq:
  assumes "e \<le> length bs"
  shows "parse_data_runs bs off e =
           Got (Option.bind (decode_runs (sub_bytes bs off (e - off))) (resolve_runs 0))"
proof (cases "off \<le> e")
  case True
  with assms show ?thesis
    using parse_runs_loop_eq [of e bs off 0 "[]"] by (simp add: parse_data_runs_def)
next
  case False
  then show ?thesis by (simp add: parse_data_runs_def parse_runs_loop.simps sub_bytes_def)
qed

lemma parse_data_runs_safe: "e \<le> length bs \<Longrightarrow> parse_data_runs bs off e \<noteq> OutOfBounds"
  by (simp add: parse_data_runs_eq)

text \<open>
  C36: decoding a run list of a buffer never reads outside it, and its result is that of the
  two-pass reference on the bytes between \<open>off\<close> and the end of the attribute: all the runs up
  to the zero header byte with their absolute cluster numbers, or nothing at all when a header
  is malformed, the list is not terminated, or a cluster number leaves \<open>[0, 2^63)\<close>.
\<close>
theorem parse_data_runs_reference:
  assumes "e \<le> length bs"
  shows "parse_data_runs bs off e =
           Got (Option.bind (decode_runs (sub_bytes bs off (e - off))) (resolve_runs 0))"
  using assms by (rule parse_data_runs_eq)

theorem parse_data_runs_reference_witness:
  "parse_data_runs [0x11, 3, 10, 0x11, 4, 0xFD, 0x01, 6, 0] 0 9 =
     Got (Some [\<lparr>lcn = 10, cluster_count = 3, sparse = False\<rparr>,
                \<lparr>lcn = 7, cluster_count = 4, sparse = False\<rparr>,
                \<lparr>lcn = 0, cluster_count = 6, sparse = True\<rparr>])"
  using parse_data_runs_reference [of 9 "[0x11, 3, 10, 0x11, 4, 0xFD, 0x01, 6, 0]" 0]
  by (simp add: sub_bytes_def decode_runs.simps(2) signed_value_def Let_def)

text \<open>
  C37: round trip with the fixtures' encoder: an encoded run list placed anywhere in a buffer is
  decoded to exactly the runs it was made from, their signed deltas summed up, for every cluster
  count and every 64-bit delta; trailing bytes of the attribute are ignored.
\<close>
theorem data_runs_roundtrip:
  assumes "length before + length (encode_runs rs) \<le> e"
    and "e \<le> length (before @ encode_runs rs @ after)"
  shows "parse_data_runs (before @ encode_runs rs @ after) (length before) e
           = Got (resolve_runs 0 (map spec_pair rs))"
proof -
  let ?k = "e - (length before + length (encode_runs rs))"
  have "sub_bytes (before @ encode_runs rs @ after) (length before) (e - length before)
          = encode_runs rs @ take ?k after"
    using assms(1) by (simp add: sub_bytes_def take_append)
  then show ?thesis
    using parse_runs_loop_eq [OF assms(2), of "length before" 0 "[]"] assms(1)
    by (simp add: parse_data_runs_def decode_encode_runs)
qed

theorem data_runs_roundtrip_witness:
  "parse_data_runs ([1, 2] @ encode_runs [\<lparr>spec_count = 3, spec_delta = Some 10\<rparr>,
       \<lparr>spec_count = 4, spec_delta = Some (-3)\<rparr>] @ [9]) (length [1, 2 :: byte])
     (length [1, 2 :: byte] + length (encode_runs [\<lparr>spec_count = 3, spec_delta = Some 10\<rparr>,
       \<lparr>spec_count = 4, spec_delta = Some (-3)\<rparr>]))
   = Got (Some [\<lparr>lcn = 10, cluster_count = 3, sparse = False\<rparr>,
                \<lparr>lcn = 7, cluster_count = 4, sparse = False\<rparr>])"
  using data_runs_roundtrip [of "[1, 2]" "[\<lparr>spec_count = 3, spec_delta = Some 10\<rparr>,
       \<lparr>spec_count = 4, spec_delta = Some (-3)\<rparr>]" _ "[9]", OF order_refl]
  by (simp add: spec_pair_def)

text \<open>
  The checked addition is exact: it yields the sum precisely when the sum is a 64-bit signed
  integer, and refuses otherwise; none of its own comparisons overflows.
\<close>
theorem checked_add_is_exact:
  "(case checked_add a b of
      None \<Rightarrow> sint a + sint b < - (2 ^ 63) \<or> 2 ^ 63 \<le> sint a + sint b
    | Some c \<Rightarrow> sint c = sint a + sint b)"
  using sint_add64 [of a b] by (auto simp: checked_add_exact)

text \<open>
  Sign extension of a field of \<open>n\<close> bytes gives its two's complement value, for every width
  from one to eight bytes.
\<close>
theorem sign_extend_twos_complement:
  assumes "0 < n" "n \<le> 8" "unat v < 256 ^ n"
  shows "sint (sign_extend v n) =
    (if unat v < 2 ^ (8 * n - 1) then int (unat v) else int (unat v) - 2 ^ (8 * n))"
  using sign_extend_value [OF assms] by (simp add: signed_value_def)

theorem sign_extend_twos_complement_witness: "sint (sign_extend 0xFFFD 2) = -3"
  using sign_extend_twos_complement [of 2 "0xFFFD"] by simp

end
