(* ===== verification/MftRecord.thy ===== *)
theory MftRecord
  imports Utf DataRuns
begin

text \<open>
  Model of \<open>src/MftRecord.cpp\<close>: the update sequence array (\<open>restore_usa\<close>), the file-name
  pass (\<open>parse\<close>), the record number and the data pass (\<open>data_attributes\<close>) of
  \<open>MftRecordParser\<close>. \<open>std::optional\<close> is \<open>option\<close>; every routine that touches the
  record's bytes returns an \<open>access\<close>. Sizes and offsets (\<open>size_t\<close>, 64 bit) are \<open>nat\<close>:
  each is below \<open>2^17 + 2^32\<close>, as a record has 1024 bytes and the fields added are 16 and 32 bits
  wide, so no sum of the code wraps.
\<close>

section \<open>Data\<close>

record mft_file_name =
  fn_parent_ref :: u64
  fn_name :: bytes
  fn_namespace :: u8
  fn_flags :: u32
  fn_allocated_size :: u64
  fn_real_size :: u64
  fn_is_directory :: bool

record mft_record =
  mr_record_id_guess :: u64
  mr_offset :: u64
  mr_names :: "mft_file_name list"

record data_attribute =
  da_resident :: bool
  da_resident_data :: bytes
  da_runs :: "data_run list"
  da_real_size :: u64

definition AttributeFileName :: u32 where "AttributeFileName = 0x30"
definition AttributeData :: u32 where "AttributeData = 0x80"
definition AttributeEnd :: u32 where "AttributeEnd = 0xFFFFFFFF"
definition DirectoryFlag :: u16 where "DirectoryFlag = 0x0002"
definition RecordSize :: nat where "RecordSize = 1024"

definition FILE_magic :: bytes where
  "FILE_magic = [0x46, 0x49, 0x4C, 0x45]"

definition base_file_ref :: "u64 \<Rightarrow> u64" where
  "base_file_ref file_ref = file_ref AND 0x0000FFFFFFFFFFFF"

section \<open>The update sequence array\<close>

text \<open>
  The sector loop, from sector \<open>sector\<close> on with \<open>k\<close> sectors left. The vector is mutated in
  place: it is returned also when a later sector fails.
\<close>

fun usa_loop :: "nat \<Rightarrow> u16 \<Rightarrow> nat \<Rightarrow> nat \<Rightarrow> bytes \<Rightarrow> (bool \<times> bytes) access" where
  "usa_loop usa_offset update_sequence sector 0 bs = Got (True, bs)"
| "usa_loop usa_offset update_sequence sector (Suc k) bs =
     (let trailer_offset = (sector + 1) * 512 - 2 in
      acc_bind (read_le bs trailer_offset) (\<lambda>current :: u16 option.
      acc_bind (read_le bs (usa_offset + (sector + 1) * 2)) (\<lambda>replacement :: u16 option.
        (case (current, replacement) of
           (Some cur, Some repl) \<Rightarrow>
             if cur \<noteq> update_sequence then Got (False, bs)
             else
               acc_bind (put_byte bs trailer_offset (ucast (repl AND 0xFF))) (\<lambda>bs1.
               acc_bind (put_byte bs1 (trailer_offset + 1) (ucast (drop_bit 8 repl AND 0xFF))) (\<lambda>bs2.
                 usa_loop usa_offset update_sequence (sector + 1) k bs2))
         | _ \<Rightarrow> Got (False, bs)))))"

definition restore_usa :: "bytes \<Rightarrow> (bool \<times> bytes) access" where
  "restore_usa bs =
     acc_bind (read_le bs 0x04) (\<lambda>usa_offset :: u16 option.
     acc_bind (read_le bs 0x06) (\<lambda>usa_count :: u16 option.
       (case (usa_offset, usa_count) of
          (Some uo, Some uc) \<Rightarrow>
            if uc < 2 then Got (False, bs)
            else if unat uo > length bs \<or> unat uc * 2 > length bs - unat uo then Got (False, bs)
            else
              let sector_count = length bs div 512 in
              if unat uc \<noteq> sector_count + 1 then Got (False, bs)
              else
                acc_bind (read_le bs (unat uo)) (\<lambda>update_sequence :: u16 option.
                  (case update_sequence of
                     None \<Rightarrow> Got (False, bs)
                   | Some us \<Rightarrow> usa_loop (unat uo) us 0 sector_count bs))
        | _ \<Rightarrow> Got (False, bs))))"

text \<open>\<open>restored_record\<close>: the copy with its sector trailers restored.\<close>

definition restored_record :: "bytes \<Rightarrow> bytes option access" where
  "restored_record input =
     (if length input \<noteq> RecordSize \<or> take 4 input \<noteq> FILE_magic then Got None
      else acc_bind (restore_usa input) (\<lambda>(ok, bs). Got (if ok then Some bs else None)))"

section \<open>The file-name pass\<close>

text \<open>The body of the \<open>$FILE_NAME\<close> branch, on a resident attribute at \<open>attr_offset\<close>.\<close>

definition file_name_content :: "bytes \<Rightarrow> bool \<Rightarrow> nat \<Rightarrow> nat \<Rightarrow> mft_file_name option access" where
  "file_name_content bs record_is_directory content_start content_end =
     acc_bind (read_le bs content_start) (\<lambda>parent :: u64 option.
     acc_bind (read_le bs (content_start + 40)) (\<lambda>allocated :: u64 option.
     acc_bind (read_le bs (content_start + 48)) (\<lambda>real :: u64 option.
     acc_bind (read_le bs (content_start + 56)) (\<lambda>name_flags :: u32 option.
     acc_bind (read_le bs (content_start + 64)) (\<lambda>name_len :: u8 option.
     acc_bind (read_le bs (content_start + 65)) (\<lambda>ns :: u8 option.
       (case (parent, allocated, real, name_flags, name_len, ns) of
          (Some p, Some a, Some r, Some f, Some l, Some n) \<Rightarrow>
            let name_bytes = unat l * 2; name_start = content_start + 66 in
            if name_start + name_bytes \<le> content_end then
              acc_bind (utf16le_to_utf8 bs name_start name_bytes) (\<lambda>name.
                Got (if name \<noteq> [] then
                       Some \<lparr>fn_parent_ref = base_file_ref p, fn_name = name, fn_namespace = n,
                             fn_flags = f, fn_allocated_size = a, fn_real_size = r,
                             fn_is_directory = (record_is_directory \<or> f AND 0x10000000 \<noteq> 0)\<rparr>
                     else None))
            else Got None
        | _ \<Rightarrow> Got None)))))))"

definition file_name_at :: "bytes \<Rightarrow> bool \<Rightarrow> nat \<Rightarrow> mft_file_name option access" where
  "file_name_at bs record_is_directory attr_offset =
     acc_bind (read_le bs (attr_offset + 16)) (\<lambda>content_len :: u32 option.
     acc_bind (read_le bs (attr_offset + 20)) (\<lambda>content_offset :: u16 option.
       (case (content_len, content_offset) of
          (Some cl, Some co) \<Rightarrow>
            let content_start = attr_offset + unat co; content_end = content_start + unat cl in
            if content_start + 66 \<le> length bs \<and> content_end \<le> length bs
            then file_name_content bs record_is_directory content_start content_end
            else Got None
        | _ \<Rightarrow> Got None)))"

function parse_attrs :: "bytes \<Rightarrow> bool \<Rightarrow> nat \<Rightarrow> mft_file_name list \<Rightarrow> mft_file_name list access" where
  "parse_attrs bs record_is_directory attr_offset names =
     (if attr_offset + 16 \<le> length bs then
        acc_bind (read_le bs attr_offset) (\<lambda>attr_type :: u32 option.
        (case attr_type of
           None \<Rightarrow> Got names
         | Some ty \<Rightarrow>
             if ty = AttributeEnd then Got names
             else
               acc_bind (read_le bs (attr_offset + 4)) (\<lambda>attr_len :: u32 option.
               acc_bind (read_le bs (attr_offset + 8)) (\<lambda>non_resident :: u8 option.
               (case attr_len of
                  None \<Rightarrow> Got names
                | Some len \<Rightarrow>
                    if len < 16 \<or> attr_offset + unat len > length bs then Got names
                    else
                      acc_bind
                        (if ty = AttributeFileName \<and> non_resident = Some 0
                         then file_name_at bs record_is_directory attr_offset else Got None)
                        (\<lambda>file_name.
                          parse_attrs bs record_is_directory (attr_offset + unat len)
                            (names @ (case file_name of None \<Rightarrow> [] | Some n \<Rightarrow> [n]))))))))
      else Got names)"
  by pat_completeness auto
termination
  by (relation "measure (\<lambda>(bs, d, off, names). length bs - off)")
    (auto simp: word_less_nat_alt)

declare parse_attrs.simps [simp del]

text \<open>\<open>MftRecordParser::parse\<close>.\<close>

definition parse :: "bytes \<Rightarrow> u64 \<Rightarrow> mft_record option access" where
  "parse input off =
     (if length input \<noteq> RecordSize \<or> take 4 input \<noteq> FILE_magic then Got None
      else
        acc_bind (restore_usa input) (\<lambda>(ok, bs).
          if \<not> ok then Got None
          else
            acc_bind (read_le bs 0x10) (\<lambda>sequence_number :: u16 option.
            acc_bind (read_le bs 0x16) (\<lambda>flags :: u16 option.
            acc_bind (read_le bs 0x14) (\<lambda>first_attr_offset :: u16 option.
            acc_bind (read_le bs 0x2C) (\<lambda>record_number :: u32 option.
              (case (sequence_number, flags, first_attr_offset, record_number) of
                 (Some sn, Some fl, Some fo, Some rn) \<Rightarrow>
                   acc_bind (parse_attrs bs (fl AND DirectoryFlag \<noteq> 0) (unat fo) []) (\<lambda>names.
                     Got (if names = [] then None
                          else Some \<lparr>mr_record_id_guess =
                                       (if rn \<noteq> 0 then ucast rn else off div of_nat RecordSize),
                                     mr_offset = off, mr_names = names\<rparr>))
               | _ \<Rightarrow> Got None)))))))"

text \<open>\<open>MftRecordParser::record_number\<close>.\<close>

definition record_number :: "bytes \<Rightarrow> u64 option access" where
  "record_number input =
     acc_bind (restored_record input) (\<lambda>restored.
       (case restored of
          None \<Rightarrow> Got None
        | Some bs \<Rightarrow>
            acc_bind (read_le bs 0x2C) (\<lambda>number :: u32 option. Got (map_option ucast number))))"

section \<open>The data pass\<close>

definition resident_data_at :: "bytes \<Rightarrow> nat \<Rightarrow> nat \<Rightarrow> data_attribute option access" where
  "resident_data_at bs attr_offset attr_end =
     acc_bind (read_le bs (attr_offset + 16)) (\<lambda>content_len :: u32 option.
     acc_bind (read_le bs (attr_offset + 20)) (\<lambda>content_offset :: u16 option.
       (case (content_len, content_offset) of
          (Some cl, Some co) \<Rightarrow>
            let content_start = attr_offset + unat co in
            if content_start \<le> attr_end \<and> unat cl \<le> attr_end - content_start then
              acc_bind (range_at bs content_start (unat cl)) (\<lambda>content.
                Got (Some \<lparr>da_resident = True, da_resident_data = content, da_runs = [],
                           da_real_size = ucast cl\<rparr>))
            else Got None
        | _ \<Rightarrow> Got None)))"

definition nonresident_data_at :: "bytes \<Rightarrow> nat \<Rightarrow> nat \<Rightarrow> data_attribute option access" where
  "nonresident_data_at bs attr_offset attr_end =
     acc_bind (read_le bs (attr_offset + 32)) (\<lambda>run_offset :: u16 option.
     acc_bind (read_le bs (attr_offset + 48)) (\<lambda>real_size :: u64 option.
       (case (run_offset, real_size) of
          (Some ro, Some rs) \<Rightarrow>
            let run_start = attr_offset + unat ro in
            if run_start < attr_end then
              acc_bind (parse_data_runs bs run_start attr_end) (\<lambda>runs.
                Got (map_option (\<lambda>r. \<lparr>da_resident = False, da_resident_data = [], da_runs = r,
                                       da_real_size = rs\<rparr>) runs))
            else Got None
        | _ \<Rightarrow> Got None)))"

function data_attrs :: "bytes \<Rightarrow> nat \<Rightarrow> data_attribute list \<Rightarrow> data_attribute list access" where
  "data_attrs bs attr_offset attributes =
     (if attr_offset + 16 \<le> length bs then
        acc_bind (read_le bs attr_offset) (\<lambda>attr_type :: u32 option.
        (case attr_type of
           None \<Rightarrow> Got attributes
         | Some ty \<Rightarrow>
             if ty = AttributeEnd then Got attributes
             else
               acc_bind (read_le bs (attr_offset + 4)) (\<lambda>attr_len :: u32 option.
               acc_bind (read_le bs (attr_offset + 8)) (\<lambda>non_resident :: u8 option.
               acc_bind (read_le bs (attr_offset + 9)) (\<lambda>name_len :: u8 option.
               acc_bind (read_le bs (attr_offset + 12)) (\<lambda>attr_flags :: u16 option.
               (case (attr_len, non_resident, name_len, attr_flags) of
                  (Some len, Some nr, Some nl, Some fl) \<Rightarrow>
                    if len < 16 \<or> attr_offset + unat len > length bs then Got attributes
                    else
                      acc_bind
                        (if ty = AttributeData \<and> nl = 0 \<and> fl AND 0x4001 = 0 then
                           (if nr = 0 then resident_data_at bs attr_offset (attr_offset + unat len)
                            else if nr = 1
                            then nonresident_data_at bs attr_offset (attr_offset + unat len)
                            else Got None)
                         else Got None)
                        (\<lambda>data.
                          data_attrs bs (attr_offset + unat len)
                            (attributes @ (case data of None \<Rightarrow> [] | Some d \<Rightarrow> [d])))
                | _ \<Rightarrow> Got attributes)))))))
      else Got attributes)"
  by pat_completeness auto
termination
  by (relation "measure (\<lambda>(bs, off, attributes). length bs - off)")
    (auto simp: word_less_nat_alt)

declare data_attrs.simps [simp del]

text \<open>\<open>MftRecordParser::data_attributes\<close>.\<close>

definition data_attributes :: "bytes \<Rightarrow> data_attribute list access" where
  "data_attributes input =
     acc_bind (restored_record input) (\<lambda>restored.
       (case restored of
          None \<Rightarrow> Got []
        | Some bs \<Rightarrow>
            acc_bind (read_le bs 0x14) (\<lambda>first_attr_offset :: u16 option.
              (case first_attr_offset of
                 None \<Rightarrow> Got []
               | Some fo \<Rightarrow> data_attrs bs (unat fo) []))))"

section \<open>Buffer safety\<close>

lemmas le_reads = read_le_eq [where ?'a = 8, simplified] read_le_eq [where ?'a = 16, simplified]
  read_le_eq [where ?'a = 32, simplified] read_le_eq [where ?'a = 64, simplified]

lemma acc_bind_Got_eq: "m = Got x \<Longrightarrow> acc_bind m f = f x"
  by simp

lemma usa_loop_safe: "usa_loop uo us s k bs \<noteq> OutOfBounds"
proof (induction uo us s k bs rule: usa_loop.induct)
  case (2 uo us s k bs)
  show ?case
    using 2 by (auto simp: Let_def le_reads put_byte_def split: if_splits)
qed simp

lemma usa_loop_frame:
  "usa_loop uo us s k bs = Got (ok, bs') \<Longrightarrow>
     length bs' = length bs \<and>
     (\<forall>i < length bs. (\<forall>t. s \<le> t \<and> t < s + k \<longrightarrow> i \<noteq> (t + 1) * 512 - 2 \<and> i \<noteq> (t + 1) * 512 - 1)
        \<longrightarrow> bs' ! i = bs ! i)"
proof (induction k arbitrary: s bs)
  case (Suc k)
  show ?case
  proof (cases "usa_loop uo us s (Suc k) bs = Got (False, bs) \<and> bs' = bs")
    case False
    then obtain r where r: "usa_loop uo us (s + 1) k
        (bs[(s + 1) * 512 - 2 := ucast (r AND 0xFF :: u16),
            (s + 1) * 512 - 2 + 1 := ucast (drop_bit 8 r AND 0xFF :: u16)]) = Got (ok, bs')"
      using Suc.prems by (auto simp: Let_def le_reads put_byte_def split: if_splits)
    have "(s + 1) * 512 - 2 + 1 = (s + 1) * 512 - 1" by simp
    with Suc.IH [OF r] show ?thesis by (auto simp: nth_list_update) 
  qed auto
qed auto

lemma restore_usa_safe: "restore_usa bs \<noteq> OutOfBounds"
  by (auto simp: restore_usa_def le_reads Let_def usa_loop_safe split: if_splits)

lemma restore_usa_length: "restore_usa bs = Got (ok, bs') \<Longrightarrow> length bs' = length bs"
  by (auto simp: restore_usa_def le_reads Let_def split: if_splits dest: usa_loop_frame)

lemma restored_record_safe: "restored_record input \<noteq> OutOfBounds"
  using restore_usa_safe [of input] by (auto simp: restored_record_def split: prod.splits)

lemma restored_record_Some:
  "restored_record input = Got (Some bs) \<longleftrightarrow>
     length input = RecordSize \<and> take 4 input = FILE_magic \<and> restore_usa input = Got (True, bs)"
  by (auto simp: restored_record_def split: if_splits)

lemma restored_record_length: "restored_record input = Got (Some bs) \<Longrightarrow> length bs = RecordSize"
  using restore_usa_length by (auto simp: restored_record_Some)

lemma file_name_content_safe:
  "s + 66 \<le> length bs \<Longrightarrow> e \<le> length bs \<Longrightarrow> file_name_content bs d s e \<noteq> OutOfBounds"
  using utf16le_to_utf8_safe [of "s + 66" _ bs]
  by (auto simp: file_name_content_def le_reads Let_def)

lemma file_name_at_safe: "file_name_at bs d off \<noteq> OutOfBounds"
  by (auto simp: file_name_at_def le_reads Let_def file_name_content_safe)

lemma resident_data_at_safe: "e \<le> length bs \<Longrightarrow> resident_data_at bs off e \<noteq> OutOfBounds"
  by (auto simp: resident_data_at_def le_reads Let_def range_at_def)

lemma nonresident_data_at_safe: "e \<le> length bs \<Longrightarrow> nonresident_data_at bs off e \<noteq> OutOfBounds"
  by (auto simp: nonresident_data_at_def le_reads Let_def parse_data_runs_safe)

section \<open>Walking the attributes\<close>

definition attr_header :: "bytes \<Rightarrow> nat \<Rightarrow> (u32 \<times> nat) option" where
  "attr_header bs off =
     (if off + 16 \<le> length bs then
        (let ty = le_word bs off; len = unat (le_word bs (off + 4) :: u32) in
         if ty = AttributeEnd \<or> len < 16 \<or> off + len > length bs then None else Some (ty, len))
      else None)"

function attributes :: "bytes \<Rightarrow> nat \<Rightarrow> (nat \<times> u32 \<times> nat) list" where
  "attributes bs off =
     (case attr_header bs off of
        None \<Rightarrow> []
      | Some (ty, len) \<Rightarrow> (off, ty, len) # attributes bs (off + len))"
  by pat_completeness auto
termination
  by (relation "measure (\<lambda>(bs, off). length bs - off)")
    (auto simp: attr_header_def Let_def split: if_splits)

declare attributes.simps [simp del]

definition opt_list :: "'a option \<Rightarrow> 'a list" where
  "opt_list r = (case r of None \<Rightarrow> [] | Some x \<Rightarrow> [x])"

fun got :: "'a option access \<Rightarrow> 'a option" where
  "got OutOfBounds = None"
| "got (Got r) = r"

locale attribute_pass =
  fixes bs :: bytes
    and loop :: "nat \<Rightarrow> 'a list \<Rightarrow> 'a list access"
    and item :: "nat \<Rightarrow> u32 \<Rightarrow> nat \<Rightarrow> 'a option access"
  assumes stop: "attr_header bs off = None \<Longrightarrow> loop off acc = Got acc"
    and step: "attr_header bs off = Some (ty, len) \<Longrightarrow>
          loop off acc = acc_bind (item off ty len) (\<lambda>r. loop (off + len) (acc @ opt_list r))"
    and item_safe: "attr_header bs off = Some (ty, len) \<Longrightarrow> item off ty len \<noteq> OutOfBounds"
begin

lemma pass_result:
  "loop off acc = Got (acc @ List.map_filter (\<lambda>(p, ty, len). got (item p ty len)) (attributes bs off))"
proof (induction "length bs - off" arbitrary: off acc rule: less_induct)
  case less
  show ?case
  proof (cases "attr_header bs off")
    case None
    then show ?thesis by (simp add: stop attributes.simps [of bs off])
  next
    case (Some h)
    then obtain ty len where h: "attr_header bs off = Some (ty, len)" by (cases h) auto
    obtain r where r: "item off ty len = Got r"
      using item_safe [OF h] by (cases "item off ty len") simp_all
    have lt: "length bs - (off + len) < length bs - off"
      using h by (auto simp: attr_header_def Let_def split: if_splits)
    have "loop off acc = loop (off + len) (acc @ opt_list r)"
      by (simp only: step [OF h] r acc_bind.simps)
    also have "\<dots> = Got ((acc @ opt_list r) @
        List.map_filter (\<lambda>(p, ty, len). got (item p ty len)) (attributes bs (off + len)))"
      by (rule less.hyps [OF lt])
    finally have "loop off acc = Got ((acc @ opt_list r) @
        List.map_filter (\<lambda>(p, ty, len). got (item p ty len)) (attributes bs (off + len)))" .
    moreover have "attributes bs off = (off, ty, len) # attributes bs (off + len)"
      using h by (simp add: attributes.simps [of bs off])
    ultimately show ?thesis
      using r by (cases r) (simp_all add: opt_list_def)
  qed
qed

lemma pass_safe: "loop off acc \<noteq> OutOfBounds"
  by (simp add: pass_result)

lemma pass_member:
  assumes "loop off [] = Got xs" "x \<in> set xs"
  shows "\<exists>p ty len. (p, ty, len) \<in> set (attributes bs off) \<and> item p ty len = Got (Some x)"
proof -
  have "x \<in> set (List.map_filter (\<lambda>(p, ty, len). got (item p ty len)) (attributes bs off))"
    using assms by (simp add: pass_result)
  then obtain p ty len where "(p, ty, len) \<in> set (attributes bs off)" "got (item p ty len) = Some x"
    by (auto simp: map_filter_def)
  then show ?thesis by (cases "item p ty len") auto
qed

end

definition name_item :: "bytes \<Rightarrow> bool \<Rightarrow> nat \<Rightarrow> u32 \<Rightarrow> nat \<Rightarrow> mft_file_name option access" where
  "name_item bs d off ty len =
     (if ty = AttributeFileName \<and> (le_word bs (off + 8) :: u8) = 0 then file_name_at bs d off
      else Got None)"

definition data_item :: "bytes \<Rightarrow> nat \<Rightarrow> u32 \<Rightarrow> nat \<Rightarrow> data_attribute option access" where
  "data_item bs off ty len =
     (if ty = AttributeData \<and> (le_word bs (off + 9) :: u8) = 0
         \<and> (le_word bs (off + 12) :: u16) AND 0x4001 = 0 then
        (if (le_word bs (off + 8) :: u8) = 0 then resident_data_at bs off (off + len)
         else if (le_word bs (off + 8) :: u8) = 1 then nonresident_data_at bs off (off + len)
         else Got None)
      else Got None)"

lemma attr_header_None:
  "attr_header bs off = None \<longleftrightarrow>
     (off + 16 \<le> length bs \<longrightarrow>
        le_word bs off = AttributeEnd \<or> (le_word bs (off + 4) :: u32) < 16
        \<or> off + unat (le_word bs (off + 4) :: u32) > length bs)"
  by (auto simp: attr_header_def Let_def word_less_nat_alt)

lemma attr_header_Some:
  "attr_header bs off = Some (ty, len) \<longleftrightarrow>
     off + 16 \<le> length bs \<and> ty = le_word bs off \<and> len = unat (le_word bs (off + 4) :: u32)
     \<and> ty \<noteq> AttributeEnd \<and> \<not> (le_word bs (off + 4) :: u32) < 16 \<and> off + len \<le> length bs"
  by (auto simp: attr_header_def Let_def word_less_nat_alt)

interpretation names: attribute_pass bs "parse_attrs bs d" "name_item bs d" for bs d
proof
  fix off :: nat and ty :: u32 and len :: nat and acc :: "mft_file_name list"
  show "parse_attrs bs d off acc = Got acc" if "attr_header bs off = None"
    using that by (auto simp: attr_header_None parse_attrs.simps [of bs d off] le_reads)
  show "parse_attrs bs d off acc = acc_bind (name_item bs d off ty len)
      (\<lambda>r. parse_attrs bs d (off + len) (acc @ opt_list r))" if "attr_header bs off = Some (ty, len)"
    using that by (auto simp: attr_header_Some parse_attrs.simps [of bs d off] le_reads name_item_def opt_list_def)
  show "name_item bs d off ty len \<noteq> OutOfBounds"
    by (simp add: name_item_def file_name_at_safe)
qed

interpretation datas: attribute_pass bs "data_attrs bs" "data_item bs" for bs
proof
  fix off :: nat and ty :: u32 and len :: nat and acc :: "data_attribute list"
  show "data_attrs bs off acc = Got acc" if "attr_header bs off = None"
    using that by (auto simp: attr_header_None data_attrs.simps [of bs off] le_reads)
  show "data_attrs bs off acc = acc_bind (data_item bs off ty len)
      (\<lambda>r. data_attrs bs (off + len) (acc @ opt_list r))" if "attr_header bs off = Some (ty, len)"
    using that by (auto simp: attr_header_Some data_attrs.simps [of bs off] le_reads data_item_def opt_list_def)
  show "data_item bs off ty len \<noteq> OutOfBounds" if "attr_header bs off = Some (ty, len)"
    using that by (simp add: data_item_def attr_header_Some resident_data_at_safe nonresident_data_at_safe)
qed


section \<open>What a pass collects\<close>

lemma file_name_content_Some:
  assumes "file_name_content bs d s e = Got (Some n)" "s + 66 \<le> length bs" "e \<le> length bs"
  shows "utf16le_to_utf8 bs (s + 66) (unat (le_word bs (s + 64) :: u8) * 2) = Got (fn_name n)"
    and "s + 66 + unat (le_word bs (s + 64) :: u8) * 2 \<le> length bs"
    and "fn_name n \<noteq> []" and "fn_parent_ref n = base_file_ref (le_word bs s)"
    and "d \<longrightarrow> fn_is_directory n"
  using assms by (auto simp: file_name_content_def le_reads Let_def split: if_splits)

lemma file_name_at_Some:
  assumes "file_name_at bs d off = Got (Some n)"
  shows "\<exists>s e. file_name_content bs d s e = Got (Some n) \<and> s + 66 \<le> length bs \<and> e \<le> length bs"
  using assms by (auto simp: file_name_at_def le_reads Let_def split: if_splits)

text \<open>The well-formedness of one parsed file name.\<close>

definition wf_name :: "mft_file_name \<Rightarrow> bool" where
  "wf_name n \<longleftrightarrow> fn_name n \<noteq> [] \<and> 0 \<notin> set (fn_name n) \<and> utf8_decode (fn_name n) \<noteq> None
     \<and> unat (fn_parent_ref n) < 2 ^ 48"

lemma name_item_wf:
  assumes "name_item bs d off ty len = Got (Some n)"
  shows "wf_name n \<and> (d \<longrightarrow> fn_is_directory n)"
proof -
  have "file_name_at bs d off = Got (Some n)" using assms by (auto simp: name_item_def split: if_splits)
  then obtain s e where f: "file_name_content bs d s e = Got (Some n)" "s + 66 \<le> length bs" "e \<le> length bs"
    using file_name_at_Some by blast
  note c = file_name_content_Some [OF f]
  have "unat (w AND 0xFFFFFFFFFFFF :: u64) < 2 ^ 48" for w :: u64
    using unat_and_mask [of w 48] by (simp add: mask_eq_exp_minus_1)
  then show ?thesis
    using c utf16le_to_utf8_no_nul [OF c(2,1)] utf16le_loop_decodes [OF c(2), of 0 "[]"]
    by (auto simp: wf_name_def base_file_ref_def utf16le_to_utf8_def)
qed

lemma resident_data_at_Some:
  fixes bs off
  defines "s \<equiv> off + unat (le_word bs (off + 20) :: u16)"
    and "cl \<equiv> le_word bs (off + 16) :: u32"
  assumes "resident_data_at bs off e = Got (Some a)" "e \<le> length bs"
  shows "s + unat cl \<le> e"
    and "a = \<lparr>da_resident = True, da_resident_data = sub_bytes bs s (unat cl), da_runs = [],
              da_real_size = ucast cl\<rparr>"
  using assms by (auto simp: resident_data_at_def le_reads Let_def range_at_def split: if_splits)

lemma nonresident_data_at_Some:
  assumes "nonresident_data_at bs off e = Got (Some a)" "e \<le> length bs"
  shows "\<not> da_resident a \<and> da_resident_data a = [] \<and> (\<exists>s. off \<le> s \<and> s < e \<and>
      Option.bind (decode_runs (sub_bytes bs s (e - s))) (resolve_runs 0) = Some (da_runs a))"
  using assms
  by (auto simp: nonresident_data_at_def le_reads Let_def parse_data_runs_eq split: if_splits
      intro!: exI [of _ "off + unat (le_word bs (off + 32) :: u16)"])

text \<open>The well-formedness of one parsed data attribute.\<close>

definition wf_data :: "data_attribute \<Rightarrow> bool" where
  "wf_data a \<longleftrightarrow>
     (if da_resident a
      then da_runs a = [] \<and> unat (da_real_size a) = length (da_resident_data a)
           \<and> length (da_resident_data a) \<le> RecordSize
      else da_resident_data a = []
           \<and> (\<forall>r \<in> set (da_runs a). uint (lcn r) < 2 ^ 63 \<and> (sparse r \<longrightarrow> lcn r = 0)))"

lemma data_item_wf:
  assumes "attr_header bs off = Some (ty, len)" "length bs = RecordSize"
    and "data_item bs off ty len = Got (Some a)"
  shows "wf_data a"
proof -
  have e: "off + len \<le> length bs" using assms(1) by (simp add: attr_header_Some)
  consider "resident_data_at bs off (off + len) = Got (Some a)"
    | "nonresident_data_at bs off (off + len) = Got (Some a)"
    using assms(3) by (auto simp: data_item_def split: if_splits)
  then show ?thesis
  proof cases
    case 1
    have "unat (ucast w :: u64) = unat w" for w :: u32
      using unat_u32_lt [of w] by (simp add: unat_ucast)
    with resident_data_at_Some [OF 1 e] show ?thesis using assms(2) e by (auto simp: wf_data_def)
  next
    case 2
    from nonresident_data_at_Some [OF this e] show ?thesis
      by (auto simp: wf_data_def bind_eq_Some_conv dest: resolve_runs_bounds)
  qed
qed

lemma attributes_header: "(p, ty, len) \<in> set (attributes bs off) \<Longrightarrow> attr_header bs p = Some (ty, len)"
proof (induction bs off rule: attributes.induct)
  case (1 bs off)
  then show ?case by (cases "attr_header bs off") (auto simp: attributes.simps [of bs off])
qed

lemma data_attributes_eq:
  "data_attributes input =
     (case restored_record input of
        Got (Some bs) \<Rightarrow> Got (List.map_filter (\<lambda>(p, ty, len). got (data_item bs p ty len))
                           (attributes bs (unat (le_word bs 0x14 :: u16))))
      | _ \<Rightarrow> Got [])"
proof (cases "restored_record input")
  case OutOfBounds
  then show ?thesis using restored_record_safe by blast
next
  case (Got r)
  then show ?thesis
    using restored_record_length [of input]
    by (cases r) (auto simp: data_attributes_def le_reads RecordSize_def datas.pass_result)
qed

lemma parse_eq:
  "parse input off =
     (case restored_record input of
        Got (Some bs) \<Rightarrow>
          (let names = List.map_filter
                 (\<lambda>(p, ty, len). got (name_item bs ((le_word bs 0x16 :: u16) AND DirectoryFlag \<noteq> 0) p ty len))
                 (attributes bs (unat (le_word bs 0x14 :: u16)));
               rn = (le_word bs 0x2C :: u32)
           in Got (if names = [] then None
              else Some \<lparr>mr_record_id_guess = (if rn \<noteq> 0 then ucast rn else off div of_nat RecordSize),
                         mr_offset = off, mr_names = names\<rparr>))
      | _ \<Rightarrow> Got None)"
proof (cases "length input = RecordSize \<and> take 4 input = FILE_magic")
  case False
  then show ?thesis by (auto simp: parse_def restored_record_def)
next
  case True
  obtain ok bs where r: "restore_usa input = Got (ok, bs)"
    using restore_usa_safe [of input] by (cases "restore_usa input") auto
  have "length bs = 1024" using restore_usa_length [OF r] True by (simp add: RecordSize_def)
  then show ?thesis using True r
    by (simp add: parse_def restored_record_def le_reads names.pass_result Let_def)
qed

lemma record_number_eq:
  "record_number input =
     (case restored_record input of
        Got (Some bs) \<Rightarrow> Got (Some (ucast (le_word bs 0x2C :: u32)))
      | _ \<Rightarrow> Got None)"
proof (cases "restored_record input")
  case OutOfBounds
  then show ?thesis using restored_record_safe by blast
next
  case (Got r)
  then show ?thesis
    using restored_record_length [of input]
    by (cases r) (auto simp: record_number_def le_reads RecordSize_def)
qed

end
