(* ===== verification/Decimal.thy ===== *)
theory Decimal
  imports Prelude
begin

text \<open>
  Numbers as text: what \<open>fmt::format("{}")\<close> prints for an unsigned number, and what
  \<open>operator>>\<close> of an input stream reads.
\<close>

section \<open>Printing\<close>

text \<open>\<open>fmt::format("{}")\<close> of an unsigned number.\<close>

function decimal :: "nat \<Rightarrow> bytes" where
  "decimal n = (if n < 10 then [of_nat (0x30 + n)] else decimal (n div 10) @ [of_nat (0x30 + n mod 10)])"
  by pat_completeness auto
termination by (relation "measure id") auto

declare decimal.simps [simp del]

lemma decimal_digit: "n < 10 \<Longrightarrow> decimal n = [of_nat (0x30 + n)]"
  by (simp add: decimal.simps [of n])

definition dec_value :: "bytes \<Rightarrow> nat" where
  "dec_value ds = foldl (\<lambda>a d. a * 10 + (unat d - 0x30)) 0 ds"

lemma unat_digit: "k < 10 \<Longrightarrow> unat (of_nat (0x30 + k) :: byte) = 0x30 + k"
  by (simp add: unat_of_nat del: of_nat_add)

lemma dec_value_decimal: "dec_value (decimal n) = n"
proof (induction n rule: decimal.induct)
  case (1 n)
  show ?case
  proof (cases "n < 10")
    case True
    then show ?thesis using unat_digit [of n] by (simp add: decimal.simps [of n] dec_value_def)
  next
    case False
    then have "dec_value (decimal n) = dec_value (decimal (n div 10)) * 10 + n mod 10"
      using unat_digit [of "n mod 10"] by (simp add: decimal.simps [of n] dec_value_def)
    then show ?thesis using 1 [OF False] by simp
  qed
qed

lemma decimal_no_newline: "(0x0A :: byte) \<notin> set (decimal n)"
proof (induction n rule: decimal.induct)
  case (1 n)
  have d: "(of_nat (0x30 + k) :: byte) \<noteq> 0x0A" if "k < 10" for k
    using unat_digit [OF that] by (auto simp: word_unat_eq_iff)
  show ?case using 1 d [of n] d [of "n mod 10"] by (auto simp: decimal.simps [of n] simp del: of_nat_add of_nat_numeral)
qed

section \<open>Literals\<close>

definition ascii :: "string \<Rightarrow> bytes" where
  "ascii s = map (\<lambda>c. of_nat (of_char c)) s"

section \<open>Reading\<close>

definition is_space :: "byte \<Rightarrow> bool" where
  "is_space c \<longleftrightarrow> c = 0x20 \<or> (0x09 \<le> c \<and> c \<le> 0x0D)"

definition is_digit :: "byte \<Rightarrow> bool" where
  "is_digit c \<longleftrightarrow> 0x30 \<le> c \<and> c \<le> 0x39"

text \<open>\<open>stream >> number\<close> for an \<open>unsigned int\<close>: white space, a sign, digits; too large a value fails.\<close>

definition read_unsigned :: "bytes \<Rightarrow> (u32 \<times> bytes) option" where
  "read_unsigned t =
     (let t1 = dropWhile is_space t;
          negative = (t1 \<noteq> [] \<and> hd t1 = 0x2D);
          t2 = (if t1 \<noteq> [] \<and> (hd t1 = 0x2D \<or> hd t1 = 0x2B) then tl t1 else t1);
          value = dec_value (takeWhile is_digit t2)
      in if takeWhile is_digit t2 = [] \<or> 2 ^ 32 \<le> value then None
         else Some (if negative then - of_nat value else of_nat value, dropWhile is_digit t2))"

text \<open>\<open>stream >> character\<close>.\<close>

definition read_char :: "bytes \<Rightarrow> (byte \<times> bytes) option" where
  "read_char t = (case dropWhile is_space t of [] \<Rightarrow> None | c # rest \<Rightarrow> Some (c, rest))"

lemma digit_facts:
  assumes "k < 10"
  shows "is_digit (of_nat (0x30 + k))" "\<not> is_space (of_nat (0x30 + k))"
    "(of_nat (0x30 + k) :: byte) \<noteq> 0x2D" "(of_nat (0x30 + k) :: byte) \<noteq> 0x2B"
  using unat_digit [OF assms] assms
  by (auto simp: is_digit_def is_space_def word_le_nat_alt word_unat_eq_iff simp del: of_nat_add of_nat_numeral)

lemma decimal_digits: "decimal n \<noteq> [] \<and> (\<forall>d \<in> set (decimal n). is_digit d \<and> \<not> is_space d \<and> d \<noteq> 0x2D \<and> d \<noteq> 0x2B)"
proof (induction n rule: decimal.induct)
  case (1 n)
  show ?case
    using 1 digit_facts [of n] digit_facts [of "n mod 10"]
    by (simp add: decimal.simps [of n] del: of_nat_add of_nat_numeral)
qed

lemma read_unsigned_decimal:
  assumes "n < 2 ^ 32" "\<not> is_digit c"
  shows "read_unsigned (decimal n @ c # rest) = Some (of_nat n, c # rest)"
proof -
  obtain d ds where d: "decimal n = d # ds" using decimal_digits [of n] by (cases "decimal n") auto
  then have h: "\<not> is_space d" "d \<noteq> 0x2D" "d \<noteq> 0x2B" using decimal_digits [of n] by auto
  have w: "dropWhile is_space (decimal n @ c # rest) = decimal n @ c # rest" using d h by simp
  have t: "takeWhile is_digit (decimal n @ c # rest) = decimal n" "dropWhile is_digit (decimal n @ c # rest) = c # rest"
    using decimal_digits [of n] assms(2) by (simp_all add: takeWhile_append2 dropWhile_append2)
  show ?thesis
    unfolding read_unsigned_def w using d h assms(1) t decimal_digits [of n]
    by (simp add: Let_def dec_value_decimal [of n, unfolded d])
qed

end
