(* ===== verification/RecoverTree.thy ===== *)
theory RecoverTree
  imports OutputNames Decimal "HOL-Library.AList" "HOL-Library.Multiset" "HOL-Library.List_Lexorder"
begin

text \<open>
  The tree collection of \<open>src/Recover.cpp\<close>: \<open>better_name\<close>, \<open>dedup_children\<close> and
  \<open>collect_tree\<close>, on the record index as a function from a parent to its rows, or to the
  exception the query throws. What the standard leaves open, the order in which an
  \<open>unordered_map\<close> is iterated and the order \<open>std::sort\<close> gives to equivalent elements, is the
  parameter \<open>arrange\<close>.
\<close>

section \<open>Rows\<close>

type_synonym i32 = "32 word"

record stored_record =
  sr_id :: i64
  sr_record_id_guess :: u64
  sr_offset :: u64
  sr_parent_ref :: u64
  sr_name :: bytes
  sr_name_namespace :: i32
  sr_flags :: u32
  sr_allocated_size :: u64
  sr_real_size :: u64
  sr_is_directory :: bool

type_synonym record_index = "u64 \<Rightarrow> bytes + stored_record list"

section \<open>Deduplication\<close>

definition better_name :: "stored_record \<Rightarrow> stored_record \<Rightarrow> bool" where
  "better_name candidate current =
     (let candidate_dos = (sr_name_namespace candidate = 2);
          current_dos = (sr_name_namespace current = 2)
      in if candidate_dos \<noteq> current_dos then \<not> candidate_dos
         else if length (sr_name candidate) \<noteq> length (sr_name current)
         then length (sr_name candidate) > length (sr_name current)
         else sr_id candidate <s sr_id current)"

definition child_map_key :: "stored_record \<Rightarrow> bytes" where
  "child_map_key child = decimal (unat (sr_record_id_guess child)) @ [0x0A] @ sr_name child"

definition record_has_long_name :: "stored_record list \<Rightarrow> u64 \<Rightarrow> bool" where
  "record_has_long_name children r =
     (\<exists>child \<in> set children. sr_name_namespace child \<noteq> 2 \<and> sr_record_id_guess child = r)"

fun dedup_loop ::
  "stored_record list \<Rightarrow> stored_record list \<Rightarrow> (bytes \<times> stored_record) list \<Rightarrow> (bytes \<times> stored_record) list" where
  "dedup_loop children [] by_key = by_key"
| "dedup_loop children (child # rest) by_key =
     (if sr_name_namespace child = 2 \<and> record_has_long_name children (sr_record_id_guess child)
      then dedup_loop children rest by_key
      else
        (let key = child_map_key child in
         dedup_loop children rest
           (case map_of by_key key of
              None \<Rightarrow> AList.update key child by_key
            | Some current \<Rightarrow>
                if better_name child current then AList.update key child by_key else by_key)))"

definition dedup_children ::
  "(stored_record list \<Rightarrow> stored_record list) \<Rightarrow> stored_record list \<Rightarrow> stored_record list" where
  "dedup_children arrange children = arrange (map snd (dedup_loop children children []))"

text \<open>The comparison passed to \<open>std::sort\<close>.\<close>

definition child_less :: "stored_record \<Rightarrow> stored_record \<Rightarrow> bool" where
  "child_less lhs rhs =
     (if sr_is_directory lhs \<noteq> sr_is_directory rhs then sr_is_directory lhs
      else sr_name lhs < sr_name rhs)"

section \<open>Collection\<close>

record recover_item =
  ri_record :: stored_record
  ri_relative_path :: path

datatype tree_error = Collision tracker_entry tracker_entry | IndexError bytes

record tree_state =
  ts_items :: "recover_item list"
  ts_visited :: "u64 set"
  ts_collisions :: tracker

definition new_tree :: tree_state where
  "new_tree = \<lparr>ts_items = [], ts_visited = {}, ts_collisions = Map.empty\<rparr>"

text \<open>The three containers the recursion shares, in one state; its loop over the children apart.\<close>

function collect_tree ::
    "(stored_record list \<Rightarrow> stored_record list) \<Rightarrow> record_index \<Rightarrow> u64 \<Rightarrow> path \<Rightarrow> tree_state \<Rightarrow> tree_error + tree_state"
  and collect_children ::
    "(stored_record list \<Rightarrow> stored_record list) \<Rightarrow> record_index \<Rightarrow> stored_record list \<Rightarrow> path \<Rightarrow> tree_state \<Rightarrow> tree_error + tree_state"
where
  "collect_tree arrange children_of parent base st =
     (if parent \<in> ts_visited st then Inr st
      else (case children_of parent of
              Inl e \<Rightarrow> Inl (IndexError e)
            | Inr children \<Rightarrow>
                collect_children arrange children_of (dedup_children arrange children) base
                  (st\<lparr>ts_visited := insert parent (ts_visited st)\<rparr>)))"
| "collect_children arrange children_of [] base st = Inr st"
| "collect_children arrange children_of (child # rest) base st =
     (let relative = path_append base (sanitize_name (sr_name child)) in
      case tracker_add (ts_collisions st) relative (sr_name child) (sr_record_id_guess child) of
        Inl (previous, candidate) \<Rightarrow> Inl (Collision previous candidate)
      | Inr collisions \<Rightarrow>
          (let st1 = st\<lparr>ts_collisions := collisions,
                        ts_items := ts_items st @ [\<lparr>ri_record = child, ri_relative_path = relative\<rparr>]\<rparr> in
           case (if sr_is_directory child
                 then collect_tree arrange children_of (sr_record_id_guess child) relative st1
                 else Inr st1) of
             Inl e \<Rightarrow> Inl e
           | Inr st2 \<Rightarrow> collect_children arrange children_of rest base st2))"
  by pat_completeness auto

lemma collect_grows_dom:
  "collect_tree_collect_children_dom (Inl (a, i, p, b, st)) \<Longrightarrow> collect_tree a i p b st = Inr st' \<Longrightarrow>
     ts_visited st \<subseteq> ts_visited st'"
  "collect_tree_collect_children_dom (Inr (a, i, cs, b, st)) \<Longrightarrow> collect_children a i cs b st = Inr st' \<Longrightarrow>
     ts_visited st \<subseteq> ts_visited st'"
proof (induction a i p b st and a i cs b st arbitrary: st' and st' rule: collect_tree_collect_children.pinduct)
  case (1 a i p b st)
  then show ?case by (auto simp: collect_tree.psimps split: if_splits sum.splits)
next
  case (2 a i b st)
  then show ?case by (simp add: collect_children.psimps)
next
  case (3 a i c rest b st)
  let ?rel = "path_append b (sanitize_name (sr_name c))"
  from 3(1,4) obtain t where t: "tracker_add (ts_collisions st) ?rel (sr_name c) (sr_record_id_guess c) = Inr t"
    by (auto simp: collect_children.psimps Let_def split: sum.splits)
  let ?st1 = "st\<lparr>ts_collisions := t, ts_items := ts_items st @ [\<lparr>ri_record = c, ri_relative_path = ?rel\<rparr>]\<rparr>"
  let ?m = "if sr_is_directory c then collect_tree a i (sr_record_id_guess c) ?rel ?st1 else Inr ?st1"
  from 3(1,4) t obtain st2 where m: "?m = Inr st2" "collect_children a i rest b st2 = Inr st'"
    by (simp add: collect_children.psimps Let_def del: if_split) (auto simp del: if_split split: sum.splits)
  have "ts_visited ?st1 \<subseteq> ts_visited st2"
    using "3.IH"(1) [OF refl t refl] m(1) by (cases "sr_is_directory c") auto
  moreover have "ts_visited st2 \<subseteq> ts_visited st'"
    using "3.IH"(2) [OF refl t refl m(1) m(2)] .
  ultimately show ?case by simp
qed

termination collect_tree
proof (relation "inv_image (less_than <*lex*> less_than)
    (\<lambda>x. case x of Inl (a, i, p, b, st) \<Rightarrow> (card (- ts_visited st), 0 :: nat)
                 | Inr (a, i, cs, b, st) \<Rightarrow> (card (- ts_visited st), length cs))", goal_cases)
  case (2 a i p b st cs)
  have "card (- insert p (ts_visited st)) < card (- ts_visited st)"
    using 2(1) by (intro psubset_card_mono) auto
  then show ?case by simp
next
  case (4 a i c rest b st rel t st1 st2)
  have "ts_visited st1 \<subseteq> ts_visited st2"
    using 4 collect_grows_dom(1) [of a i "sr_record_id_guess c" rel st1 st2]
    by (cases "sr_is_directory c") auto
  then have "card (- ts_visited st2) \<le> card (- ts_visited st)"
    using 4 by (intro card_mono) auto
  then show ?case by auto
qed auto

declare collect_tree.simps [simp del] collect_children.simps(2) [simp del]


section \<open>The map key\<close>

lemma child_map_key_inj:
  "child_map_key x = child_map_key y \<longleftrightarrow>
     sr_record_id_guess x = sr_record_id_guess y \<and> sr_name x = sr_name y"
proof
  assume e: "child_map_key x = child_map_key y"
  have t: "takeWhile ((\<noteq>) 0x0A) (child_map_key z) = decimal (unat (sr_record_id_guess z))"
    "dropWhile ((\<noteq>) 0x0A) (child_map_key z) = 0x0A # sr_name z" for z
    using decimal_no_newline [of "unat (sr_record_id_guess z)"]
    unfolding child_map_key_def
    by (subst takeWhile_append2 dropWhile_append2; force)+
  have "decimal (unat (sr_record_id_guess x)) = decimal (unat (sr_record_id_guess y))" "sr_name x = sr_name y"
    using t [of x] t [of y] e by auto
  then show "sr_record_id_guess x = sr_record_id_guess y \<and> sr_name x = sr_name y"
    using dec_value_decimal by (metis word_unat_eq_iff)
qed (simp add: child_map_key_def)

section \<open>What deduplication keeps\<close>

definition kept :: "stored_record list \<Rightarrow> stored_record \<Rightarrow> bool" where
  "kept children c \<longleftrightarrow> \<not> (sr_name_namespace c = 2 \<and> record_has_long_name children (sr_record_id_guess c))"

text \<open>Rows of one key, kept, agree on being DOS names: only the row id decides between them.\<close>

lemma better_name_same_key:
  assumes "x \<in> set children" "y \<in> set children" "kept children x" "kept children y"
    and "child_map_key x = child_map_key y"
  shows "better_name x y \<longleftrightarrow> sint (sr_id x) < sint (sr_id y)"
  using assms
  by (auto simp: better_name_def child_map_key_inj kept_def record_has_long_name_def word_sless_alt)

definition dedup_inv :: "stored_record list \<Rightarrow> stored_record list \<Rightarrow> (bytes \<times> stored_record) list \<Rightarrow> bool" where
  "dedup_inv children seen m \<longleftrightarrow>
     distinct (map fst m)
     \<and> (\<forall>k r. map_of m k = Some r \<longrightarrow> r \<in> set seen \<and> kept children r \<and> child_map_key r = k)
     \<and> (\<forall>c \<in> set seen. kept children c \<longrightarrow>
          (\<exists>r. map_of m (child_map_key c) = Some r \<and> sint (sr_id r) \<le> sint (sr_id c)))"

lemma dedup_inv_update:
  assumes "dedup_inv children seen m" "kept children c"
    and "\<And>r. map_of m (child_map_key c) = Some r \<Longrightarrow> sint (sr_id c) < sint (sr_id r)"
  shows "dedup_inv children (seen @ [c]) (AList.update (child_map_key c) c m)"
  using assms by (fastforce simp: dedup_inv_def update_conv' distinct_update split: if_splits)

lemma dedup_inv_skip:
  assumes "dedup_inv children seen m"
    and "kept children c \<Longrightarrow> \<exists>r. map_of m (child_map_key c) = Some r \<and> sint (sr_id r) \<le> sint (sr_id c)"
  shows "dedup_inv children (seen @ [c]) m"
  using assms by (fastforce simp: dedup_inv_def)

lemma dedup_loop_inv:
  assumes "dedup_inv children seen m" "set seen \<union> set rest \<subseteq> set children"
  shows "dedup_inv children (seen @ rest) (dedup_loop children rest m)"
  using assms
proof (induction rest arbitrary: seen m)
  case (Cons c rest)
  define m' where "m' = (if kept children c then
      (case map_of m (child_map_key c) of
         None \<Rightarrow> AList.update (child_map_key c) c m
       | Some current \<Rightarrow> if better_name c current then AList.update (child_map_key c) c m else m) else m)"
  have l: "dedup_loop children (c # rest) m = dedup_loop children rest m'"
    by (simp add: m'_def kept_def Let_def)
  have "dedup_inv children (seen @ [c]) m'"
  proof (cases "kept children c")
    case True
    show ?thesis
    proof (cases "map_of m (child_map_key c)")
      case None
      then show ?thesis using True dedup_inv_update [OF Cons.prems(1) True] by (simp add: m'_def)
    next
      case (Some r)
      then have r: "r \<in> set children" "kept children r" "child_map_key r = child_map_key c"
        using Cons.prems by (auto simp: dedup_inv_def)
      have b: "better_name c r \<longleftrightarrow> sint (sr_id c) < sint (sr_id r)"
        using better_name_same_key [of c children r] Cons.prems(2) True r by simp
      show ?thesis
        using dedup_inv_update [OF Cons.prems(1) True] dedup_inv_skip [OF Cons.prems(1), of c] Some True b
        by (auto simp: m'_def)
    qed
  next
    case False
    then show ?thesis using dedup_inv_skip [OF Cons.prems(1), of c] by (simp add: m'_def)
  qed
  then show ?case using Cons.IH [of "seen @ [c]" m'] Cons.prems(2) by (simp only: l) simp
qed simp

lemma dedup_loop_spec:
  fixes children
  defines "rs \<equiv> map snd (dedup_loop children children [])"
  shows "distinct (map child_map_key rs)"
    and "r \<in> set rs \<Longrightarrow> r \<in> set children \<and> kept children r"
    and "c \<in> set children \<Longrightarrow> kept children c \<Longrightarrow>
      \<exists>r \<in> set rs. child_map_key r = child_map_key c \<and> sint (sr_id r) \<le> sint (sr_id c)"
proof -
  let ?m = "dedup_loop children children []"
  have "dedup_inv children [] []" by (simp add: dedup_inv_def)
  from dedup_loop_inv [OF this, of children] have i: "dedup_inv children children ?m" by simp
  have "distinct (map fst ?m)" using i by (simp add: dedup_inv_def)
  then have m: "(k, r) \<in> set ?m \<longleftrightarrow> map_of ?m k = Some r" for k r by simp
  have k: "child_map_key (snd x) = fst x" if "x \<in> set ?m" for x
    using that m [of "fst x" "snd x"] i by (auto simp: dedup_inv_def)
  then have "map child_map_key rs = map fst ?m" by (simp add: rs_def)
  then show "distinct (map child_map_key rs)" using i by (simp add: dedup_inv_def)
  show "r \<in> set rs \<Longrightarrow> r \<in> set children \<and> kept children r"
    using i m by (auto simp: rs_def dedup_inv_def)
  show "c \<in> set children \<Longrightarrow> kept children c \<Longrightarrow>
      \<exists>r \<in> set rs. child_map_key r = child_map_key c \<and> sint (sr_id r) \<le> sint (sr_id c)"
    using i m unfolding rs_def dedup_inv_def by (metis imageI image_set snd_conv)
qed


section \<open>The order of the children\<close>

text \<open>
  What the collection relies on of the map iteration and \<open>std::sort\<close>: together they arrange
  the entries, none lost, by a strict weak order.
\<close>

locale child_order =
  fixes arrange :: "stored_record list \<Rightarrow> stored_record list"
  assumes arrange_mset: "mset (arrange xs) = mset xs"
    and arrange_sorted: "sorted_wrt (\<lambda>x y. \<not> child_less y x) (arrange xs)"
begin

lemma arrange_set [simp]: "set (arrange xs) = set xs"
  by (metis arrange_mset set_mset_mset)

lemma dedup_distinct: "distinct (map child_map_key (dedup_children arrange cs))"
proof -
  have "mset (map child_map_key (arrange xs)) = mset (map child_map_key xs)" for xs
    by (simp add: arrange_mset)
  then show ?thesis
    using dedup_loop_spec(1) [of cs] by (metis dedup_children_def mset_eq_imp_distinct_iff)
qed

lemma dedup_sound: "r \<in> set (dedup_children arrange cs) \<Longrightarrow> r \<in> set cs \<and> kept cs r"
  using dedup_loop_spec(2) by (simp add: dedup_children_def)

lemma dedup_least:
  "c \<in> set cs \<Longrightarrow> kept cs c \<Longrightarrow>
     \<exists>r \<in> set (dedup_children arrange cs). child_map_key r = child_map_key c \<and> sint (sr_id r) \<le> sint (sr_id c)"
  using dedup_loop_spec(3) by (simp add: dedup_children_def)

text \<open>No record of the directory is lost.\<close>

lemma dedup_covers:
  assumes "c \<in> set cs"
  shows "\<exists>r \<in> set (dedup_children arrange cs). sr_record_id_guess r = sr_record_id_guess c
     \<and> (kept cs c \<longrightarrow> sr_name r = sr_name c)"
proof (cases "kept cs c")
  case True
  then show ?thesis using dedup_least [OF assms True] by (auto simp: child_map_key_inj)
next
  case False
  then obtain d where "d \<in> set cs" "kept cs d" "sr_record_id_guess d = sr_record_id_guess c"
    by (auto simp: kept_def record_has_long_name_def)
  then show ?thesis using dedup_least [of d cs] False by (auto simp: child_map_key_inj)
qed

lemma dedup_sorted: "sorted_wrt (\<lambda>x y. \<not> child_less y x) (dedup_children arrange cs)"
  by (simp add: dedup_children_def arrange_sorted)

end

text \<open>The order itself, as a linear order on keys: directories first, then by the bytes of the name.\<close>

datatype child_key = Child_Key (key_dir: bool) (key_name: bytes)

instantiation child_key :: linorder
begin

definition less_child_key :: "child_key \<Rightarrow> child_key \<Rightarrow> bool" where
  "less_child_key x y = (if key_dir x \<noteq> key_dir y then key_dir x else key_name x < key_name y)"

definition less_eq_child_key :: "child_key \<Rightarrow> child_key \<Rightarrow> bool" where
  "less_eq_child_key x y = (x = y \<or> x < y)"

instance
  by standard (auto simp: less_child_key_def less_eq_child_key_def child_key.expand split: if_splits)

end

definition child_key_of :: "stored_record \<Rightarrow> child_key" where
  "child_key_of r = Child_Key (sr_is_directory r) (sr_name r)"

lemma child_less_key: "child_less x y \<longleftrightarrow> child_key_of x < child_key_of y"
  by (simp add: child_less_def less_child_key_def child_key_of_def)

definition arrange_children :: "stored_record list \<Rightarrow> stored_record list" where
  "arrange_children = sort_key child_key_of"

interpretation children: child_order arrange_children
proof
  fix xs
  show "mset (arrange_children xs) = mset xs" by (simp add: arrange_children_def)
  have "sorted (map child_key_of (arrange_children xs))" by (simp add: arrange_children_def)
  then show "sorted_wrt (\<lambda>x y. \<not> child_less y x) (arrange_children xs)"
    by (simp add: sorted_wrt_map child_less_key not_less)
qed

end
