(* ===== verification/RecoverData.thy ===== *)
theory RecoverData
  imports Publication MftRecord RecoverTree
begin

text \<open>
  The data half of \<open>src/Recover.cpp\<close>: reading the source, locating FILE records, copying a
  non-resident stream and recovering one file. All of it runs on the operating-system state, whose
  \<open>source_image\<close> is what the source descriptor reads.
\<close>

section \<open>Reading the source\<close>

text \<open>\<open>read_exact_at\<close>: \<open>pread\<close> until \<open>sz\<close> bytes are there; None is its \<open>false\<close>.\<close>

lemma sys_pread_script: "sys_pread sz off s = (r, s') \<Longrightarrow> script s' = tl (script s)"
  unfolding sys_pread_def by (erule syscall_script) (auto simp: Let_def split: if_splits)

lemma sys_pread_EINTR: "sys_pread sz off s = (Inl EINTR, s') \<Longrightarrow> script s \<noteq> []"
  by (auto simp: sys_pread_def syscall_def pop_def Let_def split: list.splits verdict.splits if_splits)

lemma sys_pread_length: "sys_pread sz off s = (Inr d, s') \<Longrightarrow> length d \<le> sz"
  by (auto simp: sys_pread_def syscall_def Let_def sub_bytes_def split: prod.splits verdict.splits if_splits)

function read_loop :: "nat \<Rightarrow> u64 \<Rightarrow> bytes \<Rightarrow> os \<Rightarrow> bytes option \<times> os" where
  "read_loop sz offset buf s =
     (if length buf < sz then
        (case sys_pread (sz - length buf) (offset + of_nat (length buf)) s of
           (Inl e, s1) \<Rightarrow> if e = EINTR then read_loop sz offset buf s1 else (None, s1)
         | (Inr d, s1) \<Rightarrow> if d = [] then (None, s1) else read_loop sz offset (buf @ d) s1)
      else (Some buf, s))"
  by pat_completeness auto
termination
proof (relation "measure (\<lambda>(sz, offset, buf, s). (sz - length buf) + length (script s))", goal_cases)
  case 1 then show ?case by simp
next
  case (2 sz offset buf s p s1 e)
  then have "sys_pread (sz - length buf) (offset + of_nat (length buf)) s = (Inl EINTR, s1)" by (metis prod.collapse)
  from sys_pread_script [OF this] sys_pread_EINTR [OF this] show ?case by (cases "script s") simp_all
next
  case (3 sz offset buf s p s1 d)
  then have "sys_pread (sz - length buf) (offset + of_nat (length buf)) s = (Inr d, s1)" by (metis prod.collapse)
  from sys_pread_script [OF this] 3 show ?case by (cases d) auto
qed

declare read_loop.simps [simp del]

definition read_exact_at :: "nat \<Rightarrow> u64 \<Rightarrow> os \<Rightarrow> bytes option \<times> os" where
  "read_exact_at sz offset = read_loop sz offset []"

section \<open>Geometry\<close>

definition checked_mul :: "u64 \<Rightarrow> u64 \<Rightarrow> string \<Rightarrow> runtime_error + u64" where
  "checked_mul lhs rhs label =
     (if rhs \<noteq> 0 \<and> lhs > (- 1) div rhs then Inl (SizeOverflow label) else Inr (lhs * rhs))"

definition le16 :: "bytes \<Rightarrow> nat \<Rightarrow> u16" where
  "le16 data i = ucast (data ! i) OR push_bit 8 (ucast (data ! (i + 1)))"

definition read_cluster_size :: "(runtime_error, u64) io" where
  "read_cluster_size s =
     (case sys_pread 512 0 s of
        (Inl e, s1) \<Rightarrow> (Inl (BootSectorUnreadable e), s1)
      | (Inr boot, s1) \<Rightarrow>
          if length boot \<noteq> 512 then (Inl (BootSectorUnreadable (Errno 0)), s1)
          else
            (let bytes_per_sector = le16 boot 0x0B; sectors_per_cluster = boot ! 0x0D in
             if bytes_per_sector = 0 \<or> sectors_per_cluster = 0 then (Inl InvalidGeometry, s1)
             else (checked_mul (ucast bytes_per_sector) (ucast sectors_per_cluster) ''cluster size'', s1)))"

section \<open>What a call leaves alone\<close>

lemma sys_pread_effect:
  assumes "wf_os s" "sys_pread sz off s = (r, s')"
  shows "extended s s' \<and> wf_os s'
    \<and> (\<forall>d. r = Inr d \<longrightarrow> 0 \<le> sint off \<and> (\<exists>n \<le> sz. d = sub_bytes (source_image s) (unat off) n))"
  using assms(2) unfolding sys_pread_def
  by (rule syscall_cases [OF assms(1)])
    (auto simp: Let_def extended_def split: if_splits option.splits intro: min.cobounded2)

lemma extended_trans: "extended s s' \<Longrightarrow> extended s' s'' \<Longrightarrow> extended s s''"
  using grown_trans by (auto simp: extended_iff)

lemma read_loop_effect:
  assumes "wf_os s" "read_loop sz off buf s = (r, s')"
  shows "extended s s' \<and> wf_os s'"
  using assms
proof (induction sz off buf s rule: read_loop.induct)
  case (1 sz off buf s)
  show ?case
  proof (cases "length buf < sz")
    case True
    obtain r1 s1 where p: "sys_pread (sz - length buf) (off + of_nat (length buf)) s = (r1, s1)"
      by (cases "sys_pread (sz - length buf) (off + of_nat (length buf)) s")
    have e: "extended s s1" "wf_os s1" using sys_pread_effect [OF "1.prems"(1) p] by auto
    consider "s' = s1" | "r1 = Inl EINTR" "read_loop sz off buf s1 = (r, s')"
      | d where "r1 = Inr d" "d \<noteq> []" "read_loop sz off (buf @ d) s1 = (r, s')"
      using "1.prems"(2) True p by (auto simp: read_loop.simps [of sz off buf s] split: sum.splits if_splits)
    then show ?thesis
    proof cases
      case 2
      from "1.IH"(1) [OF True p [symmetric] 2(1) refl e(2) 2(2)] e(1) show ?thesis by (blast intro: extended_trans)
    next
      case 3
      from "1.IH"(2) [OF True p [symmetric] 3(1,2) e(2) 3(3)] e(1) show ?thesis by (blast intro: extended_trans)
    qed (use e in simp)
  next
    case False
    then show ?thesis using "1.prems" by (simp add: read_loop.simps [of sz off buf s])
  qed
qed

text \<open>What a successful read returns: the bytes of the image, however the calls were cut up.\<close>

lemma unat_add_small:
  assumes "unat off + n < 2 ^ 64"
  shows "unat (off + of_nat n :: u64) = unat off + n"
  using assms by (simp add: unat_word_ariths unat_of_nat)

lemma nonneg_unat: "0 \<le> sint (w :: u64) \<longleftrightarrow> unat w < 2 ^ 63"
proof -
  have "0 \<le> sint w \<longleftrightarrow> uint w < 2 ^ 63" using uint_range64 [of w] by (auto simp: sint64)
  then show ?thesis using uint_less_exp [of w 63] by simp
qed

lemma sub_bytes_clip: "sub_bytes xs off (length (sub_bytes xs off n)) = sub_bytes xs off n"
  by (cases "n \<le> length xs - off") (simp_all add: sub_bytes_def)

lemma sub_bytes_extend: "sub_bytes xs off l @ sub_bytes xs (off + l) n = sub_bytes xs off (l + n)"
  by (simp add: sub_bytes_def take_add add.commute)

lemma read_loop_Some:
  assumes "wf_os s" "read_loop sz off buf s = (Some d, s')"
    and "buf = sub_bytes (source_image s) (unat off) (length buf)" "length buf \<le> sz" "unat off + sz < 2 ^ 64"
  shows "d = sub_bytes (source_image s) (unat off) sz \<and> length d = sz"
  using assms
proof (induction sz off buf s rule: read_loop.induct)
  case (1 sz off buf s)
  show ?case
  proof (cases "length buf < sz")
    case True
    obtain r1 s1 where p: "sys_pread (sz - length buf) (off + of_nat (length buf)) s = (r1, s1)"
      by (cases "sys_pread (sz - length buf) (off + of_nat (length buf)) s")
    note pe = sys_pread_effect [OF "1.prems"(1) p]
    have w1: "wf_os s1" and im: "source_image s1 = source_image s" using pe by (auto simp: extended_def)
    consider "r1 = Inl EINTR" "read_loop sz off buf s1 = (Some d, s')"
      | e where "r1 = Inr e" "e \<noteq> []" "read_loop sz off (buf @ e) s1 = (Some d, s')"
      using "1.prems"(2) True p by (auto simp: read_loop.simps [of sz off buf s] split: sum.splits if_splits)
    then show ?thesis
    proof cases
      case 1
      show ?thesis using "1.IH"(1) [OF True p [symmetric] 1(1) refl w1 1(2), unfolded im, OF "1.prems"(3-5)] .
    next
      case 2
      have u: "unat (off + of_nat (length buf)) = unat off + length buf"
        using "1.prems"(4,5) by (intro unat_add_small) simp
      obtain n where n: "n \<le> sz - length buf" "e = sub_bytes (source_image s) (unat off + length buf) n"
        using pe 2(1) u by auto
      have e: "e = sub_bytes (source_image s) (unat off + length buf) (length e)"
        using sub_bytes_clip [of "source_image s" "unat off + length buf" n] n(2) by simp
      have "buf @ e = sub_bytes (source_image s1) (unat off) (length (buf @ e))"
        using "1.prems"(3) e sub_bytes_extend [of "source_image s" "unat off" "length buf" "length e"]
        unfolding im length_append by metis
      moreover have "length (buf @ e) \<le> sz" using n True by (simp add: sub_bytes_def)
      ultimately show ?thesis
        using "1.IH"(2) [OF True p [symmetric] 2(1,2) w1 2(3)] "1.prems"(5) unfolding im by blast
    qed
  next
    case False
    then have "d = buf" "length buf = sz" using "1.prems"(2,4) by (auto simp: read_loop.simps [of sz off buf s])
    then show ?thesis using "1.prems"(3) by simp
  qed
qed

lemma read_loop_negative:
  assumes "wf_os s" "0 < sz" "\<not> unat off < 2 ^ 63" "buf = []"
  shows "fst (read_loop sz off buf s) = None"
  using assms
proof (induction sz off buf s rule: read_loop.induct)
  case (1 sz off buf s)
  have c: "length buf < sz" using "1.prems" by simp
  obtain r1 s1 where p: "sys_pread (sz - length buf) (off + of_nat (length buf)) s = (r1, s1)"
    by (cases "sys_pread (sz - length buf) (off + of_nat (length buf)) s")
  have e: "wf_os s1" "\<And>d. r1 \<noteq> Inr d"
    using sys_pread_effect [OF "1.prems"(1) p] "1.prems"(3,4) by (auto simp: nonneg_unat)
  then obtain e where r1: "r1 = Inl e" by (cases r1) auto
  show ?case
  proof (cases "e = EINTR")
    case True
    from "1.IH"(1) [OF c p [symmetric] r1 True e(1) "1.prems"(2-4)] show ?thesis
      using c p r1 True by (simp add: read_loop.simps [of sz off buf s])
  next
    case False
    then show ?thesis using c p r1 by (simp add: read_loop.simps [of sz off buf s])
  qed
qed

lemma read_exact_at_Some:
  assumes "wf_os s" "read_exact_at sz off s = (Some d, s')" "0 < sz" "sz \<le> 2 ^ 63"
  shows "unat off < 2 ^ 63 \<and> d = sub_bytes (source_image s) (unat off) sz \<and> unat off + sz \<le> length (source_image s)"
proof -
  note l = assms(2) [unfolded read_exact_at_def]
  have o: "unat off < 2 ^ 63" using read_loop_negative [OF assms(1,3), of off "[]"] l by (cases "unat off < 2 ^ 63") auto
  then have "d = sub_bytes (source_image s) (unat off) sz \<and> length d = sz"
    using assms(4) by (intro read_loop_Some [OF assms(1) l]) (simp_all add: sub_bytes_def)
  then show ?thesis using o assms(3) by (auto simp: sub_bytes_def)
qed

lemma read_exact_at_effect:
  "wf_os s \<Longrightarrow> read_exact_at sz off s = (r, s') \<Longrightarrow> extended s s' \<and> wf_os s'"
  unfolding read_exact_at_def by (rule read_loop_effect)

text \<open>With undisturbed calls a read inside the image succeeds, and one beyond it fails.\<close>

lemma read_exact_at_calm:
  assumes "script s = []" "0 < sz" "sz \<le> 2 ^ 63"
  shows "read_exact_at sz off s =
    (if unat off < 2 ^ 63 \<and> unat off + sz \<le> length (source_image s)
     then (Some (sub_bytes (source_image s) (unat off) sz), s) else (None, s))"
proof -
  let ?d = "sub_bytes (source_image s) (unat off) sz"
  have p: "sys_pread n o' s = (if unat o' < 2 ^ 63 then Inr (sub_bytes (source_image s) (unat o') n) else Inl EINVAL, s)" for n o'
    using assms(1) nonneg_unat [of o'] by (auto simp: sys_pread_def syscall_calm)
  show ?thesis
  proof (cases "unat off < 2 ^ 63")
    case False
    then show ?thesis using assms(2) p by (simp add: read_exact_at_def read_loop.simps [of sz off "[]" s])
  next
    case o: True
    have 1: "read_exact_at sz off s = (if ?d = [] then (None, s) else read_loop sz off ?d s)"
      using assms(2) p o by (simp add: read_exact_at_def read_loop.simps [of sz off "[]" s])
    show ?thesis
    proof (cases "unat off + sz \<le> length (source_image s)")
      case True
      then have "length ?d = sz" by (simp add: sub_bytes_def)
      moreover have "?d \<noteq> []" using calculation assms(2) by (metis list.size(3) less_irrefl)
      ultimately show ?thesis using 1 True o by (simp add: read_loop.simps [of sz off ?d s])
    next
      case False
      then have l: "length ?d = length (source_image s) - unat off" "length ?d < sz"
        using assms(2) by (auto simp: sub_bytes_def)
      have "length ?d \<le> sz" using l by simp
      then have u: "unat (off + of_nat (length ?d)) = unat off + length ?d"
        using o assms(3) by (intro unat_add_small) simp
      have "sub_bytes (source_image s) (unat off + length ?d) n = []" for n
        using l(1) by (simp add: sub_bytes_def)
      then have "sys_pread (sz - length ?d) (off + of_nat (length ?d)) s =
          (if unat (off + of_nat (length ?d)) < 2 ^ 63 then Inr [] else Inl EINVAL, s)"
        unfolding p u by simp
      then have "read_loop sz off ?d s = (None, s)"
        unfolding read_loop.simps [of sz off ?d s] using l(2) by simp
      then show ?thesis using 1 False by auto
    qed
  qed
qed

section \<open>Copying a stream\<close>

text \<open>The buffers of 1024 * 1024 bytes.\<close>

definition BufferSize :: nat where "BufferSize = 1048576"

definition chunk_size :: "u64 \<Rightarrow> nat" where
  "chunk_size n = min (unat n) BufferSize"

lemma chunk_size_pos: "0 < n \<Longrightarrow> 0 < chunk_size n"
  by (simp add: chunk_size_def BufferSize_def unat_gt_0)

lemma chunk_size_le: "chunk_size n \<le> unat n" "chunk_size n \<le> BufferSize"
  by (simp_all add: chunk_size_def)

lemma unat_minus_chunk: "unat (n - of_nat (chunk_size n)) = unat n - chunk_size n"
proof -
  have u: "unat (of_nat (chunk_size n) :: u64) = chunk_size n"
    using chunk_size_le [of n] by (simp add: unat_of_nat BufferSize_def)
  then show ?thesis using chunk_size_le [of n] by (simp add: unat_sub_if' )
qed

function write_zeros :: "atomic_file \<Rightarrow> u64 \<Rightarrow> (runtime_error, bool) io" where
  "write_zeros out n s =
     (if n > 0 then
        (case write_atomic out (zeros (chunk_size n)) s of
           (Inl e, s1) \<Rightarrow> (Inl e, s1)
         | (Inr u, s1) \<Rightarrow> write_zeros out (n - of_nat (chunk_size n)) s1)
      else (Inr True, s))"
  by pat_completeness auto
termination
  by (relation "measure (\<lambda>(out, n, s). unat n)")
    (auto simp: unat_minus_chunk chunk_size_pos unat_gt_0)

declare write_zeros.simps [simp del]

text \<open>The inner loop over one run; None is \<open>return false\<close>, otherwise what remains to be copied.\<close>

function copy_run :: "atomic_file \<Rightarrow> u64 \<Rightarrow> u64 \<Rightarrow> u64 \<Rightarrow> (runtime_error, u64 option) io" where
  "copy_run out to_copy source_offset remaining s =
     (if to_copy > 0 then
        (case read_exact_at (chunk_size to_copy) source_offset s of
           (None, s1) \<Rightarrow> (Inr None, s1)
         | (Some d, s1) \<Rightarrow>
             (case write_atomic out d s1 of
                (Inl e, s2) \<Rightarrow> (Inl e, s2)
              | (Inr u, s2) \<Rightarrow>
                  copy_run out (to_copy - of_nat (chunk_size to_copy)) (source_offset + of_nat (chunk_size to_copy))
                    (remaining - of_nat (chunk_size to_copy)) s2))
      else (Inr (Some remaining), s))"
  by pat_completeness auto
termination
  by (relation "measure (\<lambda>(out, n, off, rem, s). unat n)")
    (auto simp: unat_minus_chunk chunk_size_pos unat_gt_0)

declare copy_run.simps [simp del]

fun copy_runs :: "atomic_file \<Rightarrow> u64 \<Rightarrow> data_run list \<Rightarrow> u64 \<Rightarrow> (runtime_error, bool) io" where
  "copy_runs out cluster_size [] remaining s = (Inr (remaining = 0), s)"
| "copy_runs out cluster_size (run # runs) remaining s =
     (if remaining = 0 then (Inr True, s)
      else
        (case checked_mul (cluster_count run) cluster_size ''data run size'' of
           Inl e \<Rightarrow> (Inl e, s)
         | Inr run_bytes \<Rightarrow>
             (let to_copy = min remaining run_bytes in
              if sparse run then
                (case write_zeros out to_copy s of
                   (Inl e, s1) \<Rightarrow> (Inl e, s1)
                 | (Inr ok, s1) \<Rightarrow>
                     if \<not> ok then (Inr False, s1) else copy_runs out cluster_size runs (remaining - to_copy) s1)
              else
                (case checked_mul (lcn run) cluster_size ''data run offset'' of
                   Inl e \<Rightarrow> (Inl e, s)
                 | Inr source_offset \<Rightarrow>
                     (case copy_run out to_copy source_offset remaining s of
                        (Inl e, s1) \<Rightarrow> (Inl e, s1)
                      | (Inr None, s1) \<Rightarrow> (Inr False, s1)
                      | (Inr (Some remaining'), s1) \<Rightarrow> copy_runs out cluster_size runs remaining' s1)))))"

definition copy_nonresident ::
  "data_attribute \<Rightarrow> u64 \<Rightarrow> u64 \<Rightarrow> atomic_file \<Rightarrow> (runtime_error, bool) io" where
  "copy_nonresident data cluster_size bytes_to_copy out =
     copy_runs out cluster_size (da_runs data) bytes_to_copy"

section \<open>Recovering one file\<close>

definition recover_body ::
  "data_attribute \<Rightarrow> u64 \<Rightarrow> atomic_file \<Rightarrow> os \<Rightarrow> (runtime_error + bool) \<times> atomic_file \<times> os" where
  "recover_body data cluster_size out s =
     (let bytes_to_copy = da_real_size data in
      if da_resident data then
        (let count = min (unat bytes_to_copy) (length (da_resident_data data)) in
         case write_atomic out (take count (da_resident_data data)) s of
           (Inl e, s1) \<Rightarrow> (Inl e, out, s1)
         | (Inr u, s1) \<Rightarrow>
             if count \<noteq> unat bytes_to_copy then (Inr False, out, s1)
             else (case commit_atomic out s1 of
                     (Inl e, out', s2) \<Rightarrow> (Inl e, out', s2)
                   | (Inr u, out', s2) \<Rightarrow> (Inr True, out', s2)))
      else
        (case copy_nonresident data cluster_size bytes_to_copy out s of
           (Inl e, s1) \<Rightarrow> (Inl e, out, s1)
         | (Inr False, s1) \<Rightarrow> (Inr False, out, s1)
         | (Inr True, s1) \<Rightarrow>
             (case commit_atomic out s1 of
                (Inl e, out', s2) \<Rightarrow> (Inl e, out', s2)
              | (Inr u, out', s2) \<Rightarrow> (Inr True, out', s2))))"

definition recover_file ::
  "stored_record \<Rightarrow> bytes \<Rightarrow> u64 \<Rightarrow> path \<Rightarrow> bool \<Rightarrow> (runtime_error, bool) io" where
  "recover_file record mft_bytes cluster_size path ov s =
     (case data_attributes mft_bytes of
        OutOfBounds \<Rightarrow> (Inl MemoryFault, s)
      | Got [] \<Rightarrow> (Inr False, s)
      | Got (data # rest) \<Rightarrow>
          if sr_real_size record \<noteq> 0 \<and> sr_real_size record < da_real_size data then (Inr False, s)
          else with_atomic_file path ov (recover_body data cluster_size) s)"

end
