(* ===== verification/RecoverContent.thy ===== *)
theory RecoverContent
  imports RecoverData
begin

text \<open>
  What \<open>recover_file\<close> of \<open>src/Recover.cpp\<close> writes, against a reference that reads the stream off
  the source image: the first bytes of its runs, holes as zeros, up to the stream's size.
\<close>

section \<open>The reference\<close>

fun runs_content :: "bytes \<Rightarrow> nat \<Rightarrow> data_run list \<Rightarrow> nat \<Rightarrow> bytes option" where
  "runs_content img cluster [] n = (if n = 0 then Some [] else None)"
| "runs_content img cluster (r # rs) n =
     (if n = 0 then Some []
      else
        (let m = min n (unat (cluster_count r) * cluster); off = unat (lcn r) * cluster in
         if sparse r then map_option ((@) (zeros m)) (runs_content img cluster rs (n - m))
         else if m = 0 \<or> off + m \<le> length img
         then map_option ((@) (sub_bytes img off m)) (runs_content img cluster rs (n - m))
         else None))"

definition stream_content :: "bytes \<Rightarrow> nat \<Rightarrow> data_attribute \<Rightarrow> bytes option" where
  "stream_content img cluster data =
     (if da_resident data
      then (if unat (da_real_size data) \<le> length (da_resident_data data)
            then Some (take (unat (da_real_size data)) (da_resident_data data)) else None)
      else runs_content img cluster (da_runs data) (unat (da_real_size data)))"

lemma runs_content_length: "runs_content img cluster rs n = Some c \<Longrightarrow> length c = n"
proof (induction rs arbitrary: n c)
  case (Cons r rs)
  show ?case
  proof (cases "n = 0")
    case False
    let ?m = "min n (unat (cluster_count r) * cluster)"
    have l: "length (sub_bytes img off m) = m" if "m = 0 \<or> off + m \<le> length img" for off m
      using that by (auto simp: sub_bytes_def)
    define m where "m = ?m"
    have "m \<le> n" by (simp add: m_def)
    have z: "sub_bytes img off 0 = []" for off by (simp add: sub_bytes_def)
    obtain x d where "c = x @ d" "length x = m" "runs_content img cluster rs (n - m) = Some d"
      using Cons.prems False l [of m "unat (lcn r) * cluster"]
      by (auto simp: Let_def m_def [symmetric] z split: if_splits)
    with Cons.IH \<open>m \<le> n\<close> show ?thesis by simp
  qed (use Cons.prems in simp)
qed (simp split: if_splits)

lemma stream_content_length: "stream_content img cluster data = Some c \<Longrightarrow> length c = unat (da_real_size data)"
  by (auto simp: stream_content_def runs_content_length split: if_splits)

section \<open>The copying loops\<close>

lemma checked_mul_eq:
  "checked_mul a b l = (if unat a * unat b < 2 ^ 64 then Inr (a * b) else Inl (SizeOverflow l))"
proof (cases "b = 0")
  case True
  then show ?thesis by (simp add: checked_mul_def)
next
  case False
  then have b: "0 < unat b" by (simp add: unat_gt_0)
  have "unat ((- 1) div b) = (2 ^ 64 - 1) div unat b"
    by (simp add: unat_div unsigned_minus_1_eq_mask mask_eq_exp_minus_1)
  then have "a > (- 1) div b \<longleftrightarrow> (2 ^ 64 - 1) div unat b < unat a" by (simp add: word_less_nat_alt)
  also have "\<dots> \<longleftrightarrow> \<not> unat a * unat b < 2 ^ 64"
    using b by (subst div_less_iff_less_mult) auto
  finally show ?thesis using False by (simp add: checked_mul_def)
qed

lemma unat_mul: "unat a * unat b < 2 ^ 64 \<Longrightarrow> unat (a * b :: u64) = unat a * unat b"
  by (simp add: unat_word_ariths)

abbreviation owning :: "atomic_file \<Rightarrow> nat \<Rightarrow> bytes \<Rightarrow> os \<Rightarrow> bool" where
  "owning f k c s \<equiv> owns (partial_path f) (af_fd f) k c s"

text \<open>What a writer into an open output may do: append something to it, touching nothing else.\<close>

definition appends :: "atomic_file \<Rightarrow> nat \<Rightarrow> bytes \<Rightarrow> os \<Rightarrow> bytes \<Rightarrow> os \<Rightarrow> bool" where
  "appends f k c s d s' \<longleftrightarrow> owning f k (c @ d) s' \<and> preserved {} k s s'"

lemma appends_trans:
  "appends f k c s d s1 \<Longrightarrow> appends f k (c @ d) s1 e s2 \<Longrightarrow> appends f k c s (d @ e) s2"
  using preserved_trans0 by (auto simp: appends_def)

lemma appends_image: "appends f k c s d s' \<Longrightarrow> source_image s' = source_image s"
  by (simp add: appends_def preserved_def)

lemma owning_wf: "owning f k c s \<Longrightarrow> wf_os s"
  by (simp add: owns_def owned_def)

lemma write_atomic_appends:
  assumes "owning f k c s" "write_atomic f x s = (r, s')"
  shows "\<exists>d. appends f k c s d s' \<and> (r = Inr () \<longrightarrow> d = x)"
  using write_loop_effect [OF assms(1) assms(2) [unfolded write_atomic_def]] by (auto simp: appends_def)

lemma extended_appends: "owning f k c s \<Longrightarrow> extended s s' \<Longrightarrow> wf_os s' \<Longrightarrow> appends f k c s [] s'"
  using owns_extended by (auto simp: appends_def extended_preserved)

lemma zeros_add: "zeros (m + n) = zeros m @ zeros n"
  by (simp add: zeros_def replicate_add)

lemma write_zeros_appends:
  assumes "owning f k c s" "write_zeros f n s = (r, s')"
  shows "\<exists>d. appends f k c s d s' \<and> (\<forall>ok. r = Inr ok \<longrightarrow> ok \<and> d = zeros (unat n))"
  using assms
proof (induction f n s arbitrary: c rule: write_zeros.induct)
  case (1 f n s)
  show ?case
  proof (cases "n > 0")
    case True
    obtain r1 s1 where w: "write_atomic f (zeros (chunk_size n)) s = (r1, s1)"
      by (cases "write_atomic f (zeros (chunk_size n)) s")
    obtain d where d: "appends f k c s d s1" "r1 = Inr () \<longrightarrow> d = zeros (chunk_size n)"
      using write_atomic_appends [OF "1.prems"(1) w] by blast
    show ?thesis
    proof (cases r1)
      case (Inl e)
      then show ?thesis using "1.prems"(2) True w d by (auto simp: write_zeros.simps [of f n s])
    next
      case (Inr u)
      then have r: "write_zeros f (n - of_nat (chunk_size n)) s1 = (r, s')"
        using "1.prems"(2) True w by (simp add: write_zeros.simps [of f n s])
      have "owning f k (c @ d) s1" using d(1) by (simp add: appends_def)
      from "1.IH" [OF True w [symmetric] Inr this r] obtain e where
        e: "appends f k (c @ d) s1 e s'" "\<forall>ok. r = Inr ok \<longrightarrow> ok \<and> e = zeros (unat n - chunk_size n)"
        by (auto simp: unat_minus_chunk)
      have "zeros (unat n) = zeros (chunk_size n) @ zeros (unat n - chunk_size n)"
        using zeros_add [of "chunk_size n" "unat n - chunk_size n"] chunk_size_le [of n] by simp
      then show ?thesis using appends_trans [OF d(1) e(1)] e(2) d(2) Inr by auto
    qed
  next
    case False
    then have "r = Inr True" "s' = s" "n = 0" using "1.prems"(2) by (simp_all add: write_zeros.simps [of f 0 s] word_gt_0)
    then show ?thesis using "1.prems"(1) by (intro exI [of _ "[]"]) (simp add: appends_def zeros_def)
  qed
qed

lemma copy_run_appends:
  assumes "owning f k c s" "copy_run f n off rem s = (r, s')"
  shows "\<exists>d. appends f k c s d s' \<and> (\<forall>rem'. r = Inr (Some rem') \<longrightarrow>
     d = sub_bytes (source_image s) (unat off) (unat n) \<and> (n = 0 \<or> unat off + unat n \<le> length (source_image s))
     \<and> rem' = rem - n)"
  using assms
proof (induction f n off rem s arbitrary: c rule: copy_run.induct)
  case (1 f n off rem s)
  show ?case
  proof (cases "n > 0")
    case True
    let ?m = "chunk_size n"
    obtain r1 s1 where rd: "read_exact_at ?m off s = (r1, s1)" by (cases "read_exact_at ?m off s")
    have a1: "appends f k c s [] s1"
      using extended_appends [OF "1.prems"(1)] read_exact_at_effect [OF owning_wf [OF "1.prems"(1)] rd] by blast
    show ?thesis
    proof (cases r1)
      case None
      then show ?thesis using "1.prems"(2) True rd a1 by (auto simp: copy_run.simps [of f n off rem s])
    next
      case (Some x)
      have "?m \<le> 2 ^ 63" using chunk_size_le(2) [of n] by (simp add: BufferSize_def)
      with read_exact_at_Some [OF owning_wf [OF "1.prems"(1)] rd [unfolded Some] chunk_size_pos [OF True]]
      have x: "unat off < 2 ^ 63" "x = sub_bytes (source_image s) (unat off) ?m" "unat off + ?m \<le> length (source_image s)" by auto
      obtain r2 s2 where w: "write_atomic f x s1 = (r2, s2)" by (cases "write_atomic f x s1")
      have "owning f k c s1" using a1 by (simp add: appends_def)
      then obtain d where d: "appends f k c s1 d s2" "r2 = Inr () \<longrightarrow> d = x"
        using write_atomic_appends [OF _ w] by blast
      have a2: "appends f k c s d s2" using appends_trans [of f k c s "[]" s1 d s2] a1 d(1) by simp
      show ?thesis
      proof (cases r2)
        case (Inl e)
        then show ?thesis using "1.prems"(2) True rd Some w a2 by (auto simp: copy_run.simps [of f n off rem s])
      next
        case (Inr u)
        then have r: "copy_run f (n - of_nat ?m) (off + of_nat ?m) (rem - of_nat ?m) s2 = (r, s')"
          using "1.prems"(2) True rd Some w by (simp add: copy_run.simps [of f n off rem s])
        have off: "unat (off + of_nat ?m) = unat off + ?m"
          using x(1) chunk_size_le(2) [of n] by (intro unat_add_small) (simp add: BufferSize_def)
        have o2: "owning f k (c @ d) s2" using a2 by (simp add: appends_def)
        obtain e where e: "appends f k (c @ d) s2 e s'"
          "\<forall>rem'. r = Inr (Some rem') \<longrightarrow> e = sub_bytes (source_image s) (unat off + ?m) (unat n - ?m)
             \<and> (n - of_nat ?m = 0 \<or> unat off + ?m + (unat n - ?m) \<le> length (source_image s)) \<and> rem' = rem - n"
          using "1.IH" [OF True rd [symmetric] Some w [symmetric] Inr o2 r]
          by (auto simp: off unat_minus_chunk appends_image [OF a2])
        have "sub_bytes (source_image s) (unat off) (unat n) = x @ sub_bytes (source_image s) (unat off + ?m) (unat n - ?m)"
          using sub_bytes_extend [of "source_image s" "unat off" ?m "unat n - ?m"] chunk_size_le(1) [of n] x(2) by simp
        moreover have "unat off + unat n \<le> length (source_image s)"
          if "n - of_nat ?m = 0 \<or> unat off + ?m + (unat n - ?m) \<le> length (source_image s)"
          using that x(3) unat_minus_chunk [of n] chunk_size_le(1) [of n] by auto
        moreover have "appends f k c s (d @ e) s'" by (rule appends_trans [OF a2 e(1)])
        moreover have "d = x" using d(2) Inr by simp
        ultimately show ?thesis using e(2) by (intro exI [of _ "d @ e"] conjI allI impI) (simp, metis, metis, metis)
      qed
    qed
  next
    case False
    then have "r = Inr (Some rem)" "s' = s" "n = 0" using "1.prems"(2) by (simp_all add: copy_run.simps [of f 0 off rem s] word_gt_0)
    then show ?thesis using "1.prems"(1) by (intro exI [of _ "[]"]) (simp add: appends_def sub_bytes_def)
  qed
qed

lemma copy_runs_appends:
  assumes "owning f k c s" "copy_runs f cs runs rem s = (r, s')"
  shows "\<exists>d. appends f k c s d s' \<and> (r = Inr True \<longrightarrow> runs_content (source_image s) (unat cs) runs (unat rem) = Some d)"
  using assms
proof (induction runs arbitrary: c s rem)
  case Nil
  have "appends f k c s [] s" using Nil.prems(1) by (simp add: appends_def)
  then show ?case using Nil.prems(2) by (auto simp: unat_eq_0 intro!: exI [of _ "[]"])
next
  case (Cons run runs)
  have nop: "appends f k c s [] s" using Cons.prems(1) by (simp add: appends_def)
  show ?case
  proof (cases "rem = 0")
    case True
    then show ?thesis using Cons.prems(2) nop by auto
  next
    case False
    then have n0: "unat rem \<noteq> 0" by (simp add: unat_eq_0)
    show ?thesis
    proof (cases "unat (cluster_count run) * unat cs < 2 ^ 64")
      case fits: True
      let ?n = "min rem (cluster_count run * cs)"
      have un: "unat ?n = min (unat rem) (unat (cluster_count run) * unat cs)"
        using unat_mul [OF fits] by (simp add: min_def word_le_nat_alt)
      have ur: "unat (rem - ?n) = unat rem - unat ?n" by (simp add: unat_sub min_def)
      show ?thesis
      proof (cases "sparse run")
        case True
        obtain r1 s1 where w: "write_zeros f ?n s = (r1, s1)" by (cases "write_zeros f ?n s")
        obtain d where d: "appends f k c s d s1" "\<forall>ok. r1 = Inr ok \<longrightarrow> ok \<and> d = zeros (unat ?n)"
          using write_zeros_appends [OF Cons.prems(1) w] by blast
        show ?thesis
        proof (cases r1)
          case (Inl e)
          then show ?thesis using Cons.prems(2) False fits True w d(1) by (auto simp: checked_mul_eq Let_def)
        next
          case (Inr ok)
          then have "copy_runs f cs runs (rem - ?n) s1 = (r, s')"
            using Cons.prems(2) False fits True w d(2) by (simp add: checked_mul_eq Let_def)
          moreover have "owning f k (c @ d) s1" using d(1) by (simp add: appends_def)
          ultimately obtain e where e: "appends f k (c @ d) s1 e s'"
            "r = Inr True \<longrightarrow> runs_content (source_image s1) (unat cs) runs (unat (rem - ?n)) = Some e"
            using Cons.IH by blast
          then show ?thesis using appends_trans [OF d(1) e(1)] d(2) Inr n0 True appends_image [OF d(1)]
            by (intro exI [of _ "d @ e"]) (simp add: Let_def un ur)
        qed
      next
        case dense: False
        show ?thesis
        proof (cases "unat (lcn run) * unat cs < 2 ^ 64")
          case True
          note uo = unat_mul [OF True]
          obtain r1 s1 where w: "copy_run f ?n (lcn run * cs) rem s = (r1, s1)"
            by (cases "copy_run f ?n (lcn run * cs) rem s")
          obtain d where d: "appends f k c s d s1" "\<forall>rem'. r1 = Inr (Some rem') \<longrightarrow>
              d = sub_bytes (source_image s) (unat (lcn run * cs)) (unat ?n)
              \<and> (?n = 0 \<or> unat (lcn run * cs) + unat ?n \<le> length (source_image s)) \<and> rem' = rem - ?n"
            using copy_run_appends [OF Cons.prems(1) w] by blast
          consider "r \<noteq> Inr True" "s' = s1" | rem' where "r1 = Inr (Some rem')" "copy_runs f cs runs rem' s1 = (r, s')"
            using Cons.prems(2) False fits dense True w
            by (cases r1) (auto simp: checked_mul_eq Let_def split: option.splits)
          then show ?thesis
          proof cases
            case 1
            then show ?thesis using d(1) by blast
          next
            case 2
            note d2 = d(2) [rule_format, OF 2(1)]
            have z: "?n = 0 \<longleftrightarrow> unat ?n = 0" by (simp add: unat_eq_0)
            have "owning f k (c @ d) s1" using d(1) by (simp add: appends_def)
            with Cons.IH 2(2) obtain e where e: "appends f k (c @ d) s1 e s'"
              "r = Inr True \<longrightarrow> runs_content (source_image s1) (unat cs) runs (unat rem') = Some e" by blast
            have "runs_content (source_image s) (unat cs) (run # runs) (unat rem) = Some (d @ e)" if t: "r = Inr True"
              using e(2) t d2 n0 dense appends_image [OF d(1)] unfolding z un uo
              by (simp add: Let_def ur un)
            then show ?thesis using appends_trans [OF d(1) e(1)] by blast
          qed
        next
          case False
          then show ?thesis using Cons.prems(2) \<open>rem \<noteq> 0\<close> fits dense nop by (auto simp: checked_mul_eq Let_def)
        qed
      qed
    next
      case False
      then show ?thesis using Cons.prems(2) \<open>rem \<noteq> 0\<close> nop by (auto simp: checked_mul_eq)
    qed
  qed
qed

section \<open>The body and the file\<close>

text \<open>What may be published under the final name: the whole stream.\<close>

lemma stream_content_resident:
  "da_resident data \<Longrightarrow> unat (da_real_size data) \<le> length (da_resident_data data) \<Longrightarrow>
     stream_content img cluster data = Some (take (unat (da_real_size data)) (da_resident_data data))"
  by (simp add: stream_content_def)

lemma recover_body_outcome:
  assumes "owning f k [] s" "\<not> committed f" "partial_path f \<noteq> final_path f"
    and "recover_body data cs f s = (r, f', s')"
  shows "body_outcome (\<lambda>r. r = Inr True) (\<lambda>c. stream_content (source_image s) (unat cs) data = Some c) r f f' k s s'"
proof -
  have left: "body_outcome (\<lambda>r. r = Inr True) C r f f' k s s'"
    if "r \<noteq> Inr True" "f' = f" "appends f k [] s d s'" for C d
    using that unfolding body_outcome_def appends_def by auto
  have committed: "body_outcome (\<lambda>r. r = Inr True) C r f f' k s s'"
    if "appends f k [] s d s1" "C d" "commit_atomic f s1 = (rc, f', s')" "r = Inr True \<longleftrightarrow> rc = Inr ()" for C d s1 rc
  proof -
    have "owning f k d s1" "preserved {} k s s1" using that(1) by (simp_all add: appends_def)
    from commit_body [OF this(1) assms(2,3) that(3)] this(2) that(2,4) show ?thesis
      unfolding body_outcome_def by blast
  qed
  show ?thesis
  proof (cases "da_resident data")
    case True
    define n where "n = min (unat (da_real_size data)) (length (da_resident_data data))"
    obtain r1 s1 where w: "write_atomic f (take n (da_resident_data data)) s = (r1, s1)"
      by (cases "write_atomic f (take n (da_resident_data data)) s")
    obtain d where d: "appends f k [] s d s1" "r1 = Inr () \<longrightarrow> d = take n (da_resident_data data)"
      using write_atomic_appends [OF assms(1) w] by blast
    obtain rc f2 s2 where m: "commit_atomic f s1 = (rc, f2, s2)" by (cases "commit_atomic f s1")
    consider "r \<noteq> Inr True" "f' = f" "s' = s1"
      | rc where "r1 = Inr ()" "n = unat (da_real_size data)" "commit_atomic f s1 = (rc, f', s')" "r = Inr True \<longleftrightarrow> rc = Inr ()"
    proof (cases r1)
      case (Inl e)
      then show thesis using that(1) assms(4) True w by (auto simp: recover_body_def Let_def n_def [symmetric])
    next
      case (Inr u)
      show thesis
      proof (cases "n = unat (da_real_size data)")
        case t: True
        show thesis using that(2) [of rc] assms(4) True w Inr t m
          by (cases rc) (auto simp: recover_body_def Let_def n_def [symmetric])
      next
        case f: False
        then show thesis using that(1) assms(4) True w Inr by (auto simp: recover_body_def Let_def n_def [symmetric])
      qed
    qed
    then show ?thesis
    proof cases
      case 1
      then show ?thesis using left d(1) by blast
    next
      case 2
      have "unat (da_real_size data) \<le> length (da_resident_data data)"
        using 2(2) unfolding n_def by (metis min.cobounded2)
      moreover have "d = take (unat (da_real_size data)) (da_resident_data data)" using 2(1,2) d(2) by simp
      ultimately have "stream_content (source_image s) (unat cs) data = Some d"
        using stream_content_resident [OF True] by blast
      then show ?thesis by (rule committed [OF d(1) _ 2(3,4)])
    qed
  next
    case False
    obtain r1 s1 where w: "copy_runs f cs (da_runs data) (da_real_size data) s = (r1, s1)"
      by (cases "copy_runs f cs (da_runs data) (da_real_size data) s")
    obtain d where d: "appends f k [] s d s1"
      "r1 = Inr True \<longrightarrow> runs_content (source_image s) (unat cs) (da_runs data) (unat (da_real_size data)) = Some d"
      using copy_runs_appends [OF assms(1) w] by auto
    obtain rc f2 s2 where m: "commit_atomic f s1 = (rc, f2, s2)" by (cases "commit_atomic f s1")
    consider "r \<noteq> Inr True" "f' = f" "s' = s1"
      | rc where "r1 = Inr True" "commit_atomic f s1 = (rc, f', s')" "r = Inr True \<longleftrightarrow> rc = Inr ()"
    proof (cases "r1 = Inr True")
      case True
      then show thesis using that(2) [of rc] assms(4) False w m
        by (cases rc) (auto simp: recover_body_def Let_def copy_nonresident_def)
    next
      case f: False
      then show thesis using that(1) assms(4) False w
        by (cases r1) (auto simp: recover_body_def Let_def copy_nonresident_def)
    qed
    then show ?thesis
    proof cases
      case 1
      then show ?thesis using left d(1) by blast
    next
      case 2
      then have "stream_content (source_image s) (unat cs) data = Some d" using d(2) False by (simp add: stream_content_def)
      then show ?thesis by (intro committed [OF d(1) _ 2(2,3)])
    qed
  qed
qed

section \<open>Undisturbed calls\<close>

lemma write_atomic_calm:
  assumes "owning f k c s" "script s = []" "write_atomic f x s = (r, s')"
  shows "r = Inr () \<and> script s' = []"
  using write_all_calm [of f k c s "[x]" r s'] assms by (cases r) simp_all

lemma write_zeros_calm:
  assumes "owning f k c s" "script s = []" "write_zeros f n s = (r, s')"
  shows "r = Inr True \<and> script s' = []"
  using assms
proof (induction f n s arbitrary: c rule: write_zeros.induct)
  case (1 f n s)
  show ?case
  proof (cases "n > 0")
    case True
    obtain r1 s1 where w: "write_atomic f (zeros (chunk_size n)) s = (r1, s1)"
      by (cases "write_atomic f (zeros (chunk_size n)) s")
    have c: "r1 = Inr ()" "script s1 = []" using write_atomic_calm [OF "1.prems"(1,2) w] by auto
    then have r: "write_zeros f (n - of_nat (chunk_size n)) s1 = (r, s')"
      using "1.prems"(3) True w by (simp add: write_zeros.simps [of f n s])
    obtain d where "owning f k (c @ d) s1" using write_atomic_appends [OF "1.prems"(1) w] by (auto simp: appends_def)
    from "1.IH" [OF True w [symmetric] c(1) this c(2) r] show ?thesis .
  next
    case False
    then have "n = 0" by (simp add: word_gt_0)
    then show ?thesis using "1.prems" by (simp add: write_zeros.simps [of f 0 s])
  qed
qed

lemma copy_run_calm:
  assumes "owning f k c s" "script s = []" "copy_run f n off rem s = (r, s')"
    and "length (source_image s) < 2 ^ 63"
  shows "r = Inr (if n = 0 \<or> unat off + unat n \<le> length (source_image s) then Some (rem - n) else None)
    \<and> script s' = []"
  using assms
proof (induction f n off rem s arbitrary: c rule: copy_run.induct)
  case (1 f n off rem s)
  show ?case
  proof (cases "n > 0")
    case True
    let ?m = "chunk_size n"
    have m: "?m \<le> 2 ^ 63" "?m \<le> unat n" "0 < ?m" "n \<noteq> 0"
      using chunk_size_le [of n] chunk_size_pos [OF True] True by (simp_all add: BufferSize_def word_gt_0)
    note rd = read_exact_at_calm [OF "1.prems"(2) m(3,1), of off]
    show ?thesis
    proof (cases "unat off + ?m \<le> length (source_image s)")
      case False
      then have "copy_run f n off rem s = (Inr None, s)"
        using True rd by (simp add: copy_run.simps [of f n off rem s])
      then show ?thesis using False m "1.prems" by auto
    next
      case ok: True
      then have o: "unat off < 2 ^ 63" using "1.prems"(4) by simp
      let ?x = "sub_bytes (source_image s) (unat off) ?m"
      have rd': "read_exact_at ?m off s = (Some ?x, s)" using rd ok o by simp
      obtain r2 s2 where w: "write_atomic f ?x s = (r2, s2)" by (cases "write_atomic f ?x s")
      have c2: "r2 = Inr ()" "script s2 = []" using write_atomic_calm [OF "1.prems"(1,2) w] by auto
      obtain d where d: "appends f k c s d s2" using write_atomic_appends [OF "1.prems"(1) w] by blast
      then have o2: "owning f k (c @ d) s2" and im: "source_image s2 = source_image s"
        using appends_image by (auto simp: appends_def)
      have r: "copy_run f (n - of_nat ?m) (off + of_nat ?m) (rem - of_nat ?m) s2 = (r, s')"
        using "1.prems"(3) True rd' w c2 by (simp add: copy_run.simps [of f n off rem s])
      have off: "unat (off + of_nat ?m) = unat off + ?m"
        using o m by (intro unat_add_small) simp
      have z: "n - of_nat ?m = 0 \<longleftrightarrow> unat n = ?m"
        using unat_minus_chunk [of n] m(2) by (simp add: unat_eq_0 [symmetric])
      have "length (source_image s2) < 2 ^ 63" using "1.prems"(4) im by simp
      from "1.IH" [OF True rd' [symmetric] refl w [symmetric] c2(1) o2 c2(2) r this]
      show ?thesis using ok m off z unfolding im unat_minus_chunk by auto
    qed
  next
    case False
    then have "n = 0" by (simp add: word_gt_0)
    then show ?thesis using "1.prems" by (simp add: copy_run.simps [of f 0 off rem s])
  qed
qed

definition runs_fit :: "u64 \<Rightarrow> data_run list \<Rightarrow> bool" where
  "runs_fit cs runs \<longleftrightarrow> (\<forall>run \<in> set runs. unat (cluster_count run) * unat cs < 2 ^ 64
     \<and> (\<not> sparse run \<longrightarrow> unat (lcn run) * unat cs < 2 ^ 64))"

lemma copy_runs_calm:
  assumes "owning f k c s" "script s = []" "copy_runs f cs runs rem s = (r, s')"
    and "length (source_image s) < 2 ^ 63" "runs_fit cs runs"
  shows "r = Inr (runs_content (source_image s) (unat cs) runs (unat rem) \<noteq> None) \<and> script s' = []"
  using assms
proof (induction runs arbitrary: c s rem)
  case Nil
  then show ?case by (auto simp: unat_eq_0)
next
  case (Cons run runs)
  show ?case
  proof (cases "rem = 0")
    case True
    then show ?thesis using Cons.prems by auto
  next
    case False
    then have n0: "unat rem \<noteq> 0" by (simp add: unat_eq_0)
    have fits: "unat (cluster_count run) * unat cs < 2 ^ 64" and fr: "runs_fit cs runs"
      and lfits: "\<not> sparse run \<Longrightarrow> unat (lcn run) * unat cs < 2 ^ 64"
      using Cons.prems(5) by (simp_all add: runs_fit_def)
    let ?n = "min rem (cluster_count run * cs)"
    have un: "unat ?n = min (unat rem) (unat (cluster_count run) * unat cs)"
      using unat_mul [OF fits] by (simp add: min_def word_le_nat_alt)
    have ur: "unat (rem - ?n) = unat rem - unat ?n" by (simp add: unat_sub min_def)
    have z: "?n = 0 \<longleftrightarrow> unat ?n = 0" by (simp add: unat_eq_0)
    show ?thesis
    proof (cases "sparse run")
      case True
      obtain r1 s1 where w: "write_zeros f ?n s = (r1, s1)" by (cases "write_zeros f ?n s")
      have c1: "r1 = Inr True" "script s1 = []" using write_zeros_calm [OF Cons.prems(1,2) w] by auto
      obtain d where d: "appends f k c s d s1" using write_zeros_appends [OF Cons.prems(1) w] by blast
      then have o1: "owning f k (c @ d) s1" and im: "source_image s1 = source_image s"
        using appends_image by (auto simp: appends_def)
      have "copy_runs f cs runs (rem - ?n) s1 = (r, s')"
        using Cons.prems(3) False fits True w c1 by (simp add: checked_mul_eq Let_def)
      from Cons.IH [OF o1 c1(2) this _ fr] Cons.prems(4) n0 True show ?thesis
        unfolding im by (simp add: Let_def un ur)
    next
      case dense: False
      note uo = unat_mul [OF lfits [OF dense]]
      obtain r1 s1 where w: "copy_run f ?n (lcn run * cs) rem s = (r1, s1)"
        by (cases "copy_run f ?n (lcn run * cs) rem s")
      note c1 = copy_run_calm [OF Cons.prems(1,2) w Cons.prems(4)]
      obtain d where d: "appends f k c s d s1" using copy_run_appends [OF Cons.prems(1) w] by blast
      then have o1: "owning f k (c @ d) s1" and im: "source_image s1 = source_image s"
        using appends_image by (auto simp: appends_def)
      show ?thesis
      proof (cases "?n = 0 \<or> unat (lcn run * cs) + unat ?n \<le> length (source_image s)")
        case True
        then have r1: "r1 = Inr (Some (rem - ?n))" "script s1 = []" using c1 by auto
        have r: "copy_runs f cs runs (rem - ?n) s1 = (r, s')"
          using Cons.prems(3) False fits lfits [OF dense] dense w r1 by (simp add: checked_mul_eq Let_def)
        from Cons.IH [OF o1 r1(2) r _ fr] Cons.prems(4) n0 dense True show ?thesis
          unfolding im z un uo by (simp add: Let_def un ur)
      next
        case none: False
        then have "r1 = Inr None" "script s1 = []" using c1 by auto
        then have "r = Inr False \<and> script s' = []"
          using Cons.prems(3) False fits lfits [OF dense] dense w by (simp add: checked_mul_eq Let_def)
        then show ?thesis using none n0 dense unfolding z un uo by (auto simp: Let_def min_def split: if_splits)
      qed
    qed
  qed
qed


lemma recover_body_calm:
  assumes "owning f k [] s" "script s = []" "length (source_image s) < 2 ^ 63"
    and "da_resident data \<or> runs_fit cs (da_runs data)"
    and "\<not> committed f" "\<And>s1 d. owning f k d s1 \<Longrightarrow> preserved {} k s s1
          \<Longrightarrow> overwrite f \<and> node_at s1 (final_path f) \<noteq> Some Directory \<or> entries s1 (final_path f) = None"
    and "recover_body data cs f s = (r, f', s')"
  shows "r = Inr (stream_content (source_image s) (unat cs) data \<noteq> None)"
proof -
  have commits: "rc = Inr ()" if "appends f k [] s d s1" "script s1 = []" "commit_atomic f s1 = (rc, f2, s2)" for d s1 rc f2 s2
    using commit_atomic_calm [OF _ that(2) assms(6) that(3)] that(1) by (auto simp: appends_def)
  show ?thesis
  proof (cases "da_resident data")
    case True
    define n where "n = min (unat (da_real_size data)) (length (da_resident_data data))"
    obtain r1 s1 where w: "write_atomic f (take n (da_resident_data data)) s = (r1, s1)"
      by (cases "write_atomic f (take n (da_resident_data data)) s")
    have c: "r1 = Inr ()" "script s1 = []" using write_atomic_calm [OF assms(1,2) w] by auto
    obtain d where d: "appends f k [] s d s1" using write_atomic_appends [OF assms(1) w] by blast
    obtain rc f2 s2 where m: "commit_atomic f s1 = (rc, f2, s2)" by (cases "commit_atomic f s1")
    have rc: "rc = Inr ()" by (rule commits [OF d c(2) m])
    have "n = unat (da_real_size data) \<longleftrightarrow> unat (da_real_size data) \<le> length (da_resident_data data)"
      by (auto simp: n_def)
    then show ?thesis
      using assms(7) True w c(1) m rc
      by (cases "n = unat (da_real_size data)") (auto simp: recover_body_def Let_def n_def [symmetric] stream_content_def)
  next
    case False
    obtain r1 s1 where w: "copy_runs f cs (da_runs data) (da_real_size data) s = (r1, s1)"
      by (cases "copy_runs f cs (da_runs data) (da_real_size data) s")
    have c: "r1 = Inr (stream_content (source_image s) (unat cs) data \<noteq> None)" "script s1 = []"
      using copy_runs_calm [OF assms(1,2) w assms(3)] assms(4) False by (auto simp: stream_content_def)
    obtain d where d: "appends f k [] s d s1" using copy_runs_appends [OF assms(1) w] by blast
    obtain rc f2 s2 where m: "commit_atomic f s1 = (rc, f2, s2)" by (cases "commit_atomic f s1")
    have rc: "rc = Inr ()" by (rule commits [OF d c(2) m])
    show ?thesis
      using assms(7) False w c(1) m rc
      by (cases "stream_content (source_image s) (unat cs) data")
        (auto simp: recover_body_def Let_def copy_nonresident_def)
  qed
qed

lemma with_atomic_file_calm:
  assumes "wf_os s" "script s = []" "available s ov path" "available s ov (path @ partial_suffix)"
    and "length (source_image s) < 2 ^ 63" "da_resident data \<or> runs_fit cs (da_runs data)"
  shows "fst (with_atomic_file path ov (recover_body data cs) s)
    = Inr (stream_content (source_image s) (unat cs) data \<noteq> None)"
  using assms(1-4)
proof (rule open_atomic_calm)
  fix f s2 k
  assume o: "open_atomic path ov s = (Inr f, s2)" "script s2 = []" "\<not> committed f" "owns (partial_path f) (af_fd f) k [] s2"
    and free: "\<And>d s3. owns (partial_path f) (af_fd f) k d s3 \<Longrightarrow> preserved {} k s2 s3 \<Longrightarrow>
       overwrite f \<and> node_at s3 (final_path f) \<noteq> Some Directory \<or> entries s3 (final_path f) = None"
  have im: "source_image s2 = source_image s"
    using open_atomic_Inr [OF assms(1) o(1)] by (auto simp: preserved_def)
  obtain r f' s3 where b: "recover_body data cs f s2 = (r, f', s3)" by (cases "recover_body data cs f s2")
  have "r = Inr (stream_content (source_image s) (unat cs) data \<noteq> None)"
    using recover_body_calm [OF o(4,2) _ assms(6) o(3) free b] assms(5) im by simp
  then show ?thesis using o(1) b by (simp add: with_atomic_file_def)
qed

end
