(* ===== verification/Fixtures.thy ===== *)
theory Fixtures
  imports MftRecord
begin

text \<open>
  Model of the record builder of the test fixtures, \<open>tests/NtfsFixtures.cpp\<close>: an encoder of
  NTFS FILE records that is independent of the parser. A \<open>std::out_of_range\<close> or
  \<open>std::length_error\<close> of the builder is \<open>None\<close>. The records it builds are the concrete
  inputs of the parser's properties, and \<open>apply_usa\<close> is the inverse of \<open>restore_usa\<close>.
\<close>

record builder =
  b_bytes :: bytes
  b_attribute_offset :: nat
  b_invalid_usa :: bool

definition UsaOffset :: nat where "UsaOffset = 0x30"
definition FirstAttributeOffset :: nat where "FirstAttributeOffset = 0x38"
definition UpdateSequence :: u16 where "UpdateSequence = 0xA55A"

definition align8 :: "nat \<Rightarrow> nat" where
  "align8 n = (n + 7) div 8 * 8"

fun put_byte_opt :: "bytes \<Rightarrow> nat \<Rightarrow> byte \<Rightarrow> bytes option" where
  "put_byte_opt bs i b = (if i < length bs then Some (bs[i := b]) else None)"

definition get_le :: "bytes \<Rightarrow> nat \<Rightarrow> 'a::len word option" where
  "get_le bs off =
     (if off + LENGTH('a) div 8 \<le> length bs then Some (le_word bs off) else None)"

text \<open>One sector of \<open>apply_usa\<close>: save the trailer in the array, overwrite it.\<close>

definition apply_usa_sector :: "nat \<Rightarrow> bytes \<Rightarrow> bytes option" where
  "apply_usa_sector sector bs =
     (let trailer = (sector + 1) * 512 - 2 in
      Option.bind (get_le bs trailer) (\<lambda>w :: u16.
      Option.bind (put_le bs (UsaOffset + 2 + sector * 2) w) (\<lambda>bs1.
        put_le bs1 trailer UpdateSequence)))"

definition apply_usa :: "bytes \<Rightarrow> bool \<Rightarrow> bytes option" where
  "apply_usa bs corrupt =
     Option.bind (put_le bs UsaOffset UpdateSequence) (\<lambda>bs0.
     Option.bind (apply_usa_sector 0 bs0) (\<lambda>bs1.
     Option.bind (apply_usa_sector 1 bs1) (\<lambda>bs2.
       Some (if corrupt then bs2[510 := bs2 ! 510 XOR 0x01] else bs2))))"

definition new_builder :: "builder option" where
  "new_builder =
     Option.bind (put_le (FILE_magic @ replicate (RecordSize - 4) 0) 0x04 (of_nat UsaOffset :: u16)) (\<lambda>b1.
     Option.bind (put_le b1 0x06 (3 :: u16)) (\<lambda>b2.
     Option.bind (put_le b2 0x10 (1 :: u16)) (\<lambda>b3.
     Option.bind (put_le b3 0x14 (of_nat FirstAttributeOffset :: u16)) (\<lambda>b4.
     Option.bind (put_le b4 0x16 (1 :: u16)) (\<lambda>b5.
     Option.bind (put_le b5 0x1C (of_nat RecordSize :: u32)) (\<lambda>b6.
     Option.bind (put_le b6 0x2C (42 :: u32)) (\<lambda>b7.
       Some \<lparr>b_bytes = b7, b_attribute_offset = FirstAttributeOffset, b_invalid_usa = False\<rparr>)))))))"

definition set_record_number :: "u32 \<Rightarrow> builder \<Rightarrow> builder option" where
  "set_record_number v b = map_option (\<lambda>bs. b\<lparr>b_bytes := bs\<rparr>) (put_le (b_bytes b) 0x2C v)"

definition set_flags :: "u16 \<Rightarrow> builder \<Rightarrow> builder option" where
  "set_flags v b = map_option (\<lambda>bs. b\<lparr>b_bytes := bs\<rparr>) (put_le (b_bytes b) 0x16 v)"

text \<open>\<open>std::copy\<close> into the record.\<close>

definition copy_at :: "bytes \<Rightarrow> nat \<Rightarrow> bytes \<Rightarrow> bytes" where
  "copy_at bs off content = take off bs @ content @ drop (off + length content) bs"

definition append_resident_attribute :: "u32 \<Rightarrow> bytes \<Rightarrow> builder \<Rightarrow> builder option" where
  "append_resident_attribute ty content b =
     (let off = b_attribute_offset b; bs = b_bytes b;
          attribute_size = align8 (24 + length content)
      in if off > length bs \<or> attribute_size + 4 > length bs - off then None
         else
           Option.bind (put_le bs off ty) (\<lambda>b1.
           Option.bind (put_le b1 (off + 4) (of_nat attribute_size :: u32)) (\<lambda>b2.
           Option.bind (put_byte_opt b2 (off + 8) 0) (\<lambda>b3.
           Option.bind (put_le b3 (off + 16) (of_nat (length content) :: u32)) (\<lambda>b4.
           Option.bind (put_le b4 (off + 20) (24 :: u16)) (\<lambda>b5.
             Some (b\<lparr>b_bytes := copy_at b5 (off + 24) content,
                     b_attribute_offset := off + attribute_size\<rparr>)))))))"

definition utf16le_bytes :: "u16 list \<Rightarrow> bytes" where
  "utf16le_bytes us = concat (map (le_bytes 2) us)"

definition add_file_name :: "u16 list \<Rightarrow> u64 \<Rightarrow> u8 \<Rightarrow> builder \<Rightarrow> builder option" where
  "add_file_name us parent_ref name_namespace b =
     (if length us > 255 then None
      else
        Option.bind (put_le (replicate 66 0) 0 parent_ref) (\<lambda>c1.
        Option.bind (put_le c1 40 (4096 :: u64)) (\<lambda>c2.
        Option.bind (put_le c2 48 (1234 :: u64)) (\<lambda>c3.
          append_resident_attribute AttributeFileName
            (c3[64 := of_nat (length us), 65 := name_namespace] @ utf16le_bytes us) b))))"

definition add_resident_data :: "bytes \<Rightarrow> builder \<Rightarrow> builder option" where
  "add_resident_data data b = append_resident_attribute AttributeData data b"

definition add_non_resident_data :: "run_spec list \<Rightarrow> u64 \<Rightarrow> builder \<Rightarrow> builder option" where
  "add_non_resident_data runs real_size b =
     (let off = b_attribute_offset b; bs = b_bytes b;
          run_bytes = encode_runs runs;
          attribute_size = align8 (64 + length run_bytes)
      in if off > length bs \<or> attribute_size + 4 > length bs - off then None
         else
           Option.bind (put_le bs off AttributeData) (\<lambda>b1.
           Option.bind (put_le b1 (off + 4) (of_nat attribute_size :: u32)) (\<lambda>b2.
           Option.bind (put_byte_opt b2 (off + 8) 1) (\<lambda>b3.
           Option.bind (put_le b3 (off + 32) (64 :: u16)) (\<lambda>b4.
           Option.bind (put_le b4 (off + 48) real_size) (\<lambda>b5.
             Some (b\<lparr>b_bytes := copy_at b5 (off + 64) run_bytes,
                     b_attribute_offset := off + attribute_size\<rparr>)))))))"

definition invalid_usa :: "builder \<Rightarrow> builder" where
  "invalid_usa b = b\<lparr>b_invalid_usa := True\<rparr>"

definition build :: "builder \<Rightarrow> bytes option" where
  "build b =
     Option.bind (put_le (b_bytes b) (b_attribute_offset b) AttributeEnd) (\<lambda>b1.
     Option.bind (put_le b1 0x18 (of_nat (b_attribute_offset b + 4) :: u32)) (\<lambda>b2.
       apply_usa b2 (b_invalid_usa b)))"

end
