(* ===== verification/UpdateSequence.thy ===== *)
theory UpdateSequence
  imports Fixtures
begin

text \<open>
  The update sequence array of a FILE record: what \<open>restore_usa\<close> of \<open>src/MftRecord.cpp\<close>
  computes on a whole record, stated on the record's segments, and its inverse, the
  \<open>apply_usa\<close> of the fixtures. A record is \<open>a @ t @ b @ t'\<close>: 510 bytes, the trailer of
  the first sector, 510 bytes, the trailer of the second sector.
\<close>

section \<open>Two-byte values and the bytes that hold them\<close>

lemma le_nat_inj: "length xs = length ys \<Longrightarrow> le_nat xs = le_nat ys \<longleftrightarrow> xs = ys"
proof (induction xs ys rule: list_induct2)
  case (Cons x xs y ys)
  have "unat x + 256 * le_nat xs = unat y + 256 * le_nat ys \<longleftrightarrow> unat x = unat y \<and> le_nat xs = le_nat ys"
  proof
    assume e: "unat x + 256 * le_nat xs = unat y + 256 * le_nat ys"
    then have "(unat x + 256 * le_nat xs) mod 256 = (unat y + 256 * le_nat ys) mod 256" by simp
    then have "unat x = unat y" using unat_byte_lt [of x] unat_byte_lt [of y] by simp
    then show "unat x = unat y \<and> le_nat xs = le_nat ys" using e by simp
  qed simp
  then show ?case using Cons by (simp add: word_unat_eq_iff)
qed simp

lemma le_bytes_le_nat:
  assumes "length xs = n" "n * 8 \<le> LENGTH('a)"
  shows "le_bytes n (of_nat (le_nat xs) :: 'a::len word) = xs"
proof -
  have "le_nat xs < 256 ^ n" using le_nat_less [of xs] assms(1) by simp
  moreover have "(256::nat) ^ n = 2 ^ (8 * n)" by (simp add: power_mult)
  moreover have "(2::nat) ^ (8 * n) \<le> 2 ^ LENGTH('a)" using assms(2) by (intro power_increasing) auto
  ultimately have "le_nat xs < 2 ^ LENGTH('a)" by linarith
  then have "unat (of_nat (le_nat xs) :: 'a word) = le_nat xs" by (simp add: unat_of_nat)
  then have "le_nat (le_bytes n (of_nat (le_nat xs) :: 'a word)) = le_nat xs"
    using \<open>le_nat xs < 256 ^ n\<close> by (simp add: le_nat_le_bytes)
  then show ?thesis using assms(1) le_nat_inj [of "le_bytes n (of_nat (le_nat xs) :: 'a word)" xs] by simp
qed

lemma le_bytes_le_word:
  assumes "off + 2 \<le> length bs"
  shows "[ucast ((le_word bs off :: u16) AND 0xFF), ucast (drop_bit 8 (le_word bs off :: u16) AND 0xFF)]
           = sub_bytes bs off 2"
proof -
  have "le_bytes 2 (le_word bs off :: u16) = sub_bytes bs off 2"
    using le_bytes_le_nat [where ?'a = 16, of "sub_bytes bs off 2" 2] assms by (simp add: le_word_def)
  moreover have "ucast (w AND 0xFF) = (ucast w :: byte)" for w :: u16
    using unat_and_mask [of w 8] by (simp add: word_unat_eq_iff unat_ucast mask_eq_exp_minus_1)
  ultimately show ?thesis by (simp add: le_bytes_def upt_rec numeral_2_eq_2)
qed

lemma le_word_u16_inj:
  assumes "off + 2 \<le> length bs" "p + 2 \<le> length cs"
  shows "(le_word bs off :: u16) = le_word cs p \<longleftrightarrow> sub_bytes bs off 2 = sub_bytes cs p 2"
proof -
  have "unat (le_word bs off :: u16) = unat (le_word cs p :: u16) \<longleftrightarrow> sub_bytes bs off 2 = sub_bytes cs p 2"
    using assms le_nat_inj [of "sub_bytes bs off 2" "sub_bytes cs p 2"] by (simp add: unat_le_word)
  then show ?thesis by (simp add: word_unat_eq_iff)
qed

lemma le_word_append:
  "off + LENGTH('a) div 8 \<le> length xs \<Longrightarrow> (le_word (xs @ ys) off :: 'a::len word) = le_word xs off"
  "length xs \<le> off \<Longrightarrow> (le_word (xs @ ys) off :: 'a::len word) = le_word ys (off - length xs)"
  by (simp_all add: le_word_def sub_bytes_append)

text \<open>Overwriting one two-byte trailer.\<close>

lemma put_trailer:
  assumes "length a = p" "length t = 2" "length r = 2"
  shows "(a @ t @ c)[p := r ! 0, p + 1 := r ! 1] = a @ r @ c"
proof -
  obtain x y where t: "t = [x, y]" using assms(2) by (metis length_0_conv length_Suc_conv numeral_2_eq_2)
  obtain z w where r: "r = [z, w]" using assms(3) by (metis length_0_conv length_Suc_conv numeral_2_eq_2)
  show ?thesis using assms(1) by (simp add: t r list_update_append)
qed

lemma usa_sector:
  assumes a: "length a = (s + 1) * 512 - 2" and t: "length t = 2"
    and u: "uo + 2 \<le> length a" "us = le_word a uo"
    and r: "uo + (s + 1) * 2 + 2 \<le> length a"
  shows "usa_loop uo us s (Suc k) (a @ t @ c) =
    (if t \<noteq> sub_bytes a uo 2 then Got (False, a @ t @ c)
     else usa_loop uo us (s + 1) k (a @ sub_bytes a (uo + (s + 1) * 2) 2 @ c))"
proof -
  let ?p = "(s + 1) * 512 - 2"
  let ?q = "uo + (s + 1) * 2"
  have cur: "read_le (a @ t @ c) ?p = Got (Some (le_word t 0 :: u16))"
    using a t by (simp add: le_reads le_word_append)
  have rep: "read_le (a @ t @ c) ?q = Got (Some (le_word a ?q :: u16))"
    using r t by (simp add: le_reads le_word_append)
  have eq: "le_word t 0 = us \<longleftrightarrow> t = sub_bytes a uo 2"
    using le_word_u16_inj [of 0 t uo a] t u by (simp add: sub_bytes_def)
  have rb: "sub_bytes a ?q 2 ! 0 = ucast ((le_word a ?q :: u16) AND 0xFF)"
      "sub_bytes a ?q 2 ! 1 = ucast (drop_bit 8 (le_word a ?q :: u16) AND 0xFF)"
    using le_bytes_le_word [OF r] by (metis nth_Cons_0, metis nth_Cons_0 nth_Cons_Suc One_nat_def)
  have w: "(a @ t @ c)[?p := ucast ((le_word a ?q :: u16) AND 0xFF),
             ?p + 1 := ucast (drop_bit 8 (le_word a ?q :: u16) AND 0xFF)]
        = a @ sub_bytes a ?q 2 @ c"
    using put_trailer [OF a t, of "sub_bytes a ?q 2" c] r by (simp only: rb) simp
  have l: "?p < length (a @ t @ c)" "?p + 1 < length (a @ t @ c)" using a t by auto
  have p1: "put_byte (a @ t @ c) ?p x = Got ((a @ t @ c)[?p := x])" for x
    using l by (simp add: put_byte_def)
  have p2: "put_byte ((a @ t @ c)[?p := ucast ((le_word a ?q :: u16) AND 0xFF)]) (?p + 1)
      (ucast (drop_bit 8 (le_word a ?q :: u16) AND 0xFF)) = Got (a @ sub_bytes a ?q 2 @ c)"
    using l w by (simp add: put_byte_def)
  show ?thesis
    unfolding usa_loop.simps Let_def cur rep acc_bind.simps prod.case option.case eq p1 p2 by (rule refl)
qed

lemma restore_usa_segments:
  fixes a :: bytes
  defines "uo \<equiv> unat (le_word a 4 :: u16)"
  assumes "length a = 510" "length b = 510" "length t = 2" "length t' = 2"
    and "le_word a 6 = (3 :: u16)" "uo + 6 \<le> 510"
  shows "restore_usa (a @ t @ b @ t') =
    (if t \<noteq> sub_bytes a uo 2 then Got (False, a @ t @ b @ t')
     else if t' \<noteq> sub_bytes a uo 2 then Got (False, a @ sub_bytes a (uo + 2) 2 @ b @ t')
     else Got (True, a @ sub_bytes a (uo + 2) 2 @ b @ sub_bytes a (uo + 4) 2))"
proof -
  let ?bs = "a @ t @ b @ t'"
  let ?us = "le_word a uo :: u16"
  let ?r = "sub_bytes a (uo + 2) 2"
  have l: "length ?bs = 1024" using assms by simp
  have h: "le_word ?bs 4 = (le_word a 4 :: u16)" "le_word ?bs 6 = (3 :: u16)" "le_word ?bs uo = ?us"
    using assms by (simp_all add: le_word_append)
  have "\<not> 1024 - uo < 6" using assms(7) by simp
  then have "restore_usa ?bs = usa_loop uo ?us 0 2 ?bs"
    using assms(7) l h by (simp add: restore_usa_def le_reads uo_def [symmetric] Let_def)
  also have "\<dots> = usa_loop uo ?us 0 (Suc (Suc 0)) ?bs" by (simp only: numeral_2_eq_2)
  also have "\<dots> = (if t \<noteq> sub_bytes a uo 2 then Got (False, ?bs)
      else usa_loop uo ?us 1 (Suc 0) (a @ ?r @ b @ t'))"
    using usa_sector [of a 0 t uo ?us "Suc 0" "b @ t'"] assms by simp
  finally have 1: "restore_usa ?bs = (if t \<noteq> sub_bytes a uo 2 then Got (False, ?bs)
      else usa_loop uo ?us 1 (Suc 0) (a @ ?r @ b @ t'))" .
  have "usa_loop uo ?us 1 (Suc 0) (a @ ?r @ b @ t') =
      (if t' \<noteq> sub_bytes (a @ ?r @ b) uo 2 then Got (False, a @ ?r @ b @ t')
       else Got (True, a @ ?r @ b @ sub_bytes (a @ ?r @ b) (uo + 4) 2))"
    using usa_sector [of "a @ ?r @ b" 1 t' uo ?us 0 "[]"] assms
    by (simp add: le_word_append)
  then show ?thesis using assms 1
    by (simp add: sub_bytes_append)
qed

section \<open>The whole record\<close>

lemma split_record:
  assumes "length bs = 1024"
  shows "bs = take 510 bs @ sub_bytes bs 510 2 @ sub_bytes bs 512 510 @ sub_bytes bs 1022 2"
proof -
  have "drop 510 bs = take 2 (drop 510 bs) @ drop 512 bs"
    using append_take_drop_id [of 2 "drop 510 bs"] by simp
  moreover have "drop 512 bs = take 510 (drop 512 bs) @ drop 1022 bs"
    using append_take_drop_id [of 510 "drop 512 bs"] by simp
  moreover have "take 2 (drop 1022 bs) = drop 1022 bs" using assms by simp
  ultimately show ?thesis
    using append_take_drop_id [of 510 bs] by (simp add: sub_bytes_def)
qed

lemma le_word_take: "off + LENGTH('a) div 8 \<le> n \<Longrightarrow> (le_word (take n bs) off :: 'a::len word) = le_word bs off"
  by (simp add: le_word_def sub_bytes_def take_drop min_def)

lemma sub_bytes_take: "off + k \<le> n \<Longrightarrow> sub_bytes (take n bs) off k = sub_bytes bs off k"
  by (simp add: sub_bytes_def take_drop min_def)

definition usa_restored :: "bytes \<Rightarrow> nat \<Rightarrow> bytes" where
  "usa_restored bs uo =
     take 510 bs @ sub_bytes bs (uo + 2) 2 @ sub_bytes bs 512 510 @ sub_bytes bs (uo + 4) 2"

lemma restore_usa_count: "length bs = 1024 \<Longrightarrow> (le_word bs 6 :: u16) \<noteq> 3 \<Longrightarrow> restore_usa bs = Got (False, bs)"
proof -
  assume a: "length bs = 1024" "(le_word bs 6 :: u16) \<noteq> 3"
  then have "unat (le_word bs 6 :: u16) \<noteq> 3" by (simp add: word_unat_eq_iff)
  with a show ?thesis by (simp add: restore_usa_def le_reads)
qed

lemma restore_usa_whole:
  fixes bs :: bytes
  defines "uo \<equiv> unat (le_word bs 4 :: u16)"
  assumes "length bs = RecordSize" "uo + 6 \<le> 510"
  shows "restore_usa bs = Got (True, cs) \<longleftrightarrow>
    (le_word bs 6 = (3 :: u16) \<and> sub_bytes bs 510 2 = sub_bytes bs uo 2
     \<and> sub_bytes bs 1022 2 = sub_bytes bs uo 2 \<and> cs = usa_restored bs uo)"
proof (cases "(le_word bs 6 :: u16) = 3")
  case True
  have l: "length bs = 1024" using assms by (simp add: RecordSize_def)
  have "uo = unat (le_word (take 510 bs) 4 :: u16)" by (simp add: uo_def le_word_take)
  with True have "restore_usa (take 510 bs @ sub_bytes bs 510 2 @ sub_bytes bs 512 510 @ sub_bytes bs 1022 2) =
    (if sub_bytes bs 510 2 \<noteq> sub_bytes (take 510 bs) uo 2 then Got (False, bs)
     else if sub_bytes bs 1022 2 \<noteq> sub_bytes (take 510 bs) uo 2 then Got (False, take 510 bs @ sub_bytes (take 510 bs) (uo + 2) 2 @ sub_bytes bs 512 510 @ sub_bytes bs 1022 2)
     else Got (True, take 510 bs @ sub_bytes (take 510 bs) (uo + 2) 2 @ sub_bytes bs 512 510 @ sub_bytes (take 510 bs) (uo + 4) 2))"
    using restore_usa_segments [of "take 510 bs" "sub_bytes bs 512 510" "sub_bytes bs 510 2" "sub_bytes bs 1022 2"]
      assms(3) l split_record [OF l] by (simp add: le_word_take)
  then show ?thesis
    using True assms(3) by (auto simp: usa_restored_def sub_bytes_take split_record [OF l, symmetric])
next
  case False
  then show ?thesis using restore_usa_count [of bs] assms by (auto simp: RecordSize_def)
qed

section \<open>The encoder of the fixtures\<close>

lemma le_bytes_u16: "le_bytes 2 (v :: u16) = [ucast v, ucast (drop_bit 8 v)]"
  by (simp add: le_bytes_def upt_rec numeral_2_eq_2)

lemma le_bytes_le_word_u16: "off + 2 \<le> length bs \<Longrightarrow> le_bytes 2 (le_word bs off :: u16) = sub_bytes bs off 2"
    using le_bytes_le_nat [where ?'a = 16, of "sub_bytes bs off 2" 2] by (simp add: le_word_def)

lemma put_u16: "length p = off \<Longrightarrow> length q = 2 \<Longrightarrow>
   put_le (p @ q @ r) off (v :: u16) = Some (p @ le_bytes 2 v @ r)"
  by (simp add: put_le_def)

lemma get_u16: "length p = off \<Longrightarrow> length q = 2 \<Longrightarrow>
   get_le (p @ q @ r) off = Some (le_word q 0 :: u16)"
  by (simp add: get_le_def le_word_append)

lemma update_sequence_bytes: "le_bytes 2 UpdateSequence = [0x5A, 0xA5]"
  by (simp add: le_bytes_u16 UpdateSequence_def)

lemma apply_usa_segments:
  assumes l: "length p = 48" "length u = 2" "length v = 2" "length v' = 2" "length q = 456" 
     "length b = 510" "length t = 2" "length t' = 2"
  shows "apply_usa (p @ u @ v @ v' @ q @ t @ b @ t') corrupt =
    Some (p @ [0x5A, 0xA5] @ t @ t' @ q @ (if corrupt then [0x5B, 0xA5] else [0x5A, 0xA5]) @ b @ [0x5A, 0xA5])"
proof -
  let ?u = "[0x5A, 0xA5] :: bytes"
  have t: "le_bytes 2 (le_word t 0 :: u16) = t" "le_bytes 2 (le_word t' 0 :: u16) = t'"
    using l le_bytes_le_word_u16 [of 0 t] le_bytes_le_word_u16 [of 0 t'] by (simp_all add: sub_bytes_zero)
  have 1: "put_le (p @ u @ v @ v' @ q @ t @ b @ t') UsaOffset UpdateSequence = Some (p @ ?u @ v @ v' @ q @ t @ b @ t')"
    using put_u16 [of p UsaOffset u] l by (simp add: UsaOffset_def update_sequence_bytes)
  have "get_le ((p @ ?u @ v @ v' @ q) @ t @ b @ t') 510 = Some (le_word t 0 :: u16)"
    by (rule get_u16) (use l in simp_all)
  moreover have "put_le ((p @ ?u) @ v @ v' @ q @ t @ b @ t') 50 (le_word t 0 :: u16) = Some ((p @ ?u) @ t @ v' @ q @ t @ b @ t')"
    using put_u16 [of "p @ ?u" 50 v "v' @ q @ t @ b @ t'" "le_word t 0"] l t by simp
  moreover have "put_le ((p @ ?u @ t @ v' @ q) @ t @ b @ t') 510 UpdateSequence = Some ((p @ ?u @ t @ v' @ q) @ ?u @ b @ t')"
    by (subst put_u16) (use l in \<open>simp_all add: update_sequence_bytes\<close>)
  ultimately have 2: "apply_usa_sector 0 (p @ ?u @ v @ v' @ q @ t @ b @ t') = Some (p @ ?u @ t @ v' @ q @ ?u @ b @ t')"
    by (simp add: apply_usa_sector_def UsaOffset_def)
  have "get_le ((p @ ?u @ t @ v' @ q @ ?u @ b) @ t' @ []) 1022 = Some (le_word t' 0 :: u16)"
    by (rule get_u16) (use l in simp_all)
  moreover have "put_le ((p @ ?u @ t) @ v' @ q @ ?u @ b @ t') 52 (le_word t' 0 :: u16) = Some ((p @ ?u @ t) @ t' @ q @ ?u @ b @ t')"
    using put_u16 [of "p @ ?u @ t" 52 v' "q @ ?u @ b @ t'" "le_word t' 0"] l t by simp
  moreover have "put_le ((p @ ?u @ t @ t' @ q @ ?u @ b) @ t' @ []) 1022 UpdateSequence = Some ((p @ ?u @ t @ t' @ q @ ?u @ b) @ ?u @ [])"
    by (subst put_u16) (use l in \<open>simp_all add: update_sequence_bytes\<close>)
  ultimately have 3: "apply_usa_sector 1 (p @ ?u @ t @ v' @ q @ ?u @ b @ t') = Some (p @ ?u @ t @ t' @ q @ ?u @ b @ ?u)"
    by (simp add: apply_usa_sector_def UsaOffset_def)
  have "((p @ ?u @ t @ t' @ q) @ 0x5A # [0xA5] @ b @ ?u)[510 := ((p @ ?u @ t @ t' @ q) @ 0x5A # [0xA5] @ b @ ?u) ! 510 XOR 1]
      = (p @ ?u @ t @ t' @ q) @ 0x5B # [0xA5] @ b @ ?u"
    using list_update_length [of "p @ ?u @ t @ t' @ q" "0x5A" "[0xA5] @ b @ ?u" "0x5B"]
      nth_append_length [of "p @ ?u @ t @ t' @ q" "0x5A" "[0xA5] @ b @ ?u"] l by simp
  then show ?thesis
    unfolding apply_usa_def 1 bind.simps 2 3 by simp
qed

lemma apply_usa_whole:
  assumes "length bs = 1024"
  shows "apply_usa bs corrupt =
    Some (take 48 bs @ [0x5A, 0xA5] @ sub_bytes bs 510 2 @ sub_bytes bs 1022 2 @ sub_bytes bs 54 456
      @ (if corrupt then [0x5B, 0xA5] else [0x5A, 0xA5]) @ sub_bytes bs 512 510 @ [0x5A, 0xA5])"
proof -
  have s: "take (m + n) bs = take m bs @ sub_bytes bs m n" for m n
    by (simp add: sub_bytes_def take_add)
  have "take 510 bs = take 48 bs @ sub_bytes bs 48 2 @ sub_bytes bs 50 2 @ sub_bytes bs 52 2 @ sub_bytes bs 54 456"
    using s [of 48 2] s [of 50 2] s [of 52 2] s [of 54 456] by simp
  then have "bs = take 48 bs @ sub_bytes bs 48 2 @ sub_bytes bs 50 2 @ sub_bytes bs 52 2 @ sub_bytes bs 54 456
      @ sub_bytes bs 510 2 @ sub_bytes bs 512 510 @ sub_bytes bs 1022 2"
    using split_record [OF assms] by simp
  then show ?thesis
    using apply_usa_segments [of "take 48 bs" "sub_bytes bs 48 2" "sub_bytes bs 50 2" "sub_bytes bs 52 2" "sub_bytes bs 54 456"
      "sub_bytes bs 512 510" "sub_bytes bs 510 2" "sub_bytes bs 1022 2" corrupt] assms by simp
qed

lemma restore_apply_usa:
  assumes "length bs = 1024" "le_word bs 4 = (0x30 :: u16)" "le_word bs 6 = (3 :: u16)"
    and "apply_usa bs corrupt = Some cs"
  shows "restore_usa cs =
    (if corrupt then Got (False, cs)
     else Got (True, copy_at bs 0x30 ([0x5A, 0xA5] @ sub_bytes bs 510 2 @ sub_bytes bs 1022 2)))"
proof -
  let ?a = "take 48 bs @ [0x5A, 0xA5] @ sub_bytes bs 510 2 @ sub_bytes bs 1022 2 @ sub_bytes bs 54 456"
  let ?t = "if corrupt then [0x5B, 0xA5] else [0x5A, 0xA5] :: bytes"
  have cs: "cs = ?a @ ?t @ sub_bytes bs 512 510 @ [0x5A, 0xA5]"
    using assms(4) apply_usa_whole [OF assms(1), of corrupt] by simp
  have l: "length ?a = 510" "length ?t = 2" "length (sub_bytes bs 512 510) = 510" using assms(1) by auto
  have w: "le_word ?a 4 = (0x30 :: u16)" "le_word ?a 6 = (3 :: u16)"
    using assms(1-3) by (simp_all add: le_word_append le_word_take)
  have s: "sub_bytes ?a 48 2 = [0x5A, 0xA5]" "sub_bytes ?a 50 2 = sub_bytes bs 510 2"
      "sub_bytes ?a 52 2 = sub_bytes bs 1022 2"
    using assms(1) by (simp_all add: sub_bytes_append sub_bytes_zero, simp_all add: sub_bytes_def)
  have "restore_usa cs = (if corrupt then Got (False, cs)
      else Got (True, ?a @ sub_bytes bs 510 2 @ sub_bytes bs 512 510 @ sub_bytes bs 1022 2))"
    unfolding cs using restore_usa_segments [of ?a "sub_bytes bs 512 510" ?t "[0x5A, 0xA5]"] l w s by simp
  moreover have "drop 54 bs = sub_bytes bs 54 456 @ sub_bytes bs 510 2 @ sub_bytes bs 512 510 @ sub_bytes bs 1022 2"
    using split_record [OF assms(1)] append_take_drop_id [of 456 "drop 54 bs"] append_take_drop_id [of 2 "drop 510 bs"]
     append_take_drop_id [of 510 "drop 512 bs"] assms(1) by (simp add: sub_bytes_def)
  ultimately show ?thesis
    using assms(1) by (simp add: copy_at_def)
qed

section \<open>A concrete record\<close>

text \<open>
  The bytes of a FILE record 42 with the name \<open>ab\<close> in itself as its directory and three bytes
  of resident data, in the layout the fixtures build: the input of the witnesses.
\<close>

definition sample_head :: bytes where
  "sample_head =
     [0x46, 0x49, 0x4C, 0x45, 0x30, 0, 3, 0, 0, 0, 0, 0, 0, 0, 0, 0,
      1, 0, 0, 0, 0x38, 0, 1, 0, 0xBC, 0, 0, 0, 0, 4, 0, 0,
      0, 0, 0, 0, 0, 0, 0, 0, 0, 0, 0, 0, 42, 0, 0, 0,
      0x5A, 0xA5, 0, 0, 0, 0, 0, 0]"

definition sample_attr_name :: bytes where
  "sample_attr_name =
     [0x30, 0, 0, 0, 0x60, 0, 0, 0, 0, 0, 0, 0, 0, 0, 0, 0, 0x46, 0, 0, 0, 0x18, 0, 0, 0,
      42, 0, 0, 0, 0, 0, 1, 0] @ zeros 32
     @ [0, 0x10, 0, 0, 0, 0, 0, 0, 0xD2, 4, 0, 0, 0, 0, 0, 0, 0, 0, 0, 0, 0, 0, 0, 0,
        2, 1, 0x61, 0, 0x62, 0, 0, 0]"

definition sample_attr_data :: bytes where
  "sample_attr_data =
     [0x80, 0, 0, 0, 0x20, 0, 0, 0, 0, 0, 0, 0, 0, 0, 0, 0, 3, 0, 0, 0, 0x18, 0, 0, 0,
      0x00, 0x7F, 0xFF, 0, 0, 0, 0, 0]"

definition sample_body :: bytes where
  "sample_body = sample_head @ sample_attr_name @ sample_attr_data @ [0xFF, 0xFF, 0xFF, 0xFF]
     @ zeros 322"

definition sample_record :: bytes where
  "sample_record = sample_body @ [0x5A, 0xA5] @ zeros 510 @ [0x5A, 0xA5]"

lemmas sample_defs = sample_body_def sample_head_def sample_attr_name_def sample_attr_data_def

lemma length_sample_body: "length sample_body = 510"
  by (simp add: sample_defs)

lemma sample_restore:
  "restore_usa sample_record = Got (True, sample_body @ [0, 0] @ zeros 510 @ [0, 0])"
proof -
  have "le_word sample_head 4 = (0x30 :: u16)" "le_word sample_head 6 = (3 :: u16)"
    "sub_bytes sample_head 48 2 = [0x5A, 0xA5]" "sub_bytes sample_head 50 2 = [0, 0]"
    "sub_bytes sample_head 52 2 = [0, 0]" "length sample_head = 56"
    by (simp_all add: le_word_def sample_head_def sub_bytes_def)
  then have h: "le_word sample_body 4 = (0x30 :: u16)" "le_word sample_body 6 = (3 :: u16)"
    "sub_bytes sample_body 48 2 = [0x5A, 0xA5]" "sub_bytes sample_body 50 2 = [0, 0]"
    "sub_bytes sample_body 52 2 = [0, 0]"
    by (simp_all add: sample_body_def le_word_append sub_bytes_append)
  show ?thesis
    using restore_usa_segments [of sample_body "zeros 510" "[0x5A, 0xA5]" "[0x5A, 0xA5]"]
    by (simp add: h length_sample_body sample_record_def)
qed

lemma sample_fields:
  "length sample_record = RecordSize" "le_word sample_record 4 = (0x30 :: u16)"
  "le_word sample_record 6 = (3 :: u16)" "take 4 sample_record = FILE_magic"
proof -
  have "length sample_head = 56" "le_word sample_head 4 = (0x30 :: u16)" "le_word sample_head 6 = (3 :: u16)"
      "take 4 sample_head = FILE_magic"
    by (simp_all add: le_word_def sample_head_def sub_bytes_def FILE_magic_def)
  then show "length sample_record = RecordSize" "le_word sample_record 4 = (0x30 :: u16)"
    "le_word sample_record 6 = (3 :: u16)" "take 4 sample_record = FILE_magic"
    by (simp_all add: sample_record_def sample_body_def sample_attr_name_def sample_attr_data_def
          RecordSize_def le_word_append)
qed

section \<open>Properties\<close>

text \<open>
  C35: the functional specification of \<open>restore_usa\<close>. A record whose update sequence array lies in
  the first sector is accepted exactly if the array has one entry per sector after the sequence
  number and both sector trailers hold the sequence number; the result is then the record with
  the two saved words back in the trailers, all other bytes as they were.
\<close>

theorem restore_usa_specification:
  assumes "length bs = RecordSize" "unat (le_word bs 4 :: u16) + 6 \<le> 510"
  shows "restore_usa bs = Got (True, cs) \<longleftrightarrow>
    (let uo = unat (le_word bs 4 :: u16) in
      le_word bs 6 = (3 :: u16) \<and> sub_bytes bs 510 2 = sub_bytes bs uo 2
      \<and> sub_bytes bs 1022 2 = sub_bytes bs uo 2 \<and> cs = usa_restored bs uo)"
  unfolding Let_def by (rule restore_usa_whole [OF assms])

lemma restore_usa_specification_witness:
  "length sample_record = RecordSize \<and> unat (le_word sample_record 4 :: u16) + 6 \<le> 510
   \<and> sub_bytes sample_record 510 2 = sub_bytes sample_record 0x30 2"
  using restore_usa_specification [of sample_record "sample_body @ [0, 0] @ zeros 510 @ [0, 0]"]
  by (simp add: sample_fields sample_restore)

text \<open>
  \<open>restore_usa\<close> inverts the update-sequence encoder of the fixtures: on a record with the
  array at 0x30 and three entries, the encoded record is accepted and comes back with every byte
  as before, except for the six bytes of the array itself.
\<close>

theorem usa_roundtrip:
  assumes "length bs = RecordSize" "le_word bs 4 = (0x30 :: u16)" "le_word bs 6 = (3 :: u16)"
  shows "\<exists>cs. apply_usa bs False = Some cs \<and>
    restore_usa cs = Got (True, copy_at bs 0x30 ([0x5A, 0xA5] @ sub_bytes bs 510 2 @ sub_bytes bs 1022 2))"
  using restore_apply_usa [of bs False] apply_usa_whole [of bs False] assms by (simp add: RecordSize_def)

lemma usa_roundtrip_witness:
  "\<exists>cs. apply_usa sample_record False = Some cs \<and> restore_usa cs =
     Got (True, copy_at sample_record 0x30
       ([0x5A, 0xA5] @ sub_bytes sample_record 510 2 @ sub_bytes sample_record 1022 2))"
  by (rule usa_roundtrip) (simp_all only: sample_fields)

text \<open>
  Torn writes are detected. A record whose first trailer differs in a single bit from what the
  encoder wrote (the fixtures' \<open>invalid_usa\<close>) is rejected by every entry point of the parser:
  no name, no record number and no data is reported for it.
\<close>

theorem torn_record_rejected:
  assumes "length bs = RecordSize" "le_word bs 4 = (0x30 :: u16)" "le_word bs 6 = (3 :: u16)"
    and "apply_usa bs True = Some cs"
  shows "parse cs off = Got None \<and> record_number cs = Got None \<and> data_attributes cs = Got []"
proof -
  have "restore_usa cs = Got (False, cs)"
    using restore_apply_usa [of bs True cs] assms by (simp add: RecordSize_def)
  then have "restored_record cs = Got None" by (simp add: restored_record_def)
  then show ?thesis by (simp add: parse_eq record_number_eq data_attributes_eq)
qed

lemma torn_record_rejected_witness:
  "\<exists>cs. apply_usa sample_record True = Some cs \<and> parse cs 0 = Got None"
proof -
  obtain cs where "apply_usa sample_record True = Some cs"
    using apply_usa_whole [of sample_record True] sample_fields by (simp add: RecordSize_def)
  with torn_record_rejected [OF sample_fields(1-3) this, of 0] show ?thesis by simp
qed

end
