(* ===== verification/ParserProperties.thy ===== *)
theory ParserProperties
  imports UpdateSequence
begin

text \<open>
  What the entry points of \<open>MftRecordParser\<close> (\<open>src/MftRecord.cpp\<close>) promise: they never read
  outside their buffer, what they return is well formed, both passes are one walk over the
  attribute chain, and they agree on the record number.
\<close>

section \<open>The walk over the attribute chain\<close>

text \<open>Attributes follow each other without a gap, each has a header and lies in the record.\<close>

fun chained :: "nat \<Rightarrow> (nat \<times> u32 \<times> nat) list \<Rightarrow> bool" where
  "chained off [] = True"
| "chained off ((p, ty, len) # xs) = (p = off \<and> 16 \<le> len \<and> chained (off + len) xs)"

lemma attributes_chained: "chained off (attributes bs off)"
proof (induction bs off rule: attributes.induct)
  case (1 bs off)
  then show ?case
    by (cases "attr_header bs off")
      (auto simp: attributes.simps [of bs off] attr_header_Some word_less_nat_alt)
qed

lemma attributes_count: "off \<le> length bs \<Longrightarrow> 16 * length (attributes bs off) \<le> length bs - off"
proof (induction bs off rule: attributes.induct)
  case (1 bs off)
  show ?case
  proof (cases "attr_header bs off")
    case (Some h)
    then obtain ty len where h: "attr_header bs off = Some (ty, len)" by (cases h) auto
    then have "16 \<le> len" "off + len \<le> length bs" by (auto simp: attr_header_Some word_less_nat_alt)
    then show ?thesis using "1.IH" [OF h refl] h by (simp add: attributes.simps [of bs off])
  qed (simp add: attributes.simps [of bs off])
qed

lemma attributes_outside: "length bs < off + 16 \<Longrightarrow> attributes bs off = []"
  by (simp add: attributes.simps [of bs off] attr_header_def)

lemma attributes_bound: "16 * length (attributes bs off) \<le> length bs"
  using attributes_count [of off bs] attributes_outside [of bs off] by (cases "off \<le> length bs") auto

lemma length_map_filter: "length (List.map_filter f xs) \<le> length xs"
  by (induction xs) (simp_all add: map_filter_simps split: option.splits)

lemma map_filter_member:
  "y \<in> set (List.map_filter f xs) \<longleftrightarrow> (\<exists>x \<in> set xs. f x = Some y)"
  by (force simp: map_filter_def)

lemma got_Some: "got r = Some x \<longleftrightarrow> r = Got (Some x)"
  by (cases r) auto

lemma parse_Some:
  assumes "parse input off = Got (Some r)"
  obtains bs d where "restored_record input = Got (Some bs)"
    and "d = ((le_word bs 0x16 :: u16) AND DirectoryFlag \<noteq> 0)"
    and "mr_names r = List.map_filter (\<lambda>(p, ty, len). got (name_item bs d p ty len))
           (attributes bs (unat (le_word bs 0x14 :: u16)))"
    and "mr_names r \<noteq> []" "mr_offset r = off"
    and "mr_record_id_guess r =
      (if (le_word bs 0x2C :: u32) \<noteq> 0 then ucast (le_word bs 0x2C :: u32) else off div of_nat RecordSize)"
proof (cases "restored_record input")
  case OutOfBounds
  then show ?thesis using assms by (simp add: parse_eq)
next
  case (Got x)
  then show ?thesis using assms that
    by (cases x) (auto simp: parse_eq Let_def split: if_splits)
qed

lemma data_attributes_Got:
  assumes "data_attributes input = Got as" "a \<in> set as"
  obtains bs p ty len where "restored_record input = Got (Some bs)"
    and "attr_header bs p = Some (ty, len)" "data_item bs p ty len = Got (Some a)"
proof (cases "restored_record input")
  case OutOfBounds
  then show ?thesis using assms by (auto simp: data_attributes_eq)
next
  case (Got x)
  then show ?thesis using assms that
    by (cases x) (auto simp: data_attributes_eq map_filter_member got_Some dest!: attributes_header)
qed

section \<open>The concrete record\<close>

definition sample_restored :: bytes where
  "sample_restored = sample_body @ [0, 0] @ zeros 510 @ [0, 0]"

lemma sample_restored_record: "restored_record sample_record = Got (Some sample_restored)"
  by (simp add: restored_record_def sample_fields sample_restore sample_restored_def)

lemma sample_lengths:
  "length sample_head = 56" "length sample_attr_name = 96" "length sample_attr_data = 32"
  "length sample_restored = 1024"
  by (simp_all add: sample_head_def sample_attr_name_def sample_attr_data_def sample_restored_def length_sample_body)

lemma sample_head_words:
  "le_word sample_head 0x14 = (56 :: u16)" "le_word sample_head 0x16 = (1 :: u16)"
  "le_word sample_head 0x2C = (42 :: u32)"
  by (simp_all add: le_word_def sample_head_def sub_bytes_def)

lemma sample_restored_words:
  "le_word sample_restored 0x14 = (56 :: u16)" "le_word sample_restored 0x16 = (1 :: u16)"
  "le_word sample_restored 0x2C = (42 :: u32)"
  by (simp_all add: sample_restored_def sample_body_def le_word_append sample_lengths sample_head_words)

lemma sample_name_words:
  "le_word sample_attr_name 0 = (0x30 :: u32)" "le_word sample_attr_name 4 = (0x60 :: u32)"
  "le_word sample_attr_name 8 = (0 :: u8)" "le_word sample_attr_name 16 = (0x46 :: u32)"
  "le_word sample_attr_name 20 = (0x18 :: u16)" "le_word sample_attr_name 24 = (0x100000000002A :: u64)"
  "le_word sample_attr_name 64 = (4096 :: u64)" "le_word sample_attr_name 72 = (1234 :: u64)"
  "le_word sample_attr_name 80 = (0 :: u32)" "le_word sample_attr_name 88 = (2 :: u8)"
  "le_word sample_attr_name 89 = (1 :: u8)" "sub_bytes sample_attr_name 90 4 = [0x61, 0, 0x62, 0]"
  by (simp_all add: le_word_def sample_attr_name_def sub_bytes_append) (simp_all add: sub_bytes_def)

lemma sample_data_words:
  "le_word sample_attr_data 0 = (0x80 :: u32)" "le_word sample_attr_data 4 = (0x20 :: u32)"
  "le_word sample_attr_data 8 = (0 :: u8)" "le_word sample_attr_data 9 = (0 :: u8)"
  "le_word sample_attr_data 12 = (0 :: u16)" "le_word sample_attr_data 16 = (3 :: u32)"
  "le_word sample_attr_data 20 = (0x18 :: u16)" "sub_bytes sample_attr_data 24 3 = [0x00, 0x7F, 0xFF]"
  "le_word ([0xFF, 0xFF, 0xFF, 0xFF] :: bytes) 0 = AttributeEnd"
  by (simp_all add: le_word_def sample_attr_data_def sub_bytes_def AttributeEnd_def)

lemma sample_attributes:
  "attributes sample_restored 56 = [(56, 0x30, 96), (152, 0x80, 32)]"
proof -
  have "attr_header sample_restored 56 = Some (0x30, 96)"
    "attr_header sample_restored 152 = Some (0x80, 32)" "attr_header sample_restored 184 = None"
    by (simp_all add: attr_header_def sample_lengths)
      (simp_all add: sample_restored_def sample_body_def le_word_append sample_lengths sample_name_words sample_data_words AttributeEnd_def del: append_Cons)
  then show ?thesis by (simp add: attributes.simps)
qed

definition sample_name :: mft_file_name where
  "sample_name = \<lparr>fn_parent_ref = 42, fn_name = [0x61, 0x62], fn_namespace = 1, fn_flags = 0,
     fn_allocated_size = 4096, fn_real_size = 1234, fn_is_directory = False\<rparr>"

lemma sample_restored_segment:
  "off + LENGTH('a) div 8 \<le> 96 \<Longrightarrow> (le_word sample_restored (56 + off) :: 'a::len word) = le_word sample_attr_name off"
  "off + LENGTH('b) div 8 \<le> 32 \<Longrightarrow> (le_word sample_restored (152 + off) :: 'b::len word) = le_word sample_attr_data off"
  "off + n \<le> 96 \<Longrightarrow> sub_bytes sample_restored (56 + off) n = sub_bytes sample_attr_name off n"
  "off + n \<le> 32 \<Longrightarrow> sub_bytes sample_restored (152 + off) n = sub_bytes sample_attr_data off n"
  by (simp_all add: sample_restored_def sample_body_def le_word_append sub_bytes_append sample_lengths)

lemma sample_utf: "utf16le_to_utf8 sample_restored 146 4 = Got [0x61, 0x62]"
proof -
  have s: "sub_bytes sample_restored (56 + 90) 4 = [0x61, 0, 0x62, 0]"
    by (subst sample_restored_segment(3)) (simp_all add: sample_name_words)
  have "sample_restored ! (146 + k) = [0x61, 0, 0x62, 0] ! k" if "k < 4" for k
    using arg_cong [OF s, of "\<lambda>xs. xs ! k"] that by (simp add: sub_bytes_def sample_lengths)
  from this [of 0] this [of 1] this [of 2] this [of 3]
  have b: "byte_at sample_restored 146 = Got 0x61" "byte_at sample_restored 147 = Got 0"
    "byte_at sample_restored 148 = Got 0x62" "byte_at sample_restored 149 = Got 0"
    by (simp_all add: byte_at_def sample_lengths)
  show ?thesis
    by (simp add: utf16le_to_utf8_def utf16le_loop.simps utf16_unit_def read_u16le_def b append_utf8_def)
qed

lemma sample_at:
  "le_word sample_restored 64 = (0 :: u8)" "le_word sample_restored 72 = (0x46 :: u32)"
  "le_word sample_restored 76 = (0x18 :: u16)" "le_word sample_restored 80 = (0x100000000002A :: u64)"
  "le_word sample_restored 120 = (4096 :: u64)" "le_word sample_restored 128 = (1234 :: u64)"
  "le_word sample_restored 136 = (0 :: u32)" "le_word sample_restored 144 = (2 :: u8)"
  "le_word sample_restored 145 = (1 :: u8)"
  using sample_restored_segment(1) [where ?'a = 8, of 8] sample_restored_segment(1) [where ?'a = 32, of 16]
    sample_restored_segment(1) [where ?'a = 16, of 20] sample_restored_segment(1) [where ?'a = 64, of 24]
    sample_restored_segment(1) [where ?'a = 64, of 64] sample_restored_segment(1) [where ?'a = 64, of 72]
    sample_restored_segment(1) [where ?'a = 32, of 80] sample_restored_segment(1) [where ?'a = 8, of 88]
    sample_restored_segment(1) [where ?'a = 8, of 89]
  by (simp_all add: sample_name_words)

lemma sample_data_at:
  "le_word sample_restored 160 = (0 :: u8)" "le_word sample_restored 161 = (0 :: u8)"
  "le_word sample_restored 164 = (0 :: u16)" "le_word sample_restored 168 = (3 :: u32)"
  "le_word sample_restored 172 = (0x18 :: u16)" "sub_bytes sample_restored 176 3 = [0x00, 0x7F, 0xFF]"
  using sample_restored_segment(2) [where ?'b = 8, of 8] sample_restored_segment(2) [where ?'b = 8, of 9]
    sample_restored_segment(2) [where ?'b = 16, of 12] sample_restored_segment(2) [where ?'b = 32, of 16]
    sample_restored_segment(2) [where ?'b = 16, of 20] sample_restored_segment(4) [of 24 3]
  by (simp_all add: sample_data_words)

lemma sample_items:
  "name_item sample_restored d 56 0x30 96 = Got (Some (sample_name\<lparr>fn_is_directory := d\<rparr>))"
  "data_item sample_restored 152 0x80 32 = Got (Some \<lparr>da_resident = True,
      da_resident_data = [0x00, 0x7F, 0xFF], da_runs = [], da_real_size = 3\<rparr>)"
  "name_item sample_restored d 152 0x80 32 = Got None"
  "data_item sample_restored 56 0x30 96 = Got None"
  by (simp_all add: name_item_def data_item_def AttributeFileName_def AttributeData_def sample_at sample_data_at
      file_name_at_def file_name_content_def le_reads sample_lengths sample_utf sample_name_def base_file_ref_def
      resident_data_at_def range_at_def)

lemma sample_parse:
  "parse sample_record off =
     Got (Some \<lparr>mr_record_id_guess = 42, mr_offset = off, mr_names = [sample_name]\<rparr>)"
  by (simp add: parse_eq sample_restored_record sample_restored_words sample_attributes map_filter_simps
      sample_items DirectoryFlag_def) (simp add: sample_name_def)

lemma sample_data_attributes:
  "data_attributes sample_record = Got [\<lparr>da_resident = True, da_resident_data = [0x00, 0x7F, 0xFF],
      da_runs = [], da_real_size = 3\<rparr>]"
  by (simp add: data_attributes_eq sample_restored_record sample_restored_words sample_attributes
      map_filter_simps sample_items)

section \<open>Properties\<close>

text \<open>
  C33: memory safety of the parser. On any bytes whatever (of any length, with any offsets and
  sizes in the attribute headers, name lengths and run lists) none of the three entry points
  reads or writes outside its buffer.
\<close>

theorem parser_memory_safe:
  "parse input off \<noteq> OutOfBounds \<and> record_number input \<noteq> OutOfBounds
   \<and> data_attributes input \<noteq> OutOfBounds"
  by (auto simp: parse_eq record_number_eq data_attributes_eq Let_def split: access.splits option.splits)

text \<open>
  C39: well-formedness of a parsed record. It has at least one and at most 64 names, and each name
  is a non-empty, NUL-free, valid UTF-8 string with a 48-bit parent reference; all are
  directories if the record's directory flag is set. The record keeps the offset it was read at
  and has a number: the stored one or, where that is 0, the offset's position in the table.
\<close>

theorem parse_well_formed:
  assumes "parse input off = Got (Some r)"
  shows "mr_names r \<noteq> [] \<and> length (mr_names r) \<le> 64 \<and> (\<forall>n \<in> set (mr_names r). wf_name n)
    \<and> mr_offset r = off
    \<and> (\<exists>bs. restored_record input = Got (Some bs)
         \<and> ((le_word bs 0x16 :: u16) AND DirectoryFlag \<noteq> 0 \<longrightarrow> (\<forall>n \<in> set (mr_names r). fn_is_directory n))
         \<and> mr_record_id_guess r =
             (if (le_word bs 0x2C :: u32) \<noteq> 0 then ucast (le_word bs 0x2C :: u32) else off div 1024))"
proof -
  from assms obtain bs d where r: "restored_record input = Got (Some bs)"
    and d: "d = ((le_word bs 0x16 :: u16) AND DirectoryFlag \<noteq> 0)"
    and ns: "mr_names r = List.map_filter (\<lambda>(p, ty, len). got (name_item bs d p ty len))
           (attributes bs (unat (le_word bs 0x14 :: u16)))" (is "_ = List.map_filter _ ?as")
    and rest: "mr_names r \<noteq> []" "mr_offset r = off"
      "mr_record_id_guess r =
        (if (le_word bs 0x2C :: u32) \<noteq> 0 then ucast (le_word bs 0x2C :: u32) else off div of_nat RecordSize)"
    by (rule parse_Some)
  have "length (mr_names r) \<le> length ?as" by (simp only: ns length_map_filter)
  then have "length (mr_names r) \<le> 64"
    using attributes_bound [of bs] restored_record_length [OF r] by (simp add: RecordSize_def) (metis (no_types) le_trans mult_le_mono2 numeral_le_iff)
  moreover have "wf_name n \<and> (d \<longrightarrow> fn_is_directory n)" if "n \<in> set (mr_names r)" for n
    using that name_item_wf [of bs d] by (auto simp: ns map_filter_member got_Some)
  ultimately show ?thesis using r d rest by (auto simp: RecordSize_def)
qed

lemma parse_well_formed_witness: "length (mr_names (the (got (parse sample_record 0)))) \<le> 64 \<and> wf_name sample_name"
  using parse_well_formed [OF sample_parse, of 0] by (simp add: sample_parse)

text \<open>
  Well-formedness of the data attributes. A resident one carries exactly its declared number
  of bytes, at most a record's worth, and no runs; a non-resident one carries only runs whose
  cluster number is a non-negative 64-bit signed integer, and 0 where the run is a hole.
\<close>

theorem data_attributes_well_formed:
  assumes "data_attributes input = Got as"
  shows "\<forall>a \<in> set as. wf_data a"
proof
  fix a assume "a \<in> set as"
  with assms obtain bs p ty len where "restored_record input = Got (Some bs)"
    "attr_header bs p = Some (ty, len)" "data_item bs p ty len = Got (Some a)"
    by (rule data_attributes_Got)
  then show "wf_data a" using restored_record_length by (auto intro: data_item_wf)
qed

lemma data_attributes_well_formed_witness:
  "wf_data \<lparr>da_resident = True, da_resident_data = [0x00, 0x7F, 0xFF], da_runs = [], da_real_size = 3\<rparr>"
  using data_attributes_well_formed [OF sample_data_attributes] by simp

text \<open>
  C34: refinement of the two passes. On a restored record both loops visit the same attribute
  chain, gap-free from the first-attribute offset and ended by the end marker, a malformed header
  or the end of the record, and each returns what its per-attribute rule yields, in chain order:
  an attribute that one pass cannot use does not hide a later one.
\<close>

theorem passes_refine_attribute_walk:
  assumes "restored_record input = Got (Some bs)"
  shows "(let chain = attributes bs (unat (le_word bs 0x14 :: u16));
              d = ((le_word bs 0x16 :: u16) AND DirectoryFlag \<noteq> 0)
    in chained (unat (le_word bs 0x14 :: u16)) chain
     \<and> parse_attrs bs d (unat (le_word bs 0x14 :: u16)) [] =
         Got (List.map_filter (\<lambda>(p, ty, len). got (name_item bs d p ty len)) chain)
     \<and> data_attributes input =
         Got (List.map_filter (\<lambda>(p, ty, len). got (data_item bs p ty len)) chain))"
  using assms by (simp add: Let_def attributes_chained names.pass_result data_attributes_eq)

lemma passes_refine_attribute_walk_witness:
  "parse_attrs sample_restored False 56 [] = Got [sample_name]
   \<and> chained 56 (attributes sample_restored 56)"
  using passes_refine_attribute_walk [OF sample_restored_record]
  by (simp add: sample_restored_words DirectoryFlag_def sample_attributes map_filter_simps sample_items)
    (simp add: sample_name_def)

text \<open>
  The two ways to learn a record's number agree: the scanner's (\<open>parse\<close>) and the recovery's
  re-check (\<open>record_number\<close>) read the same field of the same restored record, except that
  \<open>parse\<close> replaces a stored 0 by the position of the record.
\<close>

theorem record_numbers_agree:
  assumes "parse input off = Got (Some r)"
  shows "\<exists>n. record_number input = Got (Some n) \<and> unat n < 2 ^ 32
    \<and> mr_record_id_guess r = (if n = 0 then off div 1024 else n)"
proof -
  from assms obtain bs d where r: "restored_record input = Got (Some bs)"
    and id: "mr_record_id_guess r =
        (if (le_word bs 0x2C :: u32) \<noteq> 0 then ucast (le_word bs 0x2C :: u32) else off div of_nat RecordSize)"
    by (rule parse_Some)
  have u: "unat (ucast w :: u64) = unat w" for w :: u32 using unat_u32_lt [of w] by (simp add: unat_ucast)
  then have "(ucast w :: u64) = 0 \<longleftrightarrow> w = 0" for w :: u32 by (metis unat_eq_0)
  then show ?thesis using r id u [of "le_word bs 0x2C"] unat_u32_lt [of "le_word bs 0x2C"]
    by (auto simp: record_number_eq RecordSize_def)
qed

lemma record_numbers_agree_witness: "record_number sample_record = Got (Some 42)"
  using record_numbers_agree [OF sample_parse, of 0] by (auto split: if_splits)

end
