(* ===== verification/RecoverFile.thy ===== *)
theory RecoverFile
  imports RecoverContent ParserProperties
begin

text \<open>
  The contract of \<open>recover_file\<close> (\<open>src/Recover.cpp\<close>): what it publishes, what it leaves alone, when
  it succeeds, and the copying of a non-resident stream against its reference.
\<close>

text \<open>What \<open>recover_file\<close> leaves, for any result: the outcome of its scope.\<close>

lemma recover_file_cases:
  assumes "wf_os s" "recover_file record mft cs path ov s = (r, s')"
  obtains (refused) "r \<noteq> Inr True" "s' = s"
    | (scope) data rest k where "data_attributes mft = Got (data # rest)"
        "scope_outcome path ov (r = Inr True) (\<lambda>c. stream_content (source_image s) (unat cs) data = Some c) k s s'"
proof (cases "data_attributes mft")
  case OutOfBounds
  then show thesis using assms(2) that(1) by (auto simp: recover_file_def)
next
  case (Got attrs)
  show thesis
  proof (cases attrs)
    case Nil
    then show thesis using assms(2) Got that(1) by (auto simp: recover_file_def)
  next
    case (Cons data rest)
    show thesis
    proof (cases "sr_real_size record \<noteq> 0 \<and> sr_real_size record < da_real_size data")
      case True
      then show thesis using assms(2) Got Cons that(1) by (auto simp: recover_file_def)
    next
      case False
      have w: "with_atomic_file path ov (recover_body data cs) s = (r, s')"
        using assms(2) unfolding recover_file_def Got Cons access.case list.case if_not_P [OF False] .
      have "\<exists>k. scope_outcome path ov (r = Inr True)
          (\<lambda>c. stream_content (source_image s) (unat cs) data = Some c) k s s'"
      proof (rule with_atomic_file_effect [OF assms(1) w])
        fix f s1 k r f' s2
        assume "owns (partial_path f) (af_fd f) k [] s1" "\<not> committed f" "partial_path f \<noteq> final_path f"
          "source_image s1 = source_image s" "recover_body data cs f s1 = (r, f', s2)"
        from recover_body_outcome [OF this(1-3,5)] this(4)
        show "body_outcome (\<lambda>r. r = Inr True) (\<lambda>c. stream_content (source_image s) (unat cs) data = Some c) r f f' k s1 s2"
          by simp
      qed simp
      then show thesis using that(2) Got Cons by blast
    qed
  qed
qed

text \<open>Whatever happens, existing paths but the ones overwriting replaces keep their nodes.\<close>

lemma scope_outcome_keeps:
  assumes "wf_os s" "scope_outcome path ov b C k s s'" "entries s p = Some j"
    and "p \<notin> replaced ov (path @ partial_suffix)" "b \<Longrightarrow> p \<notin> replaced ov path"
  shows "entries s' p = Some j \<and> nodes s' j = nodes s j"
proof -
  obtain n where n: "nodes s j = Some n" "j < next_id s" using wf_entry [OF assms(1,3)] by blast
  have k: "j \<noteq> k" using n(2) assms(2) by (simp add: scope_outcome_def)
  show ?thesis
  proof (cases b)
    case True
    then have "preserved (replaced ov (path @ partial_suffix) \<union> replaced ov path) k s s'"
      using assms(2) by (auto simp: scope_outcome_def Let_def)
    then show ?thesis using assms(3-5) True k n unfolding preserved_def by simp
  next
    case False
    then have "preserved (replaced ov (path @ partial_suffix)) k s s'"
      using assms(2) by (auto simp: scope_outcome_def Let_def)
    then show ?thesis using assms(3,4) k n unfolding preserved_def by simp
  qed
qed

lemma preserved_new:
  "preserved P k s s' \<Longrightarrow> quiet s \<Longrightarrow> entries s' p = Some j \<Longrightarrow> entries s p = None \<Longrightarrow> j = k"
  unfolding preserved_def by fastforce

section \<open>A small volume\<close>

definition sample_volume :: bytes where
  "sample_volume = [10, 11, 12, 13, 14, 15, 16, 17]"

definition sample_stream :: data_attribute where
  "sample_stream = \<lparr>da_resident = False, da_resident_data = [],
     da_runs = [\<lparr>lcn = 3, cluster_count = 1, sparse = False\<rparr>, \<lparr>lcn = 0, cluster_count = 1, sparse = True\<rparr>,
       \<lparr>lcn = 0, cluster_count = 2, sparse = False\<rparr>], da_real_size = 7\<rparr>"

definition sample_stored :: stored_record where
  "sample_stored = \<lparr>sr_id = 1, sr_record_id_guess = 7, sr_offset = 0, sr_parent_ref = 5, sr_name = [0x62],
     sr_name_namespace = 1, sr_flags = 1, sr_allocated_size = 8, sr_real_size = 3, sr_is_directory = False\<rparr>"

lemma owns_sample_volume:
  "owning sample_file 1 [5] (sample_open_os []\<lparr>source_image := sample_volume\<rparr>)"
  using owns_sample [of "[]"] by (simp add: owns_def owned_def wf_os_def)

lemma sample_runs: "runs_content sample_volume 2 (da_runs sample_stream) 7 = Some [16, 17, 0, 0, 10, 11, 12]"
  by code_simp

lemma sample_recovered:
  "\<exists>s'. recover_file sample_stored sample_record 2 [0x62] False (sample_os []) = (Inr True, s')"
proof -
  let ?d = "\<lparr>da_resident = True, da_resident_data = [0x00, 0x7F, 0xFF], da_runs = [], da_real_size = 3\<rparr>"
  have "fst (with_atomic_file [0x62] False (recover_body ?d 2) (sample_os [])) = Inr True"
    by (subst with_atomic_file_calm [OF wf_sample_os])
      (simp_all add: sample_os_def available_def node_at_def partial_suffix_def stream_content_def)
  then show ?thesis
    by (simp add: recover_file_def sample_data_attributes sample_stored_def prod_eq_iff)
qed

text \<open>A disk that is full when the recovered file replaces \<open>a\<close>: the fourth call is the write.\<close>

definition full_disk_script :: "answer list" where
  "full_disk_script = map (\<lambda>v. \<lparr>racers = [], ruling = v\<rparr>) [Proceed, Proceed, Proceed, Fail (Errno 28)]"

lemma sample_write_failed:
  "\<exists>s'. recover_file sample_stored sample_record 2 [0x61] True (sample_os full_disk_script)
     = (Inl (WriteFailed ([0x61] @ partial_suffix) (Errno 28)), s')"
proof -
  have c: "syscall act \<lparr>entries = e, nodes = n, descriptors = d, next_id = i, source_image = im,
        script = \<lparr>racers = [], ruling = v\<rparr> # rest\<rparr> =
      (let s = \<lparr>entries = e, nodes = n, descriptors = d, next_id = i, source_image = im, script = rest\<rparr>
       in case v of Fail x \<Rightarrow> (Inl x, s) | Short m \<Rightarrow> act (Some m) s | Proceed \<Rightarrow> act None s)"
    for act :: "nat option \<Rightarrow> (errno, 'z) io" and e n d i im v rest
    by (simp add: syscall_def pop_def Let_def)
  show ?thesis unfolding sample_os_def full_disk_script_def
    by (simp add: recover_file_def sample_data_attributes sample_stored_def with_atomic_file_def open_atomic_def
      check_final_def clear_partial_def path_exists_def sys_lstat_def sys_open_exclusive_def c unsafe_existing_output_def
      recover_body_def write_atomic_def write_loop.simps sys_write_def add_node_def partial_suffix_def Let_def)
qed

section \<open>Properties\<close>

text \<open>
  C9: the copying of a non-resident stream equals its reference. When no call is refused and no
  product overflows, \<open>copy_nonresident\<close>, chunk by chunk and run by run, returns true exactly if the
  stream lies inside the image, and has then appended the bytes of its runs in order, holes as
  zeros, cut at the requested size.
\<close>

theorem copy_nonresident_reference:
  assumes "owns (partial_path f) (af_fd f) k c s" "script s = []" "length (source_image s) < 2 ^ 63"
    and "runs_fit cs (da_runs data)" "copy_nonresident data cs n f s = (r, s')"
  shows "case runs_content (source_image s) (unat cs) (da_runs data) (unat n) of
      Some d \<Rightarrow> r = Inr True \<and> nodes s' k = Some (Regular (c @ d))
    | None \<Rightarrow> r = Inr False"
proof -
  note w = assms(5) [unfolded copy_nonresident_def]
  note calm = copy_runs_calm [OF assms(1,2) w assms(3,4)]
  obtain d where d: "appends f k c s d s'"
      "r = Inr True \<longrightarrow> runs_content (source_image s) (unat cs) (da_runs data) (unat n) = Some d"
    using copy_runs_appends [OF assms(1) w] by blast
  show ?thesis
  proof (cases "runs_content (source_image s) (unat cs) (da_runs data) (unat n)")
    case (Some e)
    then have "r = Inr True" "d = e" using calm d(2) by auto
    then show ?thesis using Some d(1) by (simp add: appends_def owns_def owned_def)
  qed (use calm in simp)
qed

lemma copy_nonresident_reference_witness:
  "\<exists>s'. copy_nonresident sample_stream 2 7 sample_file (sample_open_os []\<lparr>source_image := sample_volume\<rparr>) = (Inr True, s')
     \<and> nodes s' 1 = Some (Regular [5, 16, 17, 0, 0, 10, 11, 12])"
proof -
  let ?s = "sample_open_os []\<lparr>source_image := sample_volume\<rparr>"
  have "script ?s = []" "length (source_image ?s) < 2 ^ 63" "source_image ?s = sample_volume"
    by (simp_all add: sample_open_os_def sample_volume_def)
  moreover have "runs_fit 2 (da_runs sample_stream)" by (simp add: runs_fit_def sample_stream_def)
  ultimately show ?thesis
    using copy_nonresident_reference [OF owns_sample_volume, of 2 sample_stream 7, OF _ _ _ prod.collapse [symmetric]]
    by (simp add: sample_runs prod_eq_iff)
qed

text \<open>
  C7: a recovered file is exactly the file. Whatever calls fail, are interrupted or shortened and
  whatever other processes create, if \<open>recover_file\<close> returns true then the target names a fresh file
  whose content is the first \<open>$DATA\<close> stream of the record: the resident bytes, or the runs read off
  the source image with holes as zeros, of exactly the stream's size.
\<close>

theorem recover_file_exact:
  assumes "wf_os s" "recover_file record mft cs path ov s = (Inr True, s')"
  shows "\<exists>data rest c k. data_attributes mft = Got (data # rest)
    \<and> stream_content (source_image s) (unat cs) data = Some c \<and> length c = unat (da_real_size data)
    \<and> entries s' path = Some k \<and> nodes s' k = Some (Regular c) \<and> nodes s k = None"
  using assms
proof (cases rule: recover_file_cases)
  case (scope data rest k)
  then obtain c where c: "stream_content (source_image s) (unat cs) data = Some c" "owned {path} k c s'"
      "entries s' path = Some k" "next_id s \<le> k"
    unfolding scope_outcome_def Let_def by auto
  have "nodes s' k = Some (Regular c)" using c(2) by (simp add: owned_def)
  then show ?thesis using scope(1) c(1,3) stream_content_length [OF c(1)] wf_fresh [OF assms(1) c(4)] by blast
qed simp

lemma recover_file_exact_witness:
  "\<exists>s'. recover_file sample_stored sample_record 2 [0x62] False (sample_os []) = (Inr True, s')
     \<and> node_at s' [0x62] = Some (Regular [0x00, 0x7F, 0xFF])"
proof -
  obtain s' where r: "recover_file sample_stored sample_record 2 [0x62] False (sample_os []) = (Inr True, s')"
    using sample_recovered by blast
  from recover_file_exact [OF wf_sample_os r] r show ?thesis
    by (auto simp: sample_data_attributes stream_content_def node_at_def)
qed

text \<open>
  Recovery destroys nothing. Whatever \<open>recover_file\<close> returns or throws, under any failures and
  interference: every path that existed still names the same unchanged node, except that with the
  overwrite option a stale partial may be replaced, and, only if it returns true, the target.
\<close>

theorem recover_file_preserves:
  assumes "wf_os s" "recover_file record mft cs path ov s = (r, s')" "entries s p = Some j"
    and "ov \<Longrightarrow> p \<noteq> path @ partial_suffix \<and> (r = Inr True \<longrightarrow> p \<noteq> path)"
  shows "entries s' p = Some j \<and> nodes s' j = nodes s j"
  using assms(1,2)
proof (cases rule: recover_file_cases)
  case (scope data rest k)
  show ?thesis by (rule scope_outcome_keeps [OF assms(1) scope(2) assms(3)]) (use assms(4) in \<open>auto simp: replaced_def\<close>)
qed (use assms(3) in simp)

lemma recover_file_preserves_witness:
  "entries (snd (recover_file sample_stored sample_record 2 [0x62] True (sample_os sample_script))) [0x61] = Some 0"
  using recover_file_preserves [OF wf_sample_os prod.collapse [symmetric], of sample_script "[0x61]" 0 True "[0x62]"
      sample_stored sample_record 2]
  by (simp add: sample_os_def partial_suffix_def)

text \<open>
  C8: a recovery that fails leaves the target alone. If \<open>recover_file\<close> does not return true, for any
  failing calls and any interference: every path that existed, the target included and also with the
  overwrite option, still names the same unchanged node, except that with the overwrite option a stale
  partial may be gone; and at most one node of its own remains, named only by the partial, or by the target
  with the complete stream (a publication whose own undoing failed). Undisturbed, no other path is new.
\<close>

theorem recover_file_failure_atomic:
  assumes "wf_os s" "recover_file record mft cs path ov s = (r, s')" "r \<noteq> Inr True"
  shows "(\<forall>p j. entries s p = Some j \<and> \<not> (ov \<and> p = path @ partial_suffix) \<longrightarrow> entries s' p = Some j \<and> nodes s' j = nodes s j)
    \<and> (\<exists>k. nodes s k = None
        \<and> (\<forall>p. entries s' p = Some k \<longrightarrow> p = path @ partial_suffix
             \<or> p = path \<and> (\<exists>data rest c. data_attributes mft = Got (data # rest)
                  \<and> stream_content (source_image s) (unat cs) data = Some c \<and> nodes s' k = Some (Regular c)))
        \<and> (quiet s \<longrightarrow> (\<forall>p j. entries s' p = Some j \<and> entries s p = None \<longrightarrow> j = k)))"
  using assms(1,2)
proof (cases rule: recover_file_cases)
  case (scope data rest k)
  have keep: "entries s' p = Some j \<and> nodes s' j = nodes s j"
    if "entries s p = Some j" "\<not> (ov \<and> p = path @ partial_suffix)" for p j
    by (rule scope_outcome_keeps [OF assms(1) scope(2) that(1)]) (use that(2) assms(3) in \<open>auto simp: replaced_def\<close>)
  have o: "preserved (replaced ov (path @ partial_suffix)) k s s'" "next_id s \<le> k"
    "\<forall>p. entries s' p = Some k \<longrightarrow> p = path @ partial_suffix \<or> (p = path \<and>
       (\<exists>c. stream_content (source_image s) (unat cs) data = Some c \<and> nodes s' k = Some (Regular c)))"
    using scope(2) assms(3) unfolding scope_outcome_def Let_def by auto
  have "\<exists>k. nodes s k = None
        \<and> (\<forall>p. entries s' p = Some k \<longrightarrow> p = path @ partial_suffix
             \<or> p = path \<and> (\<exists>data rest c. data_attributes mft = Got (data # rest)
                  \<and> stream_content (source_image s) (unat cs) data = Some c \<and> nodes s' k = Some (Regular c)))
        \<and> (quiet s \<longrightarrow> (\<forall>p j. entries s' p = Some j \<and> entries s p = None \<longrightarrow> j = k))"
    by (intro exI [of _ k] conjI impI)
      (use wf_fresh [OF assms(1) o(2)] o(3) scope(1) preserved_new [OF o(1)] in blast)+
  then show ?thesis using keep by blast
next
  case refused
  have "entries s p \<noteq> Some (next_id s)" for p using wf_entry [OF assms(1)] by blast
  then show ?thesis using refused(2) wf_fresh [OF assms(1) order_refl] by (intro conjI exI [of _ "next_id s"]) auto
qed

lemma recover_file_failure_atomic_witness:
  "\<exists>s'. recover_file sample_stored sample_record 2 [0x61] True (sample_os full_disk_script)
      = (Inl (WriteFailed ([0x61] @ partial_suffix) (Errno 28)), s')
    \<and> entries s' [0x61] = Some 0 \<and> nodes s' 0 = Some (Regular [7])"
proof -
  obtain s' where r: "recover_file sample_stored sample_record 2 [0x61] True (sample_os full_disk_script)
      = (Inl (WriteFailed ([0x61] @ partial_suffix) (Errno 28)), s')" using sample_write_failed by blast
  have "entries (sample_os full_disk_script) [0x61] = Some 0" "nodes (sample_os full_disk_script) 0 = Some (Regular [7])"
    by (simp_all add: sample_os_def)
  moreover have "\<not> (True \<and> [0x61] = [0x61] @ partial_suffix)" by (simp add: partial_suffix_def)
  ultimately have "entries s' [0x61] = Some 0 \<and> nodes s' 0 = Some (Regular [7])"
    using recover_file_failure_atomic [OF wf_sample_os r] by (metis Inl_Inr_False)
  then show ?thesis using r by blast
qed

text \<open>
  C10: when recovery succeeds. With the paths available, no call refused and no overflow,
  \<open>recover_file\<close> returns true exactly if the record has a \<open>$DATA\<close> attribute, whose size does not
  exceed the indexed one, and whose whole stream is readable.
\<close>

theorem recover_file_complete:
  assumes "wf_os s" "script s = []" "available s ov path" "available s ov (path @ partial_suffix)"
    and "length (source_image s) < 2 ^ 63"
    and "\<And>data rest. data_attributes mft = Got (data # rest) \<Longrightarrow> da_resident data \<or> runs_fit cs (da_runs data)"
  shows "fst (recover_file record mft cs path ov s) = Inr True \<longleftrightarrow>
    (\<exists>data rest. data_attributes mft = Got (data # rest)
      \<and> (sr_real_size record = 0 \<or> da_real_size data \<le> sr_real_size record)
      \<and> stream_content (source_image s) (unat cs) data \<noteq> None)"
proof (cases "\<exists>data rest. data_attributes mft = Got (data # rest)")
  case False
  then show ?thesis by (auto simp: recover_file_def split: access.splits list.splits)
next
  case True
  then obtain data rest where d: "data_attributes mft = Got (data # rest)" by blast
  from with_atomic_file_calm [OF assms(1-5) assms(6) [OF d]] d show ?thesis
    by (auto simp: recover_file_def not_le)
qed

lemma recover_file_complete_witness:
  "fst (recover_file sample_stored sample_record 2 [0x62] False (sample_os [])) = Inr True"
  using recover_file_complete [of "sample_os []" False "[0x62]" sample_record 2 sample_stored, OF wf_sample_os]
  by (simp add: sample_os_def available_def node_at_def partial_suffix_def sample_data_attributes sample_stored_def
      stream_content_def)

end
