(* ===== verification/RecordLocation.thy ===== *)
theory RecordLocation
  imports RecoverFile
begin

text \<open>
  \<open>locate_records\<close> of \<open>src/Recover.cpp\<close>: the scan of the source for the FILE records of a set of
  wanted record numbers, and that it finds the first aligned record of each.
\<close>

section \<open>Locating the FILE records\<close>

text \<open>Without reference to the name space: a read at an offset that \<open>off_t\<close> cannot hold fails.\<close>

lemma read_loop_beyond: "0 < sz \<Longrightarrow> \<not> unat off < 2 ^ 63 \<Longrightarrow> buf = [] \<Longrightarrow> fst (read_loop sz off buf s) = None"
proof (induction sz off buf s rule: read_loop.induct)
  case (1 sz off buf s)
  have neg: "sint (off + of_nat (length buf)) < 0"
    using "1.prems"(2,3) nonneg_unat [of off] by simp
  obtain r1 s1 where p: "sys_pread (sz - length buf) (off + of_nat (length buf)) s = (r1, s1)"
    by (cases "sys_pread (sz - length buf) (off + of_nat (length buf)) s")
  then obtain e where e: "r1 = Inl e"
    using neg by (auto simp: sys_pread_def syscall_def split: prod.splits verdict.splits)
  have c: "length buf < sz" using "1.prems" by simp
  show ?case
  proof (cases "e = EINTR")
    case True
    with "1.IH"(1) [OF c p [symmetric] e True "1.prems"] show ?thesis
      using c p e by (simp add: read_loop.simps [of sz off buf s])
  next
    case False
    then show ?thesis using c p e by (simp add: read_loop.simps [of sz off buf s])
  qed
qed

lemma read_record_offset:
  assumes "read_exact_at RecordSize off s = (Some d, s')"
  shows "unat off < 2 ^ 63" "unat (off + of_nat RecordSize) = unat off + RecordSize"
proof -
  show o: "unat off < 2 ^ 63"
    using read_loop_beyond [of RecordSize off "[]" s] assms
    by (cases "unat off < 2 ^ 63") (auto simp: read_exact_at_def RecordSize_def)
  show "unat (off + of_nat RecordSize) = unat off + RecordSize"
    using o by (intro unat_add_small) (simp add: RecordSize_def)
qed

text \<open>What one block adds to the records found so far, an association list in the order of discovery.\<close>

definition locate_step :: "u64 set \<Rightarrow> bytes \<Rightarrow> (u64 \<times> bytes) list \<Rightarrow> runtime_error + (u64 \<times> bytes) list" where
  "locate_step wanted buffer found =
     (if take 4 buffer = FILE_magic then
        (case record_number buffer of
           OutOfBounds \<Rightarrow> Inl MemoryFault
         | Got None \<Rightarrow> Inr found
         | Got (Some number) \<Rightarrow>
             Inr (if number \<in> wanted \<and> map_of found number = None then found @ [(number, buffer)] else found))
      else Inr found)"

function locate_loop :: "u64 set \<Rightarrow> u64 \<Rightarrow> (u64 \<times> bytes) list \<Rightarrow> (runtime_error, (u64 \<times> bytes) list) io" where
  "locate_loop wanted offset found s =
     (if length found < card wanted then
        (case read_exact_at RecordSize offset s of
           (None, s1) \<Rightarrow> (Inr found, s1)
         | (Some buffer, s1) \<Rightarrow>
             (case locate_step wanted buffer found of
                Inl e \<Rightarrow> (Inl e, s1)
              | Inr found' \<Rightarrow> locate_loop wanted (offset + of_nat RecordSize) found' s1))
      else (Inr found, s))"
  by pat_completeness auto
termination
proof (relation "measure (\<lambda>(wanted, offset, found, s). 2 ^ 64 - unat offset)", goal_cases)
  case 1 then show ?case by simp
next
  case (2 wanted offset found s p s1 buffer found')
  then have "read_exact_at RecordSize offset s = (Some buffer, s1)" by (metis prod.collapse)
  from read_record_offset [OF this] show ?case by (simp add: RecordSize_def)
qed

declare locate_loop.simps [simp del]

definition locate_records :: "u64 set \<Rightarrow> (runtime_error, (u64 \<times> bytes) list) io" where
  "locate_records wanted s = (if wanted = {} then (Inr [], s) else locate_loop wanted 0 [] s)"

section \<open>The first record of each number\<close>

definition block :: "bytes \<Rightarrow> nat \<Rightarrow> bytes" where
  "block img i = sub_bytes img (i * RecordSize) RecordSize"

definition numbered :: "u64 \<Rightarrow> bytes \<Rightarrow> bool" where
  "numbered n buf \<longleftrightarrow> take 4 buf = FILE_magic \<and> record_number buf = Got (Some n)"

definition first_block :: "bytes \<Rightarrow> nat \<Rightarrow> u64 \<Rightarrow> bytes option" where
  "first_block img i n = find (numbered n) (map (block img) [0..<i])"

lemma find_append: "find P (xs @ ys) = (case find P xs of None \<Rightarrow> find P ys | Some x \<Rightarrow> Some x)"
  by (induction xs) auto

lemma first_block_Suc:
  "first_block img (Suc i) n =
     (case first_block img i n of None \<Rightarrow> if numbered n (block img i) then Some (block img i) else None | Some b \<Rightarrow> Some b)"
  by (simp add: first_block_def find_append split: option.splits)

lemma first_block_mono: "first_block img i n = Some b \<Longrightarrow> i \<le> j \<Longrightarrow> first_block img j n = Some b"
proof (induction j)
  case (Suc j)
  then show ?case by (cases "i = Suc j") (simp_all add: first_block_Suc [of img j])
qed simp

definition located :: "bytes \<Rightarrow> u64 set \<Rightarrow> nat \<Rightarrow> (u64 \<times> bytes) list \<Rightarrow> bool" where
  "located img wanted i found \<longleftrightarrow> distinct (map fst found)
     \<and> (\<forall>n. map_of found n = (if n \<in> wanted then first_block img i n else None))"

lemma record_number_safe: "record_number buf \<noteq> OutOfBounds"
  by (auto simp: record_number_eq split: access.splits option.splits)

lemma locate_step_located:
  assumes "located img wanted i found"
  shows "\<exists>found'. locate_step wanted (block img i) found = Inr found' \<and> located img wanted (Suc i) found'"
proof (cases "\<exists>m. numbered m (block img i)")
  case False
  then have "locate_step wanted (block img i) found = Inr found"
    using record_number_safe [of "block img i"]
    by (auto simp: locate_step_def numbered_def split: access.splits option.splits)
  moreover have "first_block img (Suc i) n = first_block img i n" for n
    using False by (simp add: first_block_Suc split: option.splits)
  ultimately show ?thesis using assms by (simp add: located_def)
next
  case True
  then obtain m where m: "numbered m (block img i)" by blast
  then have u: "numbered n (block img i) \<longleftrightarrow> n = m" for n by (auto simp: numbered_def)
  have f: "first_block img (Suc i) n = (if n = m \<and> first_block img i m = None then Some (block img i) else first_block img i n)" for n
    by (simp add: first_block_Suc u split: option.splits)
  let ?f = "if m \<in> wanted \<and> map_of found m = None then found @ [(m, block img i)] else found"
  have "locate_step wanted (block img i) found = Inr ?f"
    using m by (simp add: locate_step_def numbered_def)
  moreover have "located img wanted (Suc i) ?f"
  proof (cases "m \<in> wanted \<and> map_of found m = None")
    case True
    then have "distinct (map fst ?f)" using assms by (auto simp: located_def map_of_eq_None_iff)
    then show ?thesis using True assms unfolding located_def f by (auto simp: map_of_append map_add_def split: option.splits)
  next
    case False
    then show ?thesis using assms unfolding located_def f by auto
  qed
  ultimately show ?thesis by blast
qed

lemma located_dom:
  assumes "located img wanted i found"
  shows "fst ` set found \<subseteq> wanted" "length found = card (fst ` set found)"
proof -
  show "fst ` set found \<subseteq> wanted"
  proof
    fix n assume "n \<in> fst ` set found"
    then have "map_of found n \<noteq> None" by (simp add: map_of_eq_None_iff)
    then show "n \<in> wanted" using assms by (auto simp: located_def split: if_splits)
  qed
  show "length found = card (fst ` set found)"
    using assms distinct_card [of "map fst found"] by (simp add: located_def)
qed

text \<open>When as many records are found as are wanted, reading on would change nothing.\<close>

lemma located_full:
  assumes "located img wanted i found" "\<not> length found < card wanted" "i \<le> j"
  shows "located img wanted j found"
proof -
  have all: "fst ` set found = wanted"
  proof (rule card_subset_eq)
    show "card (fst ` set found) = card wanted"
      using located_dom [OF assms(1)] assms(2) card_mono [of wanted "fst ` set found"] by simp
  qed (use located_dom(1) [OF assms(1)] in simp_all)
  have "first_block img j n = map_of found n" if "n \<in> wanted" for n
  proof -
    have "map_of found n \<noteq> None" using that all by (simp add: map_of_eq_None_iff)
    then obtain b where b: "map_of found n = Some b" by blast
    then have "first_block img i n = Some b" using assms(1) that by (auto simp: located_def)
    then show ?thesis using first_block_mono [OF _ assms(3)] b by simp
  qed
  then show ?thesis using assms(1) by (auto simp: located_def)
qed

lemma block_range: "i < length img div RecordSize \<longleftrightarrow> i * RecordSize + RecordSize \<le> length img"
proof -
  have "i < length img div RecordSize \<longleftrightarrow> Suc i \<le> length img div RecordSize" by auto
  also have "\<dots> \<longleftrightarrow> Suc i * RecordSize \<le> length img" by (rule less_eq_div_iff_mult_less_eq) (simp add: RecordSize_def)
  finally show ?thesis by (simp add: add.commute)
qed

lemma locate_loop_located:
  assumes "wf_os s" "unat off = i * RecordSize" "located (source_image s) wanted i found"
    "i \<le> length (source_image s) div RecordSize" "locate_loop wanted off found s = (r, s')"
  shows "extended s s' \<and> wf_os s' \<and> (\<exists>j found'. r = Inr found' \<and> i \<le> j \<and> j \<le> length (source_image s) div RecordSize
     \<and> located (source_image s) wanted j found'
     \<and> (script s = [] \<and> length (source_image s) < 2 ^ 63 \<longrightarrow> s' = s \<and> j = length (source_image s) div RecordSize))"
  using assms
proof (induction wanted off found s arbitrary: i rule: locate_loop.induct)
  case (1 wanted off found s)
  let ?img = "source_image s"
  show ?case
  proof (cases "length found < card wanted")
    case True
    obtain r1 s1 where rd: "read_exact_at RecordSize off s = (r1, s1)" by (cases "read_exact_at RecordSize off s")
    note e = read_exact_at_effect [OF "1.prems"(1) rd]
    then have im: "source_image s1 = ?img" by (simp add: extended_def)
    show ?thesis
    proof (cases r1)
      case None
      then have "r = Inr found" "s' = s1" using "1.prems"(5) True rd by (simp_all add: locate_loop.simps [of wanted off found s])
      moreover have "s1 = s \<and> i = length ?img div RecordSize" if calm: "script s = []" "length ?img < 2 ^ 63"
      proof -
        have "s1 = s \<and> \<not> unat off + RecordSize \<le> length ?img"
          using read_exact_at_calm [OF calm(1), of RecordSize off] rd None calm(2) by (auto simp: RecordSize_def split: if_splits)
        then show ?thesis using "1.prems"(2,4) block_range [of i ?img] by auto
      qed
      ultimately show ?thesis using e "1.prems"(3,4) by blast
    next
      case (Some buf)
      have b: "buf = block ?img i" "i < length ?img div RecordSize"
        using read_exact_at_Some [OF "1.prems"(1) rd [unfolded Some]] "1.prems"(2) block_range [of i ?img]
        by (auto simp: block_def RecordSize_def)
      obtain found' where f: "locate_step wanted buf found = Inr found'" "located ?img wanted (Suc i) found'"
        using locate_step_located [OF "1.prems"(3)] b(1) by blast
      have r: "locate_loop wanted (off + of_nat RecordSize) found' s1 = (r, s')"
        using "1.prems"(5) True rd Some f(1) by (simp add: locate_loop.simps [of wanted off found s])
      have u: "unat (off + of_nat RecordSize) = Suc i * RecordSize"
        using read_record_offset(2) [OF rd [unfolded Some]] "1.prems"(2) by simp
      have l: "located (source_image s1) wanted (Suc i) found'" "Suc i \<le> length (source_image s1) div RecordSize"
        using f(2) b(2) im by simp_all
      from "1.IH" [OF True rd [symmetric] Some f(1) conjunct2 [OF e] u l r]
      obtain j found'' where j: "extended s1 s'" "wf_os s'" "r = Inr found''" "Suc i \<le> j" "j \<le> length ?img div RecordSize"
        "located ?img wanted j found''"
        "script s1 = [] \<and> length ?img < 2 ^ 63 \<longrightarrow> s' = s1 \<and> j = length ?img div RecordSize"
        unfolding im by blast
      have "s1 = s" if "script s = []"
        using read_exact_at_calm [OF that, of RecordSize off] rd by (auto simp: RecordSize_def split: if_splits)
      then show ?thesis using j extended_trans [OF conjunct1 [OF e] j(1)] by (auto intro!: exI [of _ j])
    qed
  next
    case False
    then have "r = Inr found" "s' = s" using "1.prems"(5) by (simp_all add: locate_loop.simps [of wanted off found s])
    then show ?thesis using located_full [OF "1.prems"(3) False "1.prems"(4)] "1.prems"(1,4)
      by (intro conjI exI [of _ "length ?img div RecordSize"]) auto
  qed
qed

lemma locate_records_located:
  assumes "wf_os s" "locate_records wanted s = (r, s')"
  shows "extended s s' \<and> wf_os s' \<and> (\<exists>j found'. r = Inr found' \<and> j \<le> length (source_image s) div RecordSize
     \<and> located (source_image s) wanted j found'
     \<and> (script s = [] \<and> length (source_image s) < 2 ^ 63 \<longrightarrow> s' = s \<and> j = length (source_image s) div RecordSize))"
proof (cases "wanted = {}")
  case True
  then show ?thesis using assms by (auto simp: locate_records_def located_def)
next
  case False
  then have "locate_loop wanted 0 [] s = (r, s')" using assms(2) by (simp add: locate_records_def)
  from locate_loop_located [OF assms(1) _ _ _ this, of 0] show ?thesis
    by (auto simp: located_def first_block_def)
qed

section \<open>A source with one record\<close>

lemma sample_number: "record_number sample_record = Got (Some 42)"
  by (simp add: record_number_eq sample_restored_record sample_restored_words)

definition sample_source :: os where
  "sample_source = sample_os []\<lparr>source_image := sample_record\<rparr>"

lemma wf_sample_source: "wf_os sample_source"
  using wf_sample_os [of "[]"] by (simp add: sample_source_def wf_os_def)

lemma length_sample_record: "length sample_record = 1024"
  using sample_fields(1) by (simp add: RecordSize_def)

lemma sample_first_block: "first_block sample_record 1 42 = Some sample_record"
  using sample_number sample_fields
  by (simp add: first_block_def block_def numbered_def sub_bytes_def length_sample_record RecordSize_def)

section \<open>Properties\<close>

text \<open>
  C11: the records located are the first ones. Whatever reads fail, the scan over the blocks of 1024
  bytes ends (it is a total function), and there is a prefix of the image's blocks such that exactly
  the wanted numbers that occur in it are found, each with the first block of that prefix whose
  \<open>FILE\<close> record is intact and carries the number; undisturbed, the prefix is the whole image. Nothing
  is written.
\<close>

theorem locate_records_first:
  assumes "wf_os s" "locate_records wanted s = (r, s')"
  shows "\<exists>found i. r = Inr found \<and> i \<le> length (source_image s) div RecordSize
    \<and> (\<forall>n. map_of found n = (if n \<in> wanted then first_block (source_image s) i n else None))
    \<and> (script s = [] \<and> length (source_image s) < 2 ^ 63 \<longrightarrow> i = length (source_image s) div RecordSize)
    \<and> (\<forall>p j. entries s p = Some j \<longrightarrow> entries s' p = Some j \<and> nodes s' j = nodes s j)"
proof -
  note l = locate_records_located [OF assms]
  have "entries s' p = Some j \<and> nodes s' j = nodes s j" if "entries s p = Some j" for p j
    using wf_entry [OF assms(1) that] l that by (fastforce simp: extended_def)
  then show ?thesis using l unfolding located_def by blast
qed

lemma locate_records_first_witness:
  "\<exists>found s'. locate_records {42, 7} sample_source = (Inr found, s')
     \<and> map_of found 42 = Some sample_record \<and> map_of found 7 = None"
proof -
  have q: "source_image sample_source = sample_record" "script sample_source = []"
    "length sample_record div RecordSize = 1" "length sample_record < 2 ^ 63"
    by (simp_all add: sample_source_def sample_os_def length_sample_record RecordSize_def)
  have n: "first_block sample_record 1 7 = None"
    using sample_number
    by (simp add: first_block_def block_def numbered_def sub_bytes_def length_sample_record RecordSize_def)
  obtain r s' where l: "locate_records {42, 7} sample_source = (r, s')" by (cases "locate_records {42, 7} sample_source")
  from locate_records_first [OF wf_sample_source l] show ?thesis
    unfolding q using l n sample_first_block q by auto
qed

end
