(* ===== verification/TreeCollection.thy ===== *)
theory TreeCollection
  imports RecoverTree
begin

text \<open>
  What \<open>collect_tree\<close> of \<open>src/Recover.cpp\<close> collects, for any arrangement of the children: output
  paths that stay below the destination, no two of which collide, each in a directory collected
  before it; and, on success, exactly the directories reachable from the root and their children.
\<close>

section \<open>The collected paths\<close>

text \<open>An item lies directly below the root of the output or below an earlier directory item.\<close>

definition placed :: "recover_item list \<Rightarrow> recover_item \<Rightarrow> bool" where
  "placed earlier item \<longleftrightarrow>
     (\<exists>ss. (\<forall>c \<in> set ss. safe_component c)
        \<and> ri_relative_path item = join_slash (ss @ [sanitize_name (sr_name (ri_record item))])
        \<and> (ss = [] \<or> (\<exists>d \<in> set earlier. sr_is_directory (ri_record d) \<and> ri_relative_path d = join_slash ss)))"

fun items_placed :: "recover_item list \<Rightarrow> recover_item list \<Rightarrow> bool" where
  "items_placed earlier [] = True"
| "items_placed earlier (x # xs) = (placed earlier x \<and> items_placed (earlier @ [x]) xs)"

lemma items_placed_append:
  "items_placed earlier (xs @ ys) \<longleftrightarrow> items_placed earlier xs \<and> items_placed (earlier @ xs) ys"
  by (induction xs arbitrary: earlier) auto

definition item_keys :: "recover_item list \<Rightarrow> bytes list" where
  "item_keys items = map (\<lambda>i. collision_key (ri_relative_path i)) items"

text \<open>The invariant of the three containers.\<close>

definition tree_ok :: "tree_state \<Rightarrow> bool" where
  "tree_ok st \<longleftrightarrow> items_placed [] (ts_items st) \<and> distinct (item_keys (ts_items st))
     \<and> dom (ts_collisions st) = set (item_keys (ts_items st))"

definition base_ok :: "path \<Rightarrow> tree_state \<Rightarrow> bool" where
  "base_ok base st \<longleftrightarrow> (\<exists>ss. (\<forall>c \<in> set ss. safe_component c) \<and> base = join_slash ss
     \<and> (ss = [] \<or> (\<exists>d \<in> set (ts_items st). sr_is_directory (ri_record d) \<and> ri_relative_path d = base)))"

lemma base_ok_mono: "base_ok b st \<Longrightarrow> set (ts_items st) \<subseteq> set (ts_items st') \<Longrightarrow> base_ok b st'"
  unfolding base_ok_def by blast

definition add_item :: "tree_state \<Rightarrow> tracker \<Rightarrow> stored_record \<Rightarrow> path \<Rightarrow> tree_state" where
  "add_item st t c rel = st\<lparr>ts_collisions := t,
     ts_items := ts_items st @ [\<lparr>ri_record = c, ri_relative_path = rel\<rparr>]\<rparr>"

lemma add_item_ok:
  assumes "tree_ok st" "base_ok base st"
    and "tracker_add (ts_collisions st) (path_append base (sanitize_name (sr_name c))) n r = Inr t"
  shows "tree_ok (add_item st t c (path_append base (sanitize_name (sr_name c))))"
    and "sr_is_directory c \<Longrightarrow>
      base_ok (path_append base (sanitize_name (sr_name c))) (add_item st t c (path_append base (sanitize_name (sr_name c))))"
proof -
  obtain ss where ss: "\<forall>c \<in> set ss. safe_component c" "base = join_slash ss"
      "ss = [] \<or> (\<exists>d \<in> set (ts_items st). sr_is_directory (ri_record d) \<and> ri_relative_path d = base)"
    using assms(2) by (auto simp: base_ok_def)
  have rel: "path_append base (sanitize_name (sr_name c)) = join_slash (ss @ [sanitize_name (sr_name c)])"
    using path_append_safe [OF ss(1) sanitize_name_component] ss(2) by simp
  have "placed (ts_items st) \<lparr>ri_record = c, ri_relative_path = join_slash (ss @ [sanitize_name (sr_name c)])\<rparr>"
    using ss by (auto simp: placed_def)
  then show "tree_ok (add_item st t c (path_append base (sanitize_name (sr_name c))))"
    using assms(1,3) unfolding rel
    by (auto simp: tree_ok_def add_item_def items_placed_append item_keys_def tracker_add_Inr)
  show "sr_is_directory c \<Longrightarrow>
      base_ok (path_append base (sanitize_name (sr_name c))) (add_item st t c (path_append base (sanitize_name (sr_name c))))"
    unfolding rel base_ok_def
    by (rule exI [of _ "ss @ [sanitize_name (sr_name c)]"])
      (use ss(1) sanitize_name_component in \<open>auto simp: add_item_def\<close>)
qed

text \<open>One step of the loop over the children.\<close>

lemma collect_children_Cons:
  "collect_children arrange idx (c # rest) base st = Inr st' \<longleftrightarrow>
     (\<exists>t st2. tracker_add (ts_collisions st) (path_append base (sanitize_name (sr_name c))) (sr_name c)
                (sr_record_id_guess c) = Inr t
        \<and> (if sr_is_directory c
            then collect_tree arrange idx (sr_record_id_guess c) (path_append base (sanitize_name (sr_name c)))
                   (add_item st t c (path_append base (sanitize_name (sr_name c)))) = Inr st2
            else st2 = add_item st t c (path_append base (sanitize_name (sr_name c))))
        \<and> collect_children arrange idx rest base st2 = Inr st')"
  by (auto simp: collect_children.simps(2) Let_def add_item_def split: sum.splits if_splits)

lemma collect_tree_Inr:
  "collect_tree arrange idx parent base st = Inr st' \<longleftrightarrow>
     (if parent \<in> ts_visited st then st' = st
      else (\<exists>cs. idx parent = Inr cs \<and> collect_children arrange idx (dedup_children arrange cs) base
              (st\<lparr>ts_visited := insert parent (ts_visited st)\<rparr>) = Inr st'))"
  by (auto simp: collect_tree.simps [of arrange idx parent base st] split: sum.splits)

text \<open>A property that one step keeps holds of the whole collection.\<close>

lemma collect_induct:
  fixes P :: "u64 \<Rightarrow> path \<Rightarrow> tree_state \<Rightarrow> tree_state \<Rightarrow> bool"
    and Q :: "stored_record list \<Rightarrow> path \<Rightarrow> tree_state \<Rightarrow> tree_state \<Rightarrow> bool"
  assumes seen: "\<And>p b st. p \<in> ts_visited st \<Longrightarrow> P p b st st"
    and expand: "\<And>p b st cs st'. p \<notin> ts_visited st \<Longrightarrow> idx p = Inr cs \<Longrightarrow>
        Q (dedup_children arrange cs) b (st\<lparr>ts_visited := insert p (ts_visited st)\<rparr>) st' \<Longrightarrow> P p b st st'"
    and nil: "\<And>b st. Q [] b st st"
    and cons: "\<And>c rest b st t st2 st' rel. rel = path_append b (sanitize_name (sr_name c)) \<Longrightarrow>
        tracker_add (ts_collisions st) rel (sr_name c) (sr_record_id_guess c) = Inr t \<Longrightarrow>
        (if sr_is_directory c then P (sr_record_id_guess c) rel (add_item st t c rel) st2 else st2 = add_item st t c rel) \<Longrightarrow>
        Q rest b st2 st' \<Longrightarrow> Q (c # rest) b st st'"
  shows "(\<forall>p b st st'. collect_tree arrange idx p b st = Inr st' \<longrightarrow> P p b st st')
    \<and> (\<forall>cs b st st'. collect_children arrange idx cs b st = Inr st' \<longrightarrow> Q cs b st st')"
proof -
  have h1: "A = arrange \<Longrightarrow> I = idx \<Longrightarrow> collect_tree A I p b st = Inr st' \<Longrightarrow> P p b st st'"
    and h2: "A = arrange \<Longrightarrow> I = idx \<Longrightarrow> collect_children A I cs b st = Inr st' \<Longrightarrow> Q cs b st st'" for A I p b cs st st'
  proof (induction A I p b st and A I cs b st arbitrary: st' and st' rule: collect_tree_collect_children.induct)
    case (1 A I p b st)
    show ?case
    proof (cases "p \<in> ts_visited st")
      case True
      then show ?thesis using "1.prems" seen by (simp add: collect_tree_Inr)
    next
      case False
      then obtain cs where cs: "idx p = Inr cs" "collect_children arrange idx (dedup_children arrange cs) b
              (st\<lparr>ts_visited := insert p (ts_visited st)\<rparr>) = Inr st'"
        using "1.prems" by (auto simp: collect_tree_Inr)
      have "Q (dedup_children arrange cs) b (st\<lparr>ts_visited := insert p (ts_visited st)\<rparr>) st'"
        using "1.IH" [of cs] False cs "1.prems"(1,2) by simp
      with expand [OF False cs(1)] show ?thesis .
    qed
  next
    case (2 A I b st)
    then show ?case using nil by simp
  next
    case (3 A I c rest b st)
    let ?rel = "path_append b (sanitize_name (sr_name c))"
    obtain t st2 where t: "tracker_add (ts_collisions st) ?rel (sr_name c) (sr_record_id_guess c) = Inr t"
      and m: "if sr_is_directory c then collect_tree arrange idx (sr_record_id_guess c) ?rel (add_item st t c ?rel) = Inr st2
              else st2 = add_item st t c ?rel"
      and r: "collect_children arrange idx rest b st2 = Inr st'"
      using "3.prems" by (auto simp: collect_children_Cons)
    have "if sr_is_directory c then P (sr_record_id_guess c) ?rel (add_item st t c ?rel) st2 else st2 = add_item st t c ?rel"
    proof (cases "sr_is_directory c")
      case True
      then show ?thesis using m "3.IH"(1) [OF refl t refl True "3.prems"(1,2), of st2] "3.prems"(1,2)
        by (simp add: add_item_def)
    next
      case False
      then show ?thesis using m by simp
    qed
    moreover have "Q rest b st2 st'"
    proof (rule "3.IH"(2) [OF refl t refl _ "3.prems"(1,2)])
      show "(if sr_is_directory c then collect_tree A I (sr_record_id_guess c) ?rel
            (st\<lparr>ts_collisions := t, ts_items := ts_items st @ [\<lparr>ri_record = c, ri_relative_path = ?rel\<rparr>]\<rparr>)
          else Inr (st\<lparr>ts_collisions := t, ts_items := ts_items st @ [\<lparr>ri_record = c, ri_relative_path = ?rel\<rparr>]\<rparr>)) = Inr st2"
        using m "3.prems"(1,2) by (cases "sr_is_directory c") (simp_all add: add_item_def)
      show "collect_children A I rest b st2 = Inr st'" by (simp only: "3.prems"(1,2) r)
    qed
    ultimately show ?case by (rule cons [OF refl t])
  qed
  show ?thesis
    by (intro conjI allI impI) (erule h1 [OF refl refl], erule h2 [OF refl refl])
qed

lemma collect_grow:
  "(\<forall>p b st st'. collect_tree arrange idx p b st = Inr st' \<longrightarrow>
      ts_visited st \<subseteq> ts_visited st' \<and> set (ts_items st) \<subseteq> set (ts_items st'))
   \<and> (\<forall>cs b st st'. collect_children arrange idx cs b st = Inr st' \<longrightarrow>
      ts_visited st \<subseteq> ts_visited st' \<and> set (ts_items st) \<subseteq> set (ts_items st'))"
  by (rule collect_induct) (auto simp: add_item_def split: if_splits)

lemma collect_ok:
  "(\<forall>p b st st'. collect_tree arrange idx p b st = Inr st' \<longrightarrow>
      tree_ok st \<longrightarrow> base_ok b st \<longrightarrow> tree_ok st' \<and> set (ts_items st) \<subseteq> set (ts_items st'))
   \<and> (\<forall>cs b st st'. collect_children arrange idx cs b st = Inr st' \<longrightarrow>
      tree_ok st \<longrightarrow> base_ok b st \<longrightarrow> tree_ok st' \<and> set (ts_items st) \<subseteq> set (ts_items st'))"
proof (rule collect_induct, goal_cases)
  case (2 p b st cs st')
  then show ?case by (simp add: tree_ok_def base_ok_def)
next
  case (4 c rest b st t st2 st' rel)
  show ?case
  proof (intro impI)
    assume ok: "tree_ok st" "base_ok b st"
    note a = add_item_ok [OF ok, of c "sr_name c" "sr_record_id_guess c" t, folded 4(1), OF 4(2)]
    have sub: "set (ts_items st) \<subseteq> set (ts_items (add_item st t c rel))" by (auto simp: add_item_def)
    have "tree_ok st2 \<and> set (ts_items st) \<subseteq> set (ts_items st2)"
      using 4(3) a sub by (cases "sr_is_directory c") auto
    then show "tree_ok st' \<and> set (ts_items st) \<subseteq> set (ts_items st')"
      using 4(4) base_ok_mono [OF ok(2)] by blast
  qed
qed simp_all

lemma tree_ok_new: "tree_ok new_tree"
  by (simp add: tree_ok_def new_tree_def item_keys_def)

lemma base_ok_root: "base_ok [] st"
  unfolding base_ok_def by (rule exI [of _ "[]"]) simp

lemma collect_tree_ok: "collect_tree arrange idx root [] new_tree = Inr st \<Longrightarrow> tree_ok st"
  using collect_ok [of arrange idx] tree_ok_new base_ok_root by blast

section \<open>Reachability\<close>

text \<open>The directories below a root, as the index describes them.\<close>

inductive reachable :: "(stored_record list \<Rightarrow> stored_record list) \<Rightarrow> record_index \<Rightarrow> u64 \<Rightarrow> u64 \<Rightarrow> bool"
  for arrange idx root where
  reach_root: "reachable arrange idx root root"
| reach_child: "reachable arrange idx root d \<Longrightarrow> idx d = Inr cs \<Longrightarrow> c \<in> set (dedup_children arrange cs) \<Longrightarrow>
    sr_is_directory c \<Longrightarrow> reachable arrange idx root (sr_record_id_guess c)"

text \<open>A directory whose children are all collected, and its subdirectories visited.\<close>

definition expanded ::
  "(stored_record list \<Rightarrow> stored_record list) \<Rightarrow> record_index \<Rightarrow> tree_state \<Rightarrow> u64 \<Rightarrow> bool" where
  "expanded arrange idx st d \<longleftrightarrow>
     (\<exists>cs. idx d = Inr cs \<and> (\<forall>c \<in> set (dedup_children arrange cs).
        c \<in> ri_record ` set (ts_items st) \<and> (sr_is_directory c \<longrightarrow> sr_record_id_guess c \<in> ts_visited st)))"

lemma expanded_mono:
  "expanded arrange idx st d \<Longrightarrow> ts_visited st \<subseteq> ts_visited st' \<Longrightarrow> set (ts_items st) \<subseteq> set (ts_items st')
     \<Longrightarrow> expanded arrange idx st' d"
  unfolding expanded_def by blast

definition grows :: "tree_state \<Rightarrow> tree_state \<Rightarrow> bool" where
  "grows st st' \<longleftrightarrow> ts_visited st \<subseteq> ts_visited st' \<and> set (ts_items st) \<subseteq> set (ts_items st')"

lemma collect_expands:
  "(\<forall>p b st st'. collect_tree arrange idx p b st = Inr st' \<longrightarrow>
      grows st st' \<and> p \<in> ts_visited st'
      \<and> (\<forall>d \<in> ts_visited st'. d \<in> ts_visited st \<or> expanded arrange idx st' d))
   \<and> (\<forall>cs b st st'. collect_children arrange idx cs b st = Inr st' \<longrightarrow>
      grows st st'
      \<and> (\<forall>c \<in> set cs. c \<in> ri_record ` set (ts_items st') \<and> (sr_is_directory c \<longrightarrow> sr_record_id_guess c \<in> ts_visited st'))
      \<and> (\<forall>d \<in> ts_visited st'. d \<in> ts_visited st \<or> expanded arrange idx st' d))"
proof (rule collect_induct, goal_cases)
  case (2 p b st cs st')
  then have "expanded arrange idx st' p" by (auto simp: expanded_def)
  with 2 show ?case by (auto simp: grows_def)
next
  case (4 c rest b st t st2 st' rel)
  let ?st1 = "add_item st t c rel"
  have 1: "grows st ?st1" "c \<in> ri_record ` set (ts_items ?st1)" "ts_visited ?st1 = ts_visited st"
    by (auto simp: add_item_def grows_def)
  have 2: "grows ?st1 st2" "sr_is_directory c \<longrightarrow> sr_record_id_guess c \<in> ts_visited st2"
    "\<forall>d \<in> ts_visited st2. d \<in> ts_visited st \<or> expanded arrange idx st2 d"
    using 4(3) 1(3) by (auto simp: grows_def split: if_splits)
  have 3: "grows st2 st'" using 4(4) by simp
  have "\<forall>d \<in> ts_visited st'. d \<in> ts_visited st \<or> expanded arrange idx st' d"
    using 4(4) 2(3) 3 expanded_mono [of arrange idx st2 _ st'] unfolding grows_def by blast
  then show ?case using 1 2 4(4) unfolding grows_def by auto
qed (simp_all add: grows_def)

lemma reachable_trans:
  assumes "reachable arrange idx q d" "reachable arrange idx p q"
  shows "reachable arrange idx p d"
  using assms by induction (auto intro: reach_child)

text \<open>What can be collected below a list of children.\<close>

definition below :: "(stored_record list \<Rightarrow> stored_record list) \<Rightarrow> record_index \<Rightarrow> u64 \<Rightarrow> stored_record \<Rightarrow> bool" where
  "below arrange idx p r \<longleftrightarrow>
     (\<exists>d cs. reachable arrange idx p d \<and> idx d = Inr cs \<and> r \<in> set (dedup_children arrange cs))"

definition below_child ::
  "(stored_record list \<Rightarrow> stored_record list) \<Rightarrow> record_index \<Rightarrow> stored_record list \<Rightarrow> u64 \<Rightarrow> bool" where
  "below_child arrange idx cs d \<longleftrightarrow>
     (\<exists>c \<in> set cs. sr_is_directory c \<and> reachable arrange idx (sr_record_id_guess c) d)"

definition item_below_child ::
  "(stored_record list \<Rightarrow> stored_record list) \<Rightarrow> record_index \<Rightarrow> stored_record list \<Rightarrow> stored_record \<Rightarrow> bool" where
  "item_below_child arrange idx cs r \<longleftrightarrow>
     r \<in> set cs \<or> (\<exists>c \<in> set cs. sr_is_directory c \<and> below arrange idx (sr_record_id_guess c) r)"

lemma below_parent:
  assumes "idx p = Inr cs"
  shows "below_child arrange idx (dedup_children arrange cs) d \<Longrightarrow> reachable arrange idx p d"
    and "item_below_child arrange idx (dedup_children arrange cs) r \<Longrightarrow> below arrange idx p r"
proof -
  have c: "reachable arrange idx p (sr_record_id_guess c)"
    if "c \<in> set (dedup_children arrange cs)" "sr_is_directory c" for c
    using reach_child [of arrange idx p p cs c] reach_root assms that by blast
  show "below_child arrange idx (dedup_children arrange cs) d \<Longrightarrow> reachable arrange idx p d"
    using c by (auto simp: below_child_def intro: reachable_trans)
  show "item_below_child arrange idx (dedup_children arrange cs) r \<Longrightarrow> below arrange idx p r"
    unfolding item_below_child_def below_def using c reachable_trans assms reach_root by blast
qed

lemma collect_sound:
  "(\<forall>p b st st'. collect_tree arrange idx p b st = Inr st' \<longrightarrow>
      (\<forall>d \<in> ts_visited st'. d \<in> ts_visited st \<or> reachable arrange idx p d)
      \<and> (\<forall>i \<in> set (ts_items st'). i \<in> set (ts_items st) \<or> below arrange idx p (ri_record i)))
   \<and> (\<forall>cs b st st'. collect_children arrange idx cs b st = Inr st' \<longrightarrow>
      (\<forall>d \<in> ts_visited st'. d \<in> ts_visited st \<or> below_child arrange idx cs d)
      \<and> (\<forall>i \<in> set (ts_items st'). i \<in> set (ts_items st) \<or> item_below_child arrange idx cs (ri_record i)))"
proof (rule collect_induct, goal_cases)
  case (2 p b st cs st')
  then show ?case using below_parent [of idx p cs arrange] reach_root by fastforce
next
  case (4 c rest b st t st2 st' rel)
  have 1: "\<forall>d \<in> ts_visited st2. d \<in> ts_visited st \<or> below_child arrange idx [c] d"
    "\<forall>i \<in> set (ts_items st2). i \<in> set (ts_items st) \<or> item_below_child arrange idx [c] (ri_record i)"
    using 4(3) by (auto simp: add_item_def below_child_def item_below_child_def split: if_splits)
  have mono: "below_child arrange idx [c] d \<Longrightarrow> below_child arrange idx (c # rest) d"
    "below_child arrange idx rest d \<Longrightarrow> below_child arrange idx (c # rest) d"
    "item_below_child arrange idx [c] r \<Longrightarrow> item_below_child arrange idx (c # rest) r"
    "item_below_child arrange idx rest r \<Longrightarrow> item_below_child arrange idx (c # rest) r" for d r
    by (auto simp: below_child_def item_below_child_def)
  then show ?case using 1 4(4) by blast
qed simp_all

text \<open>Where a directory of the index comes to lie: at the sanitized names that lead to it from the root.\<close>

inductive directory_at ::
  "(stored_record list \<Rightarrow> stored_record list) \<Rightarrow> record_index \<Rightarrow> u64 \<Rightarrow> u64 \<Rightarrow> bytes list \<Rightarrow> bool"
  for arrange idx root where
  at_root: "directory_at arrange idx root root []"
| at_child: "directory_at arrange idx root d ss \<Longrightarrow> idx d = Inr cs \<Longrightarrow> c \<in> set (dedup_children arrange cs) \<Longrightarrow>
    sr_is_directory c \<Longrightarrow> directory_at arrange idx root (sr_record_id_guess c) (ss @ [sanitize_name (sr_name c)])"

lemma directory_at_safe: "directory_at arrange idx root d ss \<Longrightarrow> \<forall>c \<in> set ss. safe_component c"
  by (induction rule: directory_at.induct) (auto simp: sanitize_name_component)

definition item_at :: "(stored_record list \<Rightarrow> stored_record list) \<Rightarrow> record_index \<Rightarrow> u64 \<Rightarrow> recover_item \<Rightarrow> bool" where
  "item_at arrange idx root item \<longleftrightarrow>
     (\<exists>d ss cs. directory_at arrange idx root d ss \<and> idx d = Inr cs \<and> ri_record item \<in> set (dedup_children arrange cs)
        \<and> ri_relative_path item = join_slash (ss @ [sanitize_name (sr_name (ri_record item))]))"

lemma collect_at:
  "(\<forall>p b st st'. collect_tree arrange idx p b st = Inr st' \<longrightarrow>
      (\<forall>ss. directory_at arrange idx root p ss \<and> b = join_slash ss \<longrightarrow>
         (\<forall>i \<in> set (ts_items st'). i \<in> set (ts_items st) \<or> item_at arrange idx root i)))
   \<and> (\<forall>cs b st st'. collect_children arrange idx cs b st = Inr st' \<longrightarrow>
      (\<forall>p ss cs0. directory_at arrange idx root p ss \<and> b = join_slash ss \<and> idx p = Inr cs0
           \<and> set cs \<subseteq> set (dedup_children arrange cs0) \<longrightarrow>
         (\<forall>i \<in> set (ts_items st'). i \<in> set (ts_items st) \<or> item_at arrange idx root i)))"
proof (rule collect_induct, goal_cases)
  case (2 p b st cs st')
  then show ?case by simp blast
next
  case (4 c rest b st t st2 st' rel)
  show ?case
  proof (intro allI impI)
    fix p ss cs0
    assume h: "directory_at arrange idx root p ss \<and> b = join_slash ss \<and> idx p = Inr cs0
      \<and> set (c # rest) \<subseteq> set (dedup_children arrange cs0)"
    have rel: "rel = join_slash (ss @ [sanitize_name (sr_name c)])"
      using 4(1) h path_append_safe [OF directory_at_safe sanitize_name_component] by blast
    have c: "c \<in> set (dedup_children arrange cs0)" using h by simp
    have new: "item_at arrange idx root \<lparr>ri_record = c, ri_relative_path = rel\<rparr>"
      using h c rel unfolding item_at_def by auto
    have sub: "directory_at arrange idx root (sr_record_id_guess c) (ss @ [sanitize_name (sr_name c)])" if "sr_is_directory c"
      using h c that by (blast intro: at_child)
    have 1: "\<forall>i \<in> set (ts_items st2). i \<in> set (ts_items (add_item st t c rel)) \<or> item_at arrange idx root i"
      using 4(3) sub rel by (cases "sr_is_directory c") auto
    have "\<forall>i \<in> set (ts_items st'). i \<in> set (ts_items st2) \<or> item_at arrange idx root i" using 4(4) h by auto
    then show "\<forall>i \<in> set (ts_items st'). i \<in> set (ts_items st) \<or> item_at arrange idx root i"
      using 1 new by (auto simp: add_item_def)
  qed
qed simp_all

lemma collect_tree_at:
  "collect_tree arrange idx root [] new_tree = Inr st \<Longrightarrow> item \<in> set (ts_items st) \<Longrightarrow> item_at arrange idx root item"
  using conjunct1 [OF collect_at [of arrange idx root], rule_format, of root "[]" new_tree st "[]" item] at_root
  by (auto simp: new_tree_def)

text \<open>Success: the visited directories are the reachable ones, the items their children.\<close>

lemma collect_tree_exact:
  assumes "collect_tree arrange idx root [] new_tree = Inr st"
  shows "ts_visited st = {d. reachable arrange idx root d}"
    and "ri_record ` set (ts_items st) = {r. below arrange idx root r}"
proof -
  have e: "root \<in> ts_visited st" "\<forall>d \<in> ts_visited st. expanded arrange idx st d"
    using conjunct1 [OF collect_expands [of arrange idx], rule_format, OF assms] by (auto simp: new_tree_def)
  have v: "d \<in> ts_visited st" if "reachable arrange idx root d" for d
    using that
  proof induction
    case (reach_child d cs c)
    then show ?case using e(2) by (fastforce simp: expanded_def)
  qed (rule e(1))
  have s: "\<forall>d \<in> ts_visited st. reachable arrange idx root d"
    "\<forall>i \<in> set (ts_items st). below arrange idx root (ri_record i)"
    using conjunct1 [OF collect_sound [of arrange idx], rule_format, OF assms] by (auto simp: new_tree_def)
  show "ts_visited st = {d. reachable arrange idx root d}" using v s(1) by blast
  have "r \<in> ri_record ` set (ts_items st)" if "below arrange idx root r" for r
    using that v e(2) by (fastforce simp: below_def expanded_def)
  then show "ri_record ` set (ts_items st) = {r. below arrange idx root r}" using s(2) by blast
qed

section \<open>A concrete index\<close>

text \<open>
  Directory 5 with a file \<open>b\<close>, whose DOS name is \<open>B~\<close>, and a directory \<open>a\<close> that contains a
  file with the name \<open>../x\<close> and the directory 5 again.
\<close>

definition sample_row :: "i64 \<Rightarrow> u64 \<Rightarrow> bytes \<Rightarrow> i32 \<Rightarrow> bool \<Rightarrow> stored_record" where
  "sample_row i r n ns d = \<lparr>sr_id = i, sr_record_id_guess = r, sr_offset = 0, sr_parent_ref = 0, sr_name = n,
     sr_name_namespace = ns, sr_flags = 0, sr_allocated_size = 0, sr_real_size = 0, sr_is_directory = d\<rparr>"

definition sample_rows :: "stored_record list" where
  "sample_rows = [sample_row 1 7 [0x42, 0x7E] 2 False, sample_row 2 7 [0x62] 1 False, sample_row 3 6 [0x61] 3 True,
     sample_row 4 7 [0x62] 1 False]"

definition sample_index :: record_index where
  "sample_index r = Inr (if r = 5 then sample_rows
     else if r = 6 then [sample_row 5 8 [0x2E, 0x2E, 0x2F, 0x78] 1 False, sample_row 6 5 [0x63] 1 True] else [])"

lemma sample_dedup:
  "dedup_children arrange_children sample_rows = [sample_row 3 6 [0x61] 3 True, sample_row 2 7 [0x62] 1 False]"
  by (simp add: dedup_children_def sample_rows_def sample_row_def record_has_long_name_def child_map_key_def
      decimal_digit better_name_def arrange_children_def child_key_of_def less_eq_child_key_def less_child_key_def)

lemma sample_dedup6:
  "dedup_children arrange_children
     [sample_row 5 8 [0x2E, 0x2E, 0x2F, 0x78] 1 False, sample_row 6 5 [0x63] 1 True] =
   [sample_row 6 5 [0x63] 1 True, sample_row 5 8 [0x2E, 0x2E, 0x2F, 0x78] 1 False]"
  by (simp add: dedup_children_def sample_row_def record_has_long_name_def child_map_key_def
      decimal_digit better_name_def arrange_children_def child_key_of_def less_eq_child_key_def less_child_key_def)

definition sample_tree :: tree_state where
  "sample_tree = \<lparr>ts_items = [\<lparr>ri_record = sample_row 3 6 [0x61] 3 True, ri_relative_path = [0x61]\<rparr>,
     \<lparr>ri_record = sample_row 6 5 [0x63] 1 True, ri_relative_path = [0x61, 0x2F, 0x63]\<rparr>,
     \<lparr>ri_record = sample_row 5 8 [0x2E, 0x2E, 0x2F, 0x78] 1 False,
        ri_relative_path = [0x61, 0x2F, 0x2E, 0x2E, 0x5F, 0x78]\<rparr>,
     \<lparr>ri_record = sample_row 2 7 [0x62] 1 False, ri_relative_path = [0x62]\<rparr>],
     ts_visited = {5, 6},
     ts_collisions = [[0x61] \<mapsto> \<lparr>te_original_name = [0x61], te_record_id = 6, te_path = [0x61]\<rparr>,
       [0x61, 0x2F, 0x63] \<mapsto> \<lparr>te_original_name = [0x63], te_record_id = 5, te_path = [0x61, 0x2F, 0x63]\<rparr>,
       [0x61, 0x2F, 0x2E, 0x2E, 0x5F, 0x78] \<mapsto> \<lparr>te_original_name = [0x2E, 0x2E, 0x2F, 0x78],
          te_record_id = 8, te_path = [0x61, 0x2F, 0x2E, 0x2E, 0x5F, 0x78]\<rparr>,
       [0x62] \<mapsto> \<lparr>te_original_name = [0x62], te_record_id = 7, te_path = [0x62]\<rparr>]\<rparr>"

lemmas sample_names = sanitize_name_def sanitize_char_def SLASH_def DOT_def path_append_def
  collision_key_def lexically_normal_def normal_step_def ascii_lower_def

lemma sample_rows_of: "sr_name (sample_row i r n ns d) = n" "sr_record_id_guess (sample_row i r n ns d) = r"
  "sr_is_directory (sample_row i r n ns d) = d"
  by (simp_all add: sample_row_def)

lemma sample_collected: "collect_tree arrange_children sample_index 5 [] new_tree = Inr sample_tree"
  by (simp add: collect_tree.simps collect_children.simps(2) sample_index_def sample_dedup sample_dedup6 new_tree_def
      sample_rows_of sample_names tracker_add_def sample_tree_def insert_commute Let_def)

section \<open>Properties\<close>

text \<open>
  C22: what deduplication keeps of a directory's rows. Every row it returns is a row of the
  directory; no record is lost, each keeps all its long names; a DOS 8.3 name is returned only for a
  record that has no other; of several rows with one record and name the oldest is taken, once; and
  directories come first, each group in the order of the names' bytes.
\<close>

theorem dedup_children_specification:
  "set (dedup_children arrange_children cs) \<subseteq> set cs
   \<and> distinct (map (\<lambda>r. (sr_record_id_guess r, sr_name r)) (dedup_children arrange_children cs))
   \<and> (\<lambda>r. sr_record_id_guess r) ` set (dedup_children arrange_children cs) = (\<lambda>r. sr_record_id_guess r) ` set cs
   \<and> (\<forall>r \<in> set (dedup_children arrange_children cs). kept cs r)
   \<and> {(sr_record_id_guess r, sr_name r) | r. r \<in> set (dedup_children arrange_children cs)}
       = {(sr_record_id_guess r, sr_name r) | r. r \<in> set cs \<and> kept cs r}
   \<and> (\<forall>r \<in> set (dedup_children arrange_children cs). \<forall>c \<in> set cs.
        kept cs c \<and> sr_record_id_guess c = sr_record_id_guess r \<and> sr_name c = sr_name r
          \<longrightarrow> sint (sr_id r) \<le> sint (sr_id c))
   \<and> sorted_wrt (\<lambda>x y. \<not> child_less y x) (dedup_children arrange_children cs)"
proof (intro conjI)
  let ?rs = "dedup_children arrange_children cs"
  show "set ?rs \<subseteq> set cs" "\<forall>r \<in> set ?rs. kept cs r" using children.dedup_sound by blast+
  show "distinct (map (\<lambda>r. (sr_record_id_guess r, sr_name r)) ?rs)"
    using children.dedup_distinct [of cs] by (auto simp: distinct_map inj_on_def child_map_key_inj)
  show "(\<lambda>r. sr_record_id_guess r) ` set ?rs = (\<lambda>r. sr_record_id_guess r) ` set cs"
  proof
    show "(\<lambda>r. sr_record_id_guess r) ` set ?rs \<subseteq> (\<lambda>r. sr_record_id_guess r) ` set cs"
      using children.dedup_sound [of _ cs] by blast
    show "(\<lambda>r. sr_record_id_guess r) ` set cs \<subseteq> (\<lambda>r. sr_record_id_guess r) ` set ?rs"
    proof
      fix x assume "x \<in> (\<lambda>r. sr_record_id_guess r) ` set cs"
      then obtain c where c: "x = sr_record_id_guess c" "c \<in> set cs" by blast
      obtain r where "r \<in> set ?rs" "sr_record_id_guess r = sr_record_id_guess c"
        using children.dedup_covers [OF c(2)] by blast
      then show "x \<in> (\<lambda>r. sr_record_id_guess r) ` set ?rs" by (simp only: c(1)) (metis imageI)
    qed
  qed
  show "{(sr_record_id_guess r, sr_name r) | r. r \<in> set ?rs}
       = {(sr_record_id_guess r, sr_name r) | r. r \<in> set cs \<and> kept cs r}"
  proof (intro equalityI subsetI)
    fix x assume "x \<in> {(sr_record_id_guess r, sr_name r) | r. r \<in> set ?rs}"
    then show "x \<in> {(sr_record_id_guess r, sr_name r) | r. r \<in> set cs \<and> kept cs r}"
      using children.dedup_sound [of _ cs] by blast
  next
    fix x assume "x \<in> {(sr_record_id_guess r, sr_name r) | r. r \<in> set cs \<and> kept cs r}"
    then obtain c where c: "x = (sr_record_id_guess c, sr_name c)" "c \<in> set cs" "kept cs c" by blast
    then obtain r where "r \<in> set ?rs" "child_map_key r = child_map_key c" using children.dedup_least by blast
    then show "x \<in> {(sr_record_id_guess r, sr_name r) | r. r \<in> set ?rs}"
      using c(1) by (metis (mono_tags, lifting) child_map_key_inj mem_Collect_eq)
  qed
  show "\<forall>r \<in> set ?rs. \<forall>c \<in> set cs. kept cs c \<and> sr_record_id_guess c = sr_record_id_guess r
      \<and> sr_name c = sr_name r \<longrightarrow> sint (sr_id r) \<le> sint (sr_id c)"
  proof (intro ballI impI, elim conjE)
    fix r c assume r: "r \<in> set ?rs" and c: "c \<in> set cs" "kept cs c"
      "sr_record_id_guess c = sr_record_id_guess r" "sr_name c = sr_name r"
    obtain q where q: "q \<in> set ?rs" "child_map_key q = child_map_key c" "sint (sr_id q) \<le> sint (sr_id c)"
      using children.dedup_least [OF c(1,2)] by blast
    have "child_map_key q = child_map_key r" using q(2) c by (simp add: child_map_key_inj)
    then have "q = r" using q(1) r children.dedup_distinct [of cs] by (auto simp: distinct_map inj_on_def)
    then show "sint (sr_id r) \<le> sint (sr_id c)" using q(3) by simp
  qed
  show "sorted_wrt (\<lambda>x y. \<not> child_less y x) ?rs" by (rule children.dedup_sorted)
qed

lemma dedup_children_specification_witness:
  "set (dedup_children arrange_children sample_rows) \<subseteq> set sample_rows
   \<and> length (dedup_children arrange_children sample_rows) = 2"
  using dedup_children_specification [of sample_rows] by (simp add: sample_dedup)

lemma placed_components:
  "items_placed earlier items \<Longrightarrow> item \<in> set items \<Longrightarrow>
     \<exists>rs. rs \<noteq> [] \<and> (\<forall>c \<in> set rs. safe_component c) \<and> ri_relative_path item = join_slash rs"
proof (induction items arbitrary: earlier)
  case (Cons x items)
  show ?case
  proof (cases "item = x")
    case True
    then obtain ss where "\<forall>c \<in> set ss. safe_component c"
        "ri_relative_path item = join_slash (ss @ [sanitize_name (sr_name (ri_record item))])"
      using Cons.prems(1) by (auto simp: placed_def)
    then show ?thesis using sanitize_name_component
      by (intro exI [of _ "ss @ [sanitize_name (sr_name (ri_record item))]"]) auto
  next
    case False
    then show ?thesis using Cons by auto
  qed
qed simp

text \<open>Two paths that differ at most in the case of ASCII letters, stated with the alphabet alone.\<close>

definition case_pairs :: "(byte \<times> byte) set" where
  "case_pairs = set (zip (ascii ''ABCDEFGHIJKLMNOPQRSTUVWXYZ'') (ascii ''abcdefghijklmnopqrstuvwxyz''))"

definition same_but_case :: "path \<Rightarrow> path \<Rightarrow> bool" where
  "same_but_case = list_all2 (\<lambda>x y. x = y \<or> (x, y) \<in> case_pairs \<or> (y, x) \<in> case_pairs)"

lemma case_pair_lower: "(x, y) \<in> case_pairs \<Longrightarrow> ascii_lower x = ascii_lower y"
  unfolding case_pairs_def by (auto simp: ascii_def ascii_lower_def)

lemma same_but_case_lower: "same_but_case p q \<Longrightarrow> map ascii_lower p = map ascii_lower q"
  unfolding same_but_case_def
  by (induction rule: list_all2_induct) (auto dest: case_pair_lower)

lemma collision_key_placed:
  assumes "items_placed earlier items" "item \<in> set items"
  shows "collision_key (ri_relative_path item) = map ascii_lower (ri_relative_path item)"
proof -
  obtain rs where rs: "rs \<noteq> []" "\<forall>c \<in> set rs. safe_component c" "ri_relative_path item = join_slash rs"
    using placed_components [OF assms] by blast
  then show ?thesis using lexically_normal_safe [OF rs(1,2)] by (simp add: collision_key_def ascii_lower_low cong: map_cong)
qed

lemma distinct_keys_apart:
  assumes "items_placed earlier items" "distinct (item_keys items)"
  shows "sorted_wrt (\<lambda>x y. \<not> same_but_case (ri_relative_path x) (ri_relative_path y)) items"
proof -
  have "sorted_wrt (\<lambda>x y. collision_key (ri_relative_path x) \<noteq> collision_key (ri_relative_path y)) items"
    using assms(2) by (induction items) (auto simp: item_keys_def)
  then show ?thesis
  proof (rule sorted_wrt_mono_rel [rotated])
    fix x y assume h: "x \<in> set items" "y \<in> set items"
      "collision_key (ri_relative_path x) \<noteq> collision_key (ri_relative_path y)"
    then show "\<not> same_but_case (ri_relative_path x) (ri_relative_path y)"
      using collision_key_placed [OF assms(1)] same_but_case_lower by metis
  qed
qed

text \<open>
  C12: the collected output paths are safe and apart. For any index, cyclic or with hostile names, and
  any order of the children: every item's path consists of safe components, its last one its own
  sanitized name, and lies directly in the destination or in a directory item that precedes it; and no
  two items have paths that are equal or differ only in the case of ASCII letters.
\<close>

theorem collected_paths_safe:
  assumes "collect_tree arrange idx root [] new_tree = Inr st"
  shows "items_placed [] (ts_items st)
    \<and> sorted_wrt (\<lambda>x y. \<not> same_but_case (ri_relative_path x) (ri_relative_path y)) (ts_items st)"
  using collect_tree_ok [OF assms] distinct_keys_apart unfolding tree_ok_def by blast

lemma collected_paths_safe_witness:
  "items_placed [] (ts_items sample_tree)
   \<and> sorted_wrt (\<lambda>x y. \<not> same_but_case (ri_relative_path x) (ri_relative_path y)) (ts_items sample_tree)"
  by (rule collected_paths_safe [OF sample_collected])

text \<open>
  C13: \<open>collect_tree\<close> is an exact graph search. It returns for every index, also a cyclic one (it is
  a total function); when it does not throw, the directories it expanded are exactly those
  reachable from the root, and the records it collected are exactly their deduplicated children.
\<close>

theorem collect_tree_reachable:
  assumes "collect_tree arrange idx root [] new_tree = Inr st"
  shows "ts_visited st = {d. reachable arrange idx root d}
    \<and> ri_record ` set (ts_items st) =
        {r. \<exists>d cs. reachable arrange idx root d \<and> idx d = Inr cs \<and> r \<in> set (dedup_children arrange cs)}"
  using collect_tree_exact [OF assms] by (simp add: below_def)

lemma collect_tree_reachable_witness: "{d. reachable arrange_children sample_index 5 d} = {5, 6}"
  using collect_tree_reachable [OF sample_collected] by (simp add: sample_tree_def)

end
