(* ===== verification/PathSafety.thy ===== *)
theory PathSafety
  imports Decimal FileSystem
begin

text \<open>
  \<open>src/PathSafety.cpp\<close>: opening the recovery source, and the checks that a database or destination
  path neither is the source nor lies on a device related to it. What the kernel, sysfs and
  \<open>std::filesystem\<close> answer is a record of functions, the \<open>host\<close>, one field per call the code makes;
  nothing is assumed of them.
\<close>

section \<open>Device numbers\<close>

text \<open>The encoding of \<open>dev_t\<close> in the C library.\<close>

definition major :: "u64 \<Rightarrow> u32" where
  "major d = ucast (take_bit 12 (drop_bit 8 d)) OR push_bit 12 (ucast (drop_bit 44 d))"

definition minor :: "u64 \<Rightarrow> u32" where
  "minor d = ucast (take_bit 8 d) OR push_bit 8 (ucast (take_bit 24 (drop_bit 20 d)))"

definition makedev :: "u32 \<Rightarrow> u32 \<Rightarrow> u64" where
  "makedev M m = push_bit 8 (take_bit 12 (ucast M)) OR push_bit 44 (ucast (drop_bit 12 M))
     OR take_bit 8 (ucast m) OR push_bit 20 (ucast (drop_bit 8 m))"

lemma bit_major: "bit (major d) n \<longleftrightarrow> n < 12 \<and> bit d (n + 8) \<or> 12 \<le> n \<and> n < 32 \<and> bit d (n + 32)"
  by (auto simp: major_def bit_simps add.commute)

lemma bit_minor: "bit (minor d) n \<longleftrightarrow> n < 8 \<and> bit d n \<or> 8 \<le> n \<and> n < 32 \<and> bit d (n + 12)"
  by (auto simp: minor_def bit_simps add.commute)

lemma bit_makedev: "bit (makedev M m) n \<longleftrightarrow>
   n < 64 \<and> (8 \<le> n \<and> n < 20 \<and> bit M (n - 8) \<or> 44 \<le> n \<and> bit M (n - 32) \<or> n < 8 \<and> bit m n
     \<or> 20 \<le> n \<and> n < 44 \<and> bit m (n - 12))"
  by (auto simp: makedev_def bit_simps dest: bit_imp_le_length)

lemma makedev_major_minor: "makedev (major d) (minor d) = d"
proof (rule bit_word_eqI)
  fix n assume n: "n < LENGTH(64)"
  consider "n < 8" | "8 \<le> n" "n < 20" | "20 \<le> n" "n < 44" | "44 \<le> n" "n < 64" using n by force
  then show "bit (makedev (major d) (minor d)) n \<longleftrightarrow> bit d n"
    unfolding bit_makedev bit_major bit_minor by cases (simp_all add: less_diff_conv2 le_diff_conv2)
qed

lemma major_makedev: "major (makedev M m) = M"
proof (rule bit_word_eqI)
  fix n assume n: "n < LENGTH(32)"
  consider "n < 12" | "12 \<le> n" "n < 32" using n by force
  then show "bit (major (makedev M m)) n \<longleftrightarrow> bit M n"
    unfolding bit_makedev bit_major by cases simp_all
qed

lemma minor_makedev: "minor (makedev M m) = m"
proof (rule bit_word_eqI)
  fix n assume n: "n < LENGTH(32)"
  consider "n < 8" | "8 \<le> n" "n < 32" using n by force
  then show "bit (minor (makedev M m)) n \<longleftrightarrow> bit m n"
    unfolding bit_makedev bit_minor by cases simp_all
qed

section \<open>The host\<close>

datatype file_kind = RegularKind | DirectoryKind | SymlinkKind | BlockKind | CharKind | OtherKind

record stat_info =
  st_kind :: file_kind
  st_dev :: u64
  st_ino :: u64
  st_rdev :: u64

record host =
  h_absolute :: "path \<Rightarrow> string + path"
  h_weakly_canonical :: "path \<Rightarrow> string + path"
  h_stat :: "path \<Rightarrow> errno + stat_info"
  h_open :: "path \<Rightarrow> errno + int"
  h_fstat :: "int \<Rightarrow> errno + stat_info"
  h_getfl :: "int \<Rightarrow> u32"
  h_canonical :: "path \<Rightarrow> path option"
  h_is_directory :: "path \<Rightarrow> bool"
  h_listing :: "path \<Rightarrow> path list"
  h_content :: "path \<Rightarrow> bytes option"

section \<open>Failures\<close>

datatype role = SourceRole | DatabaseRole | DestinationRole

datatype reason =
    EmptyPath
  | NotAbsolute string
  | NotCanonical string
  | StatFailed errno
  | StorageUninspectable path errno
  | NoExistingAncestor
  | OnSourceDevice path u64 u64
  | FstatFailed errno
  | AliasOfSource path
  | NotARegularDatabase
  | AncestorNotDirectory path
  | DestinationIsFile
  | DestinationIsBlock
  | DestinationNotDirectory
  | SourceKind
  | CannotOpen errno
  | ChangedBeforeOpen
  | NotReadOnly

datatype path_failure = Path_Failure role path reason

section \<open>Paths and stat results\<close>

definition root_path :: "path \<Rightarrow> path" where
  "root_path p = (if p \<noteq> [] \<and> hd p = SLASH then [SLASH] else [])"

definition parent_path :: "path \<Rightarrow> path" where
  "parent_path p =
     (let q = dropWhile (\<lambda>c. c \<noteq> SLASH) (rev p); r = dropWhile (\<lambda>c. c = SLASH) q
      in if r = [] then root_path p else rev r)"

definition canonicalize :: "host \<Rightarrow> path \<Rightarrow> role \<Rightarrow> path_failure + path" where
  "canonicalize h p role =
     (if p = [] then Inl (Path_Failure role p EmptyPath)
      else (case h_absolute h p of
              Inl ec \<Rightarrow> Inl (Path_Failure role p (NotAbsolute ec))
            | Inr absolute \<Rightarrow>
                (case h_weakly_canonical h absolute of
                   Inl ec \<Rightarrow> Inl (Path_Failure role p (NotCanonical ec))
                 | Inr canonical \<Rightarrow> Inr canonical)))"

definition is_device :: "stat_info \<Rightarrow> bool" where
  "is_device i \<longleftrightarrow> st_kind i = BlockKind \<or> st_kind i = CharKind"

definition same_opened_object :: "stat_info \<Rightarrow> stat_info \<Rightarrow> bool" where
  "same_opened_object lhs rhs =
     (if is_device lhs \<and> is_device rhs then st_rdev lhs = st_rdev rhs
      else st_dev lhs = st_dev rhs \<and> st_ino lhs = st_ino rhs)"

definition stat_or_fail :: "host \<Rightarrow> path \<Rightarrow> role \<Rightarrow> path_failure + stat_info" where
  "stat_or_fail h p role =
     (case h_stat h p of Inl e \<Rightarrow> Inl (Path_Failure role p (StatFailed e)) | Inr info \<Rightarrow> Inr info)"

lemma root_path_length: "p \<noteq> [] \<Longrightarrow> root_path p \<noteq> p \<Longrightarrow> length (root_path p) < length p"
  by (cases p; cases "tl p") (auto simp: root_path_def)

lemma parent_path_shorter:
  assumes "p \<noteq> []" "p \<noteq> root_path p"
  shows "length (parent_path p) < length p"
proof -
  define q where "q = dropWhile (\<lambda>c. c \<noteq> SLASH) (rev p)"
  define r where "r = dropWhile (\<lambda>c. c = SLASH) q"
  have p: "parent_path p = (if r = [] then root_path p else rev r)"
    unfolding parent_path_def q_def r_def Let_def ..
  have lq: "length q \<le> length p" unfolding q_def by (rule order_trans [OF length_dropWhile_le]) simp
  show ?thesis
  proof (cases "r = []")
    case True
    then show ?thesis using p assms root_path_length [of p] by auto
  next
    case False
    then obtain c q' where q: "q = c # q'" by (cases q) (auto simp: r_def)
    have "c = SLASH" using hd_dropWhile [of "\<lambda>c. c \<noteq> SLASH" "rev p"] q unfolding q_def by auto
    then have "length r \<le> length q'" using q by (simp add: r_def length_dropWhile_le)
    then show ?thesis using False p lq q by simp
  qed
qed

lemma parent_path_root:
  assumes "p \<noteq> []" "p = root_path p"
  shows "parent_path p = p"
proof -
  have "p = [SLASH]" using assms unfolding root_path_def by (metis (full_types))
  then show ?thesis by (simp add: parent_path_def root_path_def)
qed

section \<open>The storage a path lies on\<close>

function existing_ancestor :: "host \<Rightarrow> role \<Rightarrow> path \<Rightarrow> path \<Rightarrow> path_failure + path \<times> stat_info" where
  "existing_ancestor h role canonical current =
     (case h_stat h current of
        Inr info \<Rightarrow> Inr (current, info)
      | Inl e \<Rightarrow>
          if e \<noteq> ENOENT \<and> e \<noteq> ENOTDIR then Inl (Path_Failure role canonical (StorageUninspectable current e))
          else if parent_path current = current \<or> parent_path current = []
          then Inl (Path_Failure role canonical NoExistingAncestor)
          else existing_ancestor h role canonical (parent_path current))"
  by pat_completeness auto
termination
proof (relation "measure (\<lambda>(h, role, canonical, current). length current)", goal_cases)
  case 1 then show ?case by simp
next
  case (2 h role canonical current e)
  have "current \<noteq> []" using 2 by (auto simp: parent_path_def root_path_def)
  then show ?case using 2 parent_path_shorter [of current] parent_path_root [of current] by auto
qed

declare existing_ancestor.simps [simp del]

section \<open>Related devices\<close>

text \<open>The number in the \<open>dev\<close> file of a sysfs directory.\<close>

definition read_sysfs_device_number :: "host \<Rightarrow> path \<Rightarrow> u64 option" where
  "read_sysfs_device_number h directory =
     (case h_content h (path_append directory (ascii ''dev'')) of
        None \<Rightarrow> None
      | Some input \<Rightarrow>
          (case read_unsigned input of
             None \<Rightarrow> None
           | Some (device_major, input1) \<Rightarrow>
               (case read_char input1 of
                  None \<Rightarrow> None
                | Some (separator, input2) \<Rightarrow>
                    (case read_unsigned input2 of
                       None \<Rightarrow> None
                     | Some (device_minor, input3) \<Rightarrow>
                         if separator \<noteq> 0x3A then None else Some (makedev device_major device_minor)))))"

definition sys_block_path :: "u64 \<Rightarrow> path" where
  "sys_block_path device = path_append (ascii ''/sys/dev/block'')
     (decimal (unat (major device)) @ 0x3A # decimal (unat (minor device)))"

text \<open>The loop over the sysfs directory of a device and the directories above it.\<close>

function add_ancestors :: "host \<Rightarrow> path \<Rightarrow> u64 set \<Rightarrow> u64 set" where
  "add_ancestors h current devices =
     (if current = [] then devices
      else
        (let devices1 = (case read_sysfs_device_number h current of
                           None \<Rightarrow> devices | Some parent_device \<Rightarrow> insert parent_device devices)
         in if current = root_path current then devices1
            else add_ancestors h (parent_path current) devices1))"
  by pat_completeness auto
termination
  by (relation "measure (\<lambda>(h, current, devices). length current)") (auto intro: parent_path_shorter)

declare add_ancestors.simps [simp del]

text \<open>
  \<open>add_device_relations\<close> and its loop over the \<open>slaves\<close> directory. The \<open>error_code\<close> an entry's
  resolution leaves set ends the loop at the next entry.
\<close>

function add_device_relations :: "host \<Rightarrow> u64 \<Rightarrow> u64 set \<Rightarrow> u64 set"
  and add_slaves :: "host \<Rightarrow> path list \<Rightarrow> u64 set \<Rightarrow> u64 set"
where
  "add_device_relations h device devices =
     (if device \<in> devices then devices
      else
        (case h_canonical h (sys_block_path device) of
           None \<Rightarrow> insert device devices
         | Some sys_path \<Rightarrow>
             (let slaves = path_append sys_path (ascii ''slaves'');
                  devices1 = add_ancestors h sys_path (insert device devices)
              in if \<not> h_is_directory h slaves then devices1
                 else add_slaves h (h_listing h slaves) devices1)))"
| "add_slaves h [] devices = devices"
| "add_slaves h (entry # rest) devices =
     (case h_canonical h entry of
        None \<Rightarrow> devices
      | Some slave_path \<Rightarrow>
          (case read_sysfs_device_number h slave_path of
             None \<Rightarrow> add_slaves h rest devices
           | Some slave_device \<Rightarrow> add_slaves h rest (add_device_relations h slave_device devices)))"
  by pat_completeness auto

lemma add_ancestors_mono: "devices \<subseteq> add_ancestors h p devices"
proof (induction h p devices rule: add_ancestors.induct)
  case (1 h p devices)
  let ?d = "case read_sysfs_device_number h p of None \<Rightarrow> devices | Some d \<Rightarrow> insert d devices"
  have d: "devices \<subseteq> ?d" by (auto split: option.split)
  show ?case
  proof (cases "p = [] \<or> p = root_path p")
    case True
    then have "add_ancestors h p devices = (if p = [] then devices else ?d)"
      by (subst add_ancestors.simps) (simp only: Let_def if_True if_False refl split: if_split; blast)
    then show ?thesis using d by (simp only: split: if_split) blast
  next
    case False
    then have "add_ancestors h p devices = add_ancestors h (parent_path p) ?d"
      by (subst add_ancestors.simps) (simp only: Let_def if_False de_Morgan_disj simp_thms)
    then show ?thesis using "1.IH" [OF _ refl] False d by auto
  qed
qed

lemma relations_mono_dom:
  "add_device_relations_add_slaves_dom (Inl (h, d, devices)) \<Longrightarrow> devices \<subseteq> add_device_relations h d devices"
  "add_device_relations_add_slaves_dom (Inr (h, es, devices)) \<Longrightarrow> devices \<subseteq> add_slaves h es devices"
proof (induction h d devices and h es devices rule: add_device_relations_add_slaves.pinduct)
  case (1 h d devices)
  then show ?case using add_ancestors_mono [of "insert d devices" h]
    by (fastforce simp: add_device_relations.psimps Let_def split: option.splits)
next
  case (3 h e rest devices)
  show ?case
  proof (cases "h_canonical h e")
    case None
    then show ?thesis using 3(1) by (simp add: add_slaves.psimps)
  next
    case (Some p)
    then show ?thesis using 3(1) "3.IH"(1) [OF Some] "3.IH"(2) [OF Some] "3.IH"(3) [OF Some]
      by (cases "read_sysfs_device_number h p") (auto simp: add_slaves.psimps)
  qed
qed (simp add: add_slaves.psimps)

termination add_device_relations
proof (relation "inv_image (less_than <*lex*> less_than)
    (\<lambda>x. case x of Inl (h, d, devices) \<Rightarrow> (card (- devices), 0 :: nat)
                 | Inr (h, es, devices) \<Rightarrow> (card (- devices), length es))", goal_cases)
  case (2 h d devices sys_path slaves devices1)
  have "insert d devices \<subseteq> devices1" using 2(4) add_ancestors_mono by blast
  then have "card (- devices1) < card (- devices)" using 2(1) by (intro psubset_card_mono) auto
  then show ?case by simp
next
  case (5 h e rest devices p d)
  have "card (- add_device_relations h d devices) \<le> card (- devices)"
    using relations_mono_dom(1) [OF 5(3)] by (intro card_mono) auto
  then show ?case by auto
qed auto

declare add_device_relations.simps [simp del] add_slaves.simps(2) [simp del]

definition devices_are_related :: "host \<Rightarrow> u64 \<Rightarrow> u64 \<Rightarrow> bool" where
  "devices_are_related h source storage =
     (if source = storage then True
      else (\<exists>device \<in> add_device_relations h source {}. device \<in> add_device_relations h storage {}))"

section \<open>The recovery source\<close>

record source =
  src_fd :: int
  src_path :: path
  src_device :: u64
  src_is_block :: bool

text \<open>
  The constructor, with the descriptors it has closed by the time it throws.
\<close>

definition open_source :: "host \<Rightarrow> path \<Rightarrow> (path_failure + source) \<times> int list" where
  "open_source h p =
     (case canonicalize h p SourceRole of
        Inl e \<Rightarrow> (Inl e, [])
      | Inr canonical \<Rightarrow>
          (case stat_or_fail h canonical SourceRole of
             Inl e \<Rightarrow> (Inl e, [])
           | Inr before \<Rightarrow>
               if st_kind before \<noteq> RegularKind \<and> st_kind before \<noteq> BlockKind
               then (Inl (Path_Failure SourceRole p SourceKind), [])
               else
                 (case h_open h canonical of
                    Inl e \<Rightarrow> (Inl (Path_Failure SourceRole p (CannotOpen e)), [])
                  | Inr fd \<Rightarrow>
                      (case h_fstat h fd of
                         Inl e \<Rightarrow> (Inl (Path_Failure SourceRole p (FstatFailed e)), [fd])
                       | Inr after \<Rightarrow>
                           if \<not> same_opened_object before after
                           then (Inl (Path_Failure SourceRole p ChangedBeforeOpen), [fd])
                           else
                             (let flags = h_getfl h fd in
                              if flags <s 0 \<or> flags AND 3 \<noteq> 0
                              then (Inl (Path_Failure SourceRole p NotReadOnly), [fd])
                              else (Inr \<lparr>src_fd = fd, src_path = canonical, src_device = st_rdev after,
                                         src_is_block = (st_kind after = BlockKind)\<rparr>, []))))))"

section \<open>The checks of a path\<close>

definition reject_source_storage :: "host \<Rightarrow> source \<Rightarrow> path \<Rightarrow> role \<Rightarrow> path \<times> stat_info \<Rightarrow> path_failure option" where
  "reject_source_storage h source p role storage =
     (if \<not> src_is_block source then None
      else if devices_are_related h (src_device source) (st_dev (snd storage))
      then Some (Path_Failure role p (OnSourceDevice (fst storage) (src_device source) (st_dev (snd storage))))
      else None)"

definition reject_source_alias :: "host \<Rightarrow> source \<Rightarrow> path \<Rightarrow> path \<Rightarrow> role \<Rightarrow> path_failure option" where
  "reject_source_alias h source original canonical role =
     (case h_stat h canonical of
        Inl e \<Rightarrow> if e = ENOENT \<or> e = ENOTDIR then None else Some (Path_Failure role original (StatFailed e))
      | Inr candidate \<Rightarrow>
          (case h_fstat h (src_fd source) of
             Inl e \<Rightarrow> Some (Path_Failure role original (FstatFailed e))
           | Inr opened_source \<Rightarrow>
               if same_opened_object opened_source candidate
               then Some (Path_Failure role original (AliasOfSource (src_path source))) else None))"

definition validate_database_path :: "host \<Rightarrow> source \<Rightarrow> path \<Rightarrow> path_failure + path" where
  "validate_database_path h source database_path =
     (case canonicalize h database_path DatabaseRole of
        Inl e \<Rightarrow> Inl e
      | Inr canonical \<Rightarrow>
          (case reject_source_alias h source database_path canonical DatabaseRole of
             Some e \<Rightarrow> Inl e
           | None \<Rightarrow>
               (case existing_ancestor h DatabaseRole canonical canonical of
                  Inl e \<Rightarrow> Inl e
                | Inr storage \<Rightarrow>
                    if st_kind (snd storage) \<noteq> RegularKind \<and> fst storage = canonical
                    then Inl (Path_Failure DatabaseRole database_path NotARegularDatabase)
                    else if fst storage \<noteq> canonical \<and> st_kind (snd storage) \<noteq> DirectoryKind
                    then Inl (Path_Failure DatabaseRole database_path (AncestorNotDirectory (fst storage)))
                    else
                      (case reject_source_storage h source database_path DatabaseRole storage of
                         Some e \<Rightarrow> Inl e
                       | None \<Rightarrow> Inr canonical))))"

definition validate_destination_path :: "host \<Rightarrow> source \<Rightarrow> path \<Rightarrow> path_failure + path" where
  "validate_destination_path h source destination_path =
     (case canonicalize h destination_path DestinationRole of
        Inl e \<Rightarrow> Inl e
      | Inr canonical \<Rightarrow>
          (case reject_source_alias h source destination_path canonical DestinationRole of
             Some e \<Rightarrow> Inl e
           | None \<Rightarrow>
               (case existing_ancestor h DestinationRole canonical canonical of
                  Inl e \<Rightarrow> Inl e
                | Inr storage \<Rightarrow>
                    if fst storage = canonical \<and> st_kind (snd storage) \<noteq> DirectoryKind
                    then Inl (Path_Failure DestinationRole destination_path
                           (if st_kind (snd storage) = RegularKind then DestinationIsFile
                            else if st_kind (snd storage) = BlockKind then DestinationIsBlock
                            else DestinationNotDirectory))
                    else if fst storage \<noteq> canonical \<and> st_kind (snd storage) \<noteq> DirectoryKind
                    then Inl (Path_Failure DestinationRole destination_path (AncestorNotDirectory (fst storage)))
                    else
                      (case reject_source_storage h source destination_path DestinationRole storage of
                         Some e \<Rightarrow> Inl e
                       | None \<Rightarrow> Inr canonical))))"

section \<open>What is accepted\<close>

text \<open>The deepest existing directory above a path.\<close>

inductive stored_in :: "host \<Rightarrow> path \<Rightarrow> path \<Rightarrow> stat_info \<Rightarrow> bool" for h where
  here: "h_stat h p = Inr info \<Longrightarrow> stored_in h p p info"
| above: "h_stat h p = Inl e \<Longrightarrow> e = ENOENT \<or> e = ENOTDIR \<Longrightarrow> parent_path p \<noteq> p \<Longrightarrow> parent_path p \<noteq> []
    \<Longrightarrow> stored_in h (parent_path p) a info \<Longrightarrow> stored_in h p a info"

lemma existing_ancestor_iff: "existing_ancestor h role c p = Inr (a, info) \<longleftrightarrow> stored_in h p a info"
proof
  show "existing_ancestor h role c p = Inr (a, info) \<Longrightarrow> stored_in h p a info"
  proof (induction h role c p rule: existing_ancestor.induct)
    case (1 h role c p)
    then show ?case
      by (cases "h_stat h p") (auto simp: existing_ancestor.simps [of h role c p] intro: stored_in.intros split: if_splits)
  qed
  show "stored_in h p a info \<Longrightarrow> existing_ancestor h role c p = Inr (a, info)"
    by (induction rule: stored_in.induct) (auto simp: existing_ancestor.simps)
qed

end
