(* ===== verification/PathValidation.thy ===== *)
theory PathValidation
  imports PathSafety
begin

text \<open>
  The contract of \<open>src/PathSafety.cpp\<close>: which paths are accepted, which devices are found to be
  related, against the reachability relation of sysfs, and what an opened source is.
\<close>

section \<open>What is related\<close>

text \<open>The devices of a sysfs directory and of those above it; the devices one step away.\<close>

definition sysfs_devices :: "host \<Rightarrow> path \<Rightarrow> u64 set" where
  "sysfs_devices h p = add_ancestors h p {}"

definition slave_entries :: "host \<Rightarrow> path \<Rightarrow> path list" where
  "slave_entries h p =
     (let slaves = path_append p (ascii ''slaves'') in if h_is_directory h slaves then h_listing h slaves else [])"

definition entry_device :: "host \<Rightarrow> path \<Rightarrow> u64 option" where
  "entry_device h e = Option.bind (h_canonical h e) (read_sysfs_device_number h)"

definition device_edge :: "host \<Rightarrow> u64 \<Rightarrow> u64 \<Rightarrow> bool" where
  "device_edge h d x \<longleftrightarrow> (\<exists>p. h_canonical h (sys_block_path d) = Some p \<and>
     (x \<in> sysfs_devices h p \<or> (\<exists>e \<in> set (slave_entries h p). entry_device h e = Some x)))"

lemma add_ancestors_step:
  "p \<noteq> [] \<Longrightarrow> p \<noteq> root_path p \<Longrightarrow> add_ancestors h p ds = add_ancestors h (parent_path p)
     (case read_sysfs_device_number h p of None \<Rightarrow> ds | Some d \<Rightarrow> insert d ds)"
  "p \<noteq> [] \<Longrightarrow> p = root_path p \<Longrightarrow> add_ancestors h p ds =
     (case read_sysfs_device_number h p of None \<Rightarrow> ds | Some d \<Rightarrow> insert d ds)"
  "add_ancestors h [] ds = ds"
  by (subst add_ancestors.simps, simp only: Let_def if_False if_True simp_thms; blast?)+

lemma add_ancestors_union: "add_ancestors h p ds = sysfs_devices h p \<union> ds"
proof -
  have "add_ancestors h p (ds \<union> es) = add_ancestors h p ds \<union> es" for ds es
  proof (induction h p ds rule: add_ancestors.induct)
    case (1 h p ds)
    let ?d = "\<lambda>ds. case read_sysfs_device_number h p of None \<Rightarrow> ds | Some d \<Rightarrow> insert d ds"
    have d: "?d (ds \<union> es) = ?d ds \<union> es" by (auto split: option.split)
    consider "p = []" | "p \<noteq> []" "p = root_path p" | "p \<noteq> []" "p \<noteq> root_path p" by blast
    then show ?case
    proof cases
      case 1
      then show ?thesis by (simp add: add_ancestors_step(3))
    next
      case 2
      show ?thesis unfolding add_ancestors_step(2) [OF 2] by (rule d)
    next
      case 3
      show ?thesis unfolding add_ancestors_step(1) [OF 3] d by (rule "1.IH" [OF 3(1) refl 3(2)])
    qed
  qed
  from this [of "{}" ds] show ?thesis by (simp add: sysfs_devices_def)
qed

lemma relations_sound:
  "(\<forall>x \<in> add_device_relations h d ds. x \<in> ds \<or> (device_edge h)\<^sup>*\<^sup>* d x)"
  "(\<forall>x \<in> add_slaves h es ds. x \<in> ds \<or> (\<exists>e \<in> set es. \<exists>y. entry_device h e = Some y \<and> (device_edge h)\<^sup>*\<^sup>* y x))"
proof (induction h d ds and h es ds rule: add_device_relations_add_slaves.induct)
  case (1 h d ds)
  show ?case
  proof (cases "d \<in> ds")
    case True
    then show ?thesis by (simp add: add_device_relations.simps)
  next
    case new: False
    show ?thesis
    proof (cases "h_canonical h (sys_block_path d)")
      case None
      then show ?thesis using new by (simp add: add_device_relations.simps [of h d])
    next
      case (Some p)
      let ?ds = "add_ancestors h p (insert d ds)"
      have u: "add_device_relations h d ds = add_slaves h (slave_entries h p) ?ds"
        using new Some by (simp add: add_device_relations.simps [of h d] slave_entries_def Let_def)
      have e: "(device_edge h)\<^sup>*\<^sup>* d x" if "x \<in> sysfs_devices h p" for x
        using that Some by (auto simp: device_edge_def)
      have s: "(device_edge h)\<^sup>*\<^sup>* d x"
        if "a \<in> set (slave_entries h p)" "entry_device h a = Some y" "(device_edge h)\<^sup>*\<^sup>* y x" for a y x
        using that Some by (intro converse_rtranclp_into_rtranclp [of _ d y]) (auto simp: device_edge_def)
      have ds: "x = d \<or> x \<in> ds \<or> x \<in> sysfs_devices h p" if "x \<in> ?ds" for x
        using that by (auto simp: add_ancestors_union)
      show ?thesis
      proof (cases "h_is_directory h (path_append p (ascii ''slaves''))")
        case False
        then show ?thesis using u ds e by (auto simp: slave_entries_def Let_def)
      next
        case True
        from "1.IH" [OF new Some refl refl] True
        have "\<forall>x \<in> add_slaves h (slave_entries h p) ?ds. x \<in> ?ds
            \<or> (\<exists>a \<in> set (slave_entries h p). \<exists>y. entry_device h a = Some y \<and> (device_edge h)\<^sup>*\<^sup>* y x)"
          by (simp add: slave_entries_def Let_def)
        then show ?thesis using u ds e s by blast
      qed
    qed
  qed
next
  case (3 h a es ds)
  show ?case
  proof (cases "h_canonical h a")
    case None
    then show ?thesis by (simp add: add_slaves.simps)
  next
    case (Some p)
    show ?thesis
    proof (cases "read_sysfs_device_number h p")
      case None
      then show ?thesis using "3.IH"(1) [OF Some] Some by (auto simp: add_slaves.simps)
    next
      case d: (Some d)
      then have "entry_device h a = Some d" using Some by (simp add: entry_device_def)
      then show ?thesis using "3.IH"(2,3) [OF Some d] Some d by (simp add: add_slaves.simps) blast
    qed
  qed
qed (simp add: add_slaves.simps)

lemma relations_mono:
  "ds \<subseteq> add_device_relations h d ds" "ds \<subseteq> add_slaves h es ds"
proof (induction h d ds and h es ds rule: add_device_relations_add_slaves.induct)
  case (1 h d ds)
  then show ?case using add_ancestors_mono [of "insert d ds" h]
    by (fastforce simp: add_device_relations.simps [of h d ds] Let_def split: option.splits)
next
  case (3 h e rest ds)
  then show ?case by (fastforce simp: add_slaves.simps split: option.splits)
qed simp

lemma add_device_relations_self: "d \<in> add_device_relations h d ds"
proof (cases "h_canonical h (sys_block_path d)")
  case (Some p)
  have "d \<in> add_ancestors h p (insert d ds)" using add_ancestors_mono by blast
  then show ?thesis using Some relations_mono(2) by (auto simp: add_device_relations.simps [of h d ds] Let_def)
qed (simp add: add_device_relations.simps [of h d ds])

lemma add_slaves_covers:
  "\<forall>e \<in> set es. h_canonical h e \<noteq> None \<Longrightarrow> e \<in> set es \<Longrightarrow> entry_device h e = Some x \<Longrightarrow> x \<in> add_slaves h es ds"
proof (induction es arbitrary: ds)
  case (Cons a es)
  then obtain p where p: "h_canonical h a = Some p" by auto
  have IH: "e \<in> set es \<Longrightarrow> x \<in> add_slaves h es ds" for ds using Cons.IH Cons.prems by simp
  show ?case
  proof (cases "read_sysfs_device_number h p")
    case None
    then show ?thesis using IH Cons.prems p by (auto simp: add_slaves.simps entry_device_def)
  next
    case (Some d)
    have "d \<in> add_slaves h es (add_device_relations h d ds)"
      using relations_mono(2) add_device_relations_self by blast
    then show ?thesis using IH Cons.prems p Some by (auto simp: add_slaves.simps entry_device_def)
  qed
qed simp

lemma add_device_relations_covers:
  assumes "device_edge h d x" "\<And>p. h_canonical h (sys_block_path d) = Some p \<Longrightarrow>
    \<forall>e \<in> set (slave_entries h p). h_canonical h e \<noteq> None" "d \<notin> ds"
  shows "x \<in> add_device_relations h d ds"
proof -
  obtain p where p: "h_canonical h (sys_block_path d) = Some p"
    "x \<in> sysfs_devices h p \<or> (\<exists>e \<in> set (slave_entries h p). entry_device h e = Some x)"
    using assms(1) by (auto simp: device_edge_def)
  have u: "add_device_relations h d ds = add_slaves h (slave_entries h p) (add_ancestors h p (insert d ds))"
    using assms(3) p(1) by (simp add: add_device_relations.simps [of h d] slave_entries_def Let_def)
  from p(2) show ?thesis
  proof
    assume "x \<in> sysfs_devices h p"
    then show ?thesis unfolding u add_ancestors_union using relations_mono(2) by blast
  next
    assume "\<exists>e \<in> set (slave_entries h p). entry_device h e = Some x"
    then show ?thesis unfolding u using add_slaves_covers assms(2) [OF p(1)] by blast
  qed
qed

section \<open>Example hosts\<close>

text \<open>
  An image file \<open>/i\<close> and a directory \<open>/d\<close> on one file system; and the sysfs of a disk 8:0 that is
  a member of an array 9:0, which has a partition 259:0.
\<close>

definition empty_host :: host where
  "empty_host = \<lparr>h_absolute = Inr, h_weakly_canonical = Inr, h_stat = (\<lambda>p. Inl ENOENT), h_open = (\<lambda>p. Inl ENOENT),
     h_fstat = (\<lambda>fd. Inl EBADF), h_getfl = (\<lambda>fd. 0), h_canonical = (\<lambda>p. None), h_is_directory = (\<lambda>p. False),
     h_listing = (\<lambda>p. []), h_content = (\<lambda>p. None)\<rparr>"

definition image_info :: stat_info where
  "image_info = \<lparr>st_kind = RegularKind, st_dev = 2049, st_ino = 12, st_rdev = 0\<rparr>"

definition directory_info :: stat_info where
  "directory_info = \<lparr>st_kind = DirectoryKind, st_dev = 2049, st_ino = 13, st_rdev = 0\<rparr>"

definition sample_host :: host where
  "sample_host = empty_host\<lparr>
     h_stat := (\<lambda>p. if p = ascii ''/i'' then Inr image_info else if p = ascii ''/d'' then Inr directory_info else Inl ENOENT),
     h_open := (\<lambda>p. Inr 3), h_fstat := (\<lambda>fd. Inr image_info)\<rparr>"

definition device_text :: "u32 \<Rightarrow> u32 \<Rightarrow> bytes" where
  "device_text M m = decimal (unat M) @ 0x3A # decimal (unat m) @ [0x0A]"

definition raid_host :: host where
  "raid_host = empty_host\<lparr>
     h_canonical := (\<lambda>p.
       if p = sys_block_path (makedev 259 0) then Some (ascii ''/v/md0/p1'')
       else if p = sys_block_path (makedev 9 0) then Some (ascii ''/v/md0'')
       else if p = sys_block_path (makedev 8 0) \<or> p = ascii ''/v/md0/slaves/a'' then Some (ascii ''/p/a'')
       else None),
     h_is_directory := (\<lambda>p. p = ascii ''/v/md0/slaves''),
     h_listing := (\<lambda>p. [ascii ''/v/md0/slaves/a'']),
     h_content := (\<lambda>p.
       if p = ascii ''/v/md0/p1/dev'' then Some (device_text 259 0)
       else if p = ascii ''/v/md0/dev'' then Some (device_text 9 0)
       else if p = ascii ''/p/a/dev'' then Some (device_text 8 0) else None)\<rparr>"

lemma read_device_text:
  "h_content h (path_append p (ascii ''dev'')) = Some (device_text M m) \<Longrightarrow>
     read_sysfs_device_number h p = Some (makedev M m)"
  using read_unsigned_decimal [of "unat M" "0x3A"] read_unsigned_decimal [of "unat m" "0x0A"] unat_u32_lt
  by (simp add: read_sysfs_device_number_def device_text_def is_digit_def read_char_def is_space_def)

lemma raid_ascii:
  "ascii ''/v/md0/p1'' = [0x2F, 0x76, 0x2F, 0x6D, 0x64, 0x30, 0x2F, 0x70, 0x31]"
  "ascii ''/v/md0'' = [0x2F, 0x76, 0x2F, 0x6D, 0x64, 0x30]" "ascii ''/p/a'' = [0x2F, 0x70, 0x2F, 0x61]"
  "ascii ''/v/md0/slaves/a'' = [0x2F, 0x76, 0x2F, 0x6D, 0x64, 0x30, 0x2F, 0x73, 0x6C, 0x61, 0x76, 0x65, 0x73, 0x2F, 0x61]"
  "ascii ''/v/md0/slaves'' = [0x2F, 0x76, 0x2F, 0x6D, 0x64, 0x30, 0x2F, 0x73, 0x6C, 0x61, 0x76, 0x65, 0x73]"
  "ascii ''/v/md0/p1/dev'' = [0x2F, 0x76, 0x2F, 0x6D, 0x64, 0x30, 0x2F, 0x70, 0x31, 0x2F, 0x64, 0x65, 0x76]"
  "ascii ''/v/md0/dev'' = [0x2F, 0x76, 0x2F, 0x6D, 0x64, 0x30, 0x2F, 0x64, 0x65, 0x76]"
  "ascii ''/p/a/dev'' = [0x2F, 0x70, 0x2F, 0x61, 0x2F, 0x64, 0x65, 0x76]"
  "ascii ''dev'' = [0x64, 0x65, 0x76]" "ascii ''slaves'' = [0x73, 0x6C, 0x61, 0x76, 0x65, 0x73]"
  by (simp_all add: ascii_def)

lemma raid_paths:
  "path_append (ascii ''/v/md0/p1'') (ascii ''dev'') = ascii ''/v/md0/p1/dev''"
  "path_append (ascii ''/v/md0'') (ascii ''dev'') = ascii ''/v/md0/dev''"
  "path_append (ascii ''/p/a'') (ascii ''dev'') = ascii ''/p/a/dev''"
  "path_append (ascii ''/v/md0'') (ascii ''slaves'') = ascii ''/v/md0/slaves''"
  "parent_path (ascii ''/v/md0/p1'') = ascii ''/v/md0''" "parent_path (ascii ''/v/md0'') = [0x2F, 0x76]"
  "parent_path [0x2F, 0x76] = [0x2F]" "parent_path (ascii ''/p/a'') = [0x2F, 0x70]" "parent_path [0x2F, 0x70] = [0x2F]"
  by (simp_all add: raid_ascii path_append_def parent_path_def SLASH_def root_path_def)

lemma raid_reads:
  "read_sysfs_device_number raid_host (ascii ''/v/md0/p1'') = Some (makedev 259 0)"
  "read_sysfs_device_number raid_host (ascii ''/v/md0'') = Some (makedev 9 0)"
  "read_sysfs_device_number raid_host (ascii ''/p/a'') = Some (makedev 8 0)"
  "read_sysfs_device_number raid_host [0x2F] = None" "read_sysfs_device_number raid_host [0x2F, 0x76] = None"
  "read_sysfs_device_number raid_host [0x2F, 0x70] = None"
  by (rule read_device_text, simp add: raid_paths, simp add: raid_host_def raid_ascii)+
   (simp_all add: read_sysfs_device_number_def raid_ascii raid_host_def empty_host_def path_append_def SLASH_def)

lemma raid_canonical:
  "h_canonical raid_host (sys_block_path (makedev 259 0)) = Some (ascii ''/v/md0/p1'')"
  "h_canonical raid_host (sys_block_path (makedev 9 0)) = Some (ascii ''/v/md0'')"
  "h_canonical raid_host (sys_block_path (makedev 8 0)) = Some (ascii ''/p/a'')"
  "h_canonical raid_host (ascii ''/v/md0/slaves/a'') = Some (ascii ''/p/a'')"
proof -
  have b: "sys_block_path (makedev M m) = path_append (ascii ''/sys/dev/block'') (decimal (unat M) @ 0x3A # decimal (unat m))" for M m
    by (simp add: sys_block_path_def major_makedev minor_makedev)
  have d: "decimal 259 = [0x32, 0x35, 0x39]" by (simp add: decimal.simps)
  show
    "h_canonical raid_host (sys_block_path (makedev 259 0)) = Some (ascii ''/v/md0/p1'')"
    "h_canonical raid_host (sys_block_path (makedev 9 0)) = Some (ascii ''/v/md0'')"
    "h_canonical raid_host (sys_block_path (makedev 8 0)) = Some (ascii ''/p/a'')"
    "h_canonical raid_host (ascii ''/v/md0/slaves/a'') = Some (ascii ''/p/a'')"
    by (simp_all add: raid_host_def b d decimal_digit path_append_def SLASH_def ascii_def)
qed

lemma raid_sysfs:
  "sysfs_devices raid_host (ascii ''/v/md0/p1'') = {makedev 259 0, makedev 9 0}"
  "sysfs_devices raid_host (ascii ''/v/md0'') = {makedev 9 0}" "sysfs_devices raid_host (ascii ''/p/a'') = {makedev 8 0}"
proof -
  have r: "root_path (ascii ''/v/md0/p1'') = [0x2F]" "root_path (ascii ''/v/md0'') = [0x2F]" "root_path (ascii ''/p/a'') = [0x2F]"
    "root_path [0x2F, 0x76] = [0x2F]" "root_path [0x2F, 0x70] = [0x2F]" "root_path [0x2F] = [0x2F]"
    by (simp_all add: raid_ascii root_path_def SLASH_def)
  have n: "ascii ''/v/md0/p1'' \<noteq> []" "ascii ''/v/md0'' \<noteq> []" "ascii ''/p/a'' \<noteq> []"
    "ascii ''/v/md0/p1'' \<noteq> [0x2F]" "ascii ''/v/md0'' \<noteq> [0x2F]" "ascii ''/p/a'' \<noteq> [0x2F]"
    by (simp_all add: raid_ascii)
  show "sysfs_devices raid_host (ascii ''/v/md0/p1'') = {makedev 259 0, makedev 9 0}"
    "sysfs_devices raid_host (ascii ''/v/md0'') = {makedev 9 0}" "sysfs_devices raid_host (ascii ''/p/a'') = {makedev 8 0}"
    using r n by (simp_all add: sysfs_devices_def add_ancestors_step raid_paths raid_reads insert_commute)
qed

lemma raid_slaves:
  "slave_entries raid_host (ascii ''/v/md0/p1'') = []" "slave_entries raid_host (ascii ''/p/a'') = []"
  "slave_entries raid_host (ascii ''/v/md0'') = [ascii ''/v/md0/slaves/a'']"
  by (simp_all add: slave_entries_def raid_ascii path_append_def SLASH_def raid_host_def empty_host_def)

lemma raid_distinct:
  "makedev 259 0 \<noteq> makedev 9 0" "makedev 259 0 \<noteq> makedev 8 0" "makedev 9 0 \<noteq> makedev 8 0"
  using major_makedev [of 259 0] major_makedev [of 9 0] major_makedev [of 8 0] by auto

lemma add_device_relations_expand:
  assumes "d \<notin> ds" "h_canonical h (sys_block_path d) = Some p"
  shows "add_device_relations h d ds = add_slaves h (slave_entries h p) (add_ancestors h p (insert d ds))"
  using assms by (simp add: add_device_relations.simps [of h d] slave_entries_def Let_def)

definition not_source :: "host \<Rightarrow> source \<Rightarrow> path \<Rightarrow> bool" where
  "not_source h src c \<longleftrightarrow>
     (case h_stat h c of
        Inl e \<Rightarrow> e = ENOENT \<or> e = ENOTDIR
      | Inr i \<Rightarrow> (\<exists>opened. h_fstat h (src_fd src) = Inr opened \<and> \<not> same_opened_object opened i))"

definition not_on_source :: "host \<Rightarrow> source \<Rightarrow> stat_info \<Rightarrow> bool" where
  "not_on_source h src info \<longleftrightarrow> (src_is_block src \<longrightarrow> \<not> devices_are_related h (src_device src) (st_dev info))"

lemma reject_source_alias_None: "reject_source_alias h src p c role = None \<longleftrightarrow> not_source h src c"
  by (auto simp: reject_source_alias_def not_source_def split: sum.splits)

lemma reject_source_storage_None: "reject_source_storage h src p role (a, info) = None \<longleftrightarrow> not_on_source h src info"
  by (simp add: reject_source_storage_def not_on_source_def)

lemma stored_in_unique: "stored_in h p a i \<Longrightarrow> stored_in h p b j \<Longrightarrow> a = b \<and> i = j"
  using existing_ancestor_iff [of h SourceRole p p] by (metis Pair_inject sum.inject(2))

lemma accepted_destination:
  "validate_destination_path h src p = Inr c \<longleftrightarrow>
      canonicalize h p DestinationRole = Inr c \<and> not_source h src c
      \<and> (\<exists>a info. stored_in h c a info \<and> st_kind info = DirectoryKind \<and> not_on_source h src info)"
proof (cases "canonicalize h p DestinationRole = Inr c \<and> not_source h src c")
  case False
  have "validate_destination_path h src p \<noteq> Inr c"
  proof (cases "canonicalize h p DestinationRole")
    case (Inr d)
    then show ?thesis using False
      by (cases "reject_source_alias h src p d DestinationRole")
        (auto simp: validate_destination_path_def reject_source_alias_None split: sum.splits option.splits if_splits)
  qed (simp add: validate_destination_path_def)
  then show ?thesis using False by blast
next
  case True
  then have a: "reject_source_alias h src p c DestinationRole = None" by (simp add: reject_source_alias_None)
  show ?thesis
  proof (cases "existing_ancestor h DestinationRole c c")
    case (Inl e)
    then have "\<not> stored_in h c a info" for a info using existing_ancestor_iff [of h DestinationRole c c] by simp
    then show ?thesis using True a Inl by (simp add: validate_destination_path_def)
  next
    case (Inr s)
    obtain d i where s: "s = (d, i)" by (cases s)
    then have st: "stored_in h c a info \<longleftrightarrow> a = d \<and> info = i" for a info
      using existing_ancestor_iff [of h DestinationRole c c a info] Inr s by auto
    show ?thesis using True a Inr s reject_source_storage_None [of h src p DestinationRole d i]
      by (cases "reject_source_storage h src p DestinationRole (d, i)") (auto simp: validate_destination_path_def st)
  qed
qed

lemma accepted_database:
  "validate_database_path h src p = Inr c \<longleftrightarrow>
      canonicalize h p DatabaseRole = Inr c \<and> not_source h src c
      \<and> (\<exists>a info. stored_in h c a info \<and> st_kind info = (if a = c then RegularKind else DirectoryKind)
            \<and> not_on_source h src info)"
proof (cases "canonicalize h p DatabaseRole = Inr c \<and> not_source h src c")
  case False
  have "validate_database_path h src p \<noteq> Inr c"
  proof (cases "canonicalize h p DatabaseRole")
    case (Inr d)
    then show ?thesis using False
      by (cases "reject_source_alias h src p d DatabaseRole")
        (auto simp: validate_database_path_def reject_source_alias_None split: sum.splits option.splits if_splits)
  qed (simp add: validate_database_path_def)
  then show ?thesis using False by blast
next
  case True
  then have a: "reject_source_alias h src p c DatabaseRole = None" by (simp add: reject_source_alias_None)
  show ?thesis
  proof (cases "existing_ancestor h DatabaseRole c c")
    case (Inl e)
    then have "\<not> stored_in h c a info" for a info using existing_ancestor_iff [of h DatabaseRole c c] by simp
    then show ?thesis using True a Inl by (simp add: validate_database_path_def)
  next
    case (Inr s)
    obtain d i where s: "s = (d, i)" by (cases s)
    then have st: "stored_in h c a info \<longleftrightarrow> a = d \<and> info = i" for a info
      using existing_ancestor_iff [of h DatabaseRole c c a info] Inr s by auto
    show ?thesis using True a Inr s reject_source_storage_None [of h src p DatabaseRole d i]
      by (cases "reject_source_storage h src p DatabaseRole (d, i)") (auto simp: validate_database_path_def st)
  qed
qed

section \<open>Properties\<close>

text \<open>
  C18: what the path validation accepts. A destination is accepted, with its canonical path, exactly
  if that path can be made canonical, is not the opened source under another name, and the deepest
  existing path above it is a directory that, for a block device as source, is not stored on a
  device found to be related to it; a database likewise, except that an existing one must be a
  regular file.
\<close>

theorem validation_specification:
  "(validate_destination_path h src p = Inr c \<longleftrightarrow>
      canonicalize h p DestinationRole = Inr c \<and> not_source h src c
      \<and> (\<exists>a info. stored_in h c a info \<and> st_kind info = DirectoryKind \<and> not_on_source h src info))
   \<and> (validate_database_path h src p = Inr c \<longleftrightarrow>
      canonicalize h p DatabaseRole = Inr c \<and> not_source h src c
      \<and> (\<exists>a info. stored_in h c a info \<and> st_kind info = (if a = c then RegularKind else DirectoryKind)
            \<and> not_on_source h src info))"
  using accepted_destination accepted_database by blast

text \<open>
  C19: which devices are taken to be related. The set computed for a device, for any contents of
  sysfs, also cyclic ones (it is a total function), contains only devices reachable by steps to an
  enclosing sysfs directory or to a slave; and it contains the device itself and, when the entries
  of its \<open>slaves\<close> directory can be resolved, every device one step away.
\<close>

theorem device_relations_bounds:
  "add_device_relations h d {} \<subseteq> {x. (device_edge h)\<^sup>*\<^sup>* d x}
   \<and> d \<in> add_device_relations h d {}
   \<and> ((\<forall>p. h_canonical h (sys_block_path d) = Some p \<longrightarrow> (\<forall>e \<in> set (slave_entries h p). h_canonical h e \<noteq> None))
       \<longrightarrow> {x. device_edge h d x} \<subseteq> add_device_relations h d {})"
  using relations_sound(1) [of h d "{}"] add_device_relations_self [of d h "{}"] add_device_relations_covers [of h d]
  by blast

lemma device_relations_bounds_witness:
  "{x. device_edge raid_host (makedev 9 0) x} \<subseteq> add_device_relations raid_host (makedev 9 0) {}
     \<and> device_edge raid_host (makedev 9 0) (makedev 8 0)"
  using device_relations_bounds [of raid_host "makedev 9 0"]
  by (simp add: raid_canonical raid_slaves device_edge_def entry_device_def raid_reads)

text \<open>
  C20: the relation misses a partition of an array. On a host where the disk 8:0 is a member of the
  array 9:0 and 259:0 is a partition of that array, 8:0 can be reached from 259:0, but the two are
  not found to be related, so a destination on the partition is accepted while the disk is the
  source: the enclosing device 9:0 enters the set before its slaves are visited.
\<close>

theorem array_partition_missed:
  "(device_edge raid_host)\<^sup>*\<^sup>* (makedev 259 0) (makedev 8 0)
   \<and> \<not> devices_are_related raid_host (makedev 8 0) (makedev 259 0)"
proof
  have "device_edge raid_host (makedev 259 0) (makedev 9 0)" "device_edge raid_host (makedev 9 0) (makedev 8 0)"
    by (simp_all add: device_edge_def raid_canonical raid_sysfs raid_slaves entry_device_def raid_reads)
  then show "(device_edge raid_host)\<^sup>*\<^sup>* (makedev 259 0) (makedev 8 0)" by simp
  have "add_device_relations raid_host (makedev 259 0) {} = {makedev 259 0, makedev 9 0}"
    "add_device_relations raid_host (makedev 8 0) {} = {makedev 8 0}"
    by (simp_all add: add_device_relations_expand raid_canonical raid_slaves add_ancestors_union raid_sysfs insert_commute)
  then show "\<not> devices_are_related raid_host (makedev 8 0) (makedev 259 0)"
    using raid_distinct by (simp add: devices_are_related_def)
qed

text \<open>The constructor reaches \<open>::open\<close>, and the call gives the descriptor \<open>fd\<close>.\<close>

definition open_gave :: "host \<Rightarrow> path \<Rightarrow> int \<Rightarrow> bool" where
  "open_gave h p fd \<longleftrightarrow>
     (\<exists>c before. canonicalize h p SourceRole = Inr c \<and> h_stat h c = Inr before
        \<and> st_kind before \<in> {RegularKind, BlockKind} \<and> h_open h c = Inr fd)"

text \<open>
  C21: the opened source is the one that was checked, and a failed opening leaves no descriptor. If the
  constructor returns, its descriptor is read-only and open on the very object the checked path
  named, a regular file or a block device, and nothing was closed; if it throws, it has closed the
  descriptor exactly when \<open>::open\<close> had given one.
\<close>

theorem source_opened:
  "case open_source h p of
     (Inr src, closed) \<Rightarrow> closed = [] \<and> canonicalize h p SourceRole = Inr (src_path src)
       \<and> h_open h (src_path src) = Inr (src_fd src)
       \<and> 0 \<le>s h_getfl h (src_fd src) \<and> h_getfl h (src_fd src) AND 3 = 0
       \<and> (\<exists>before after. h_stat h (src_path src) = Inr before \<and> h_fstat h (src_fd src) = Inr after
            \<and> same_opened_object before after \<and> (st_kind before = RegularKind \<or> st_kind before = BlockKind)
            \<and> src_device src = st_rdev after \<and> src_is_block src = (st_kind after = BlockKind))
   | (Inl e, closed) \<Rightarrow>
       (closed = [] \<longleftrightarrow> \<not> (\<exists>fd. open_gave h p fd)) \<and> (\<forall>fd. closed = [fd] \<longleftrightarrow> open_gave h p fd)"
proof (cases "canonicalize h p SourceRole")
  case (Inr c)
  show ?thesis
  proof (cases "h_stat h c")
    case stat: (Inr before)
    show ?thesis
    proof (cases "h_open h c")
      case op: (Inr fd)
      then show ?thesis using Inr stat
        by (cases "h_fstat h fd")
          (auto simp: open_source_def open_gave_def stat_or_fail_def Let_def word_sless_alt word_sle_eq not_less)
    qed (use Inr stat in \<open>simp add: open_source_def open_gave_def stat_or_fail_def\<close>)
  qed (use Inr in \<open>simp add: open_source_def open_gave_def stat_or_fail_def\<close>)
qed (simp add: open_source_def open_gave_def)

end
