(* ===== verification/IndexOpening.thy ===== *)
theory IndexOpening
  imports FileSystem Decimal
begin

text \<open>
  What opening the index does to the file system. The constructor of \<open>src/Database.cpp\<close> calls
  \<open>sqlite3_open\<close>, which opens for reading and writing and creates the file when it is missing; SQLite keeps
  its side files next to it. SQLite is a parameter: an \<open>index_opening\<close> is the list of the files it creates
  when they are missing, with what the constructor yields, and \<open>run_opening\<close> is its effect. What SQLite
  writes into its own files, and that it removes the side files in the end, is not in the state \<open>os\<close>.
\<close>

type_synonym 'a index_opening = "path list \<times> (bytes + 'a)"

section \<open>Creating missing files\<close>

text \<open>
  \<open>open\<close> with \<open>O_RDWR | O_CREAT\<close>; the descriptor is SQLite's own and is closed with the connection.
  SQLite's calls take no entry of the script: which of them succeed is part of the parameter.
\<close>

definition create_file :: "path \<Rightarrow> os \<Rightarrow> os" where
  "create_file p s = (if entries s p = None then add_node p (Regular []) s else s)"

definition create_missing :: "path list \<Rightarrow> os \<Rightarrow> os" where
  "create_missing ps = fold create_file ps"

definition run_opening :: "'a index_opening \<Rightarrow> (bytes, 'a) io" where
  "run_opening op s = (snd op, create_missing (fst op) s)"

text \<open>The names SQLite documents for a database and its side files.\<close>

definition index_files :: "path \<Rightarrow> path list" where
  "index_files p = [p, p @ ascii ''-journal'', p @ ascii ''-wal'', p @ ascii ''-shm'']"

definition creates_index_files :: "(path \<Rightarrow> 'a index_opening) \<Rightarrow> bool" where
  "creates_index_files open_index \<longleftrightarrow> (\<forall>p. set (fst (open_index p)) \<subseteq> set (index_files p))"

section \<open>What an opening changes\<close>

text \<open>
  From \<open>s\<close> to \<open>s'\<close> everything that existed stays, and so do the descriptors and the source; undisturbed,
  a path that is new is one of \<open>P\<close> and names an empty file.
\<close>

definition added :: "path set \<Rightarrow> os \<Rightarrow> os \<Rightarrow> bool" where
  "added P s s' \<longleftrightarrow> grown s s'
     \<and> (quiet s \<longrightarrow> quiet s' \<and> (\<forall>p j. entries s' p = Some j \<longrightarrow>
          entries s p = Some j \<or> (entries s p = None \<and> p \<in> P \<and> nodes s' j = Some (Regular []))))"

lemma extended_added: "extended s s' \<Longrightarrow> added P s s'"
  by (simp add: extended_iff added_def)

lemma added_refl [simp, intro]: "added P s s"
  by (rule extended_added) simp

lemma added_mono: "added P s s' \<Longrightarrow> P \<subseteq> Q \<Longrightarrow> added Q s s'"
  unfolding added_def by blast

lemma added_wf: "added P s s' \<Longrightarrow> wf_os s \<Longrightarrow> wf_os s'"
  by (simp add: added_def grown_def)

lemma added_image: "added P s s' \<Longrightarrow> source_image s' = source_image s"
  by (simp add: added_def grown_def)

lemma added_trans:
  assumes "added P s s'" "added P s' s''"
  shows "added P s s''"
proof -
  have g: "grown s s'" "grown s' s''" using assms by (simp_all add: added_def)
  have e: "entries s p = Some j \<or> (entries s p = None \<and> p \<in> P \<and> nodes s'' j = Some (Regular []))"
    if q: "quiet s" and j: "entries s'' p = Some j" for p j
  proof -
    have q': "quiet s'" using assms(1) q by (simp add: added_def)
    have 1: "entries s p = Some i \<or> (entries s p = None \<and> p \<in> P \<and> nodes s' i = Some (Regular []))"
      if "entries s' p = Some i" for i using that assms(1) q by (simp add: added_def)
    from assms(2) q' j have "entries s' p = Some j \<or> (entries s' p = None \<and> p \<in> P \<and> nodes s'' j = Some (Regular []))"
      by (simp add: added_def)
    then show ?thesis
    proof (elim disjE conjE)
      assume "entries s' p = Some j"
      then show ?thesis using 1 g(2) unfolding grown_def by blast
    next
      assume h: "entries s' p = None" "p \<in> P" "nodes s'' j = Some (Regular [])"
      then have "entries s p = None" using g(1) unfolding grown_def by (metis not_None_eq)
      then show ?thesis using h by blast
    qed
  qed
  show ?thesis unfolding added_def
    using grown_trans [OF g] e assms by (auto simp: added_def)
qed

lemma added_old:
  assumes "added P s s'" "wf_os s" "entries s p = Some j"
  shows "entries s' p = Some j \<and> nodes s' j = nodes s j"
proof -
  obtain n where n: "nodes s j = Some n" using wf_entry [OF assms(2,3)] by blast
  then have "nodes s' j = Some n" "entries s' p = Some j"
    using assms(1,3) unfolding added_def grown_def by blast+
  then show ?thesis using n by simp
qed

lemma added_new:
  "added P s s' \<Longrightarrow> quiet s \<Longrightarrow> entries s' p = Some j \<Longrightarrow> entries s p = None \<Longrightarrow> p \<in> P \<and> nodes s' j = Some (Regular [])"
  unfolding added_def by fastforce

lemma create_file_added:
  assumes "wf_os s"
  shows "added {p} s (create_file p s)"
proof (cases "entries s p")
  case None
  then have c: "create_file p s = add_node p (Regular []) s" by (simp add: create_file_def)
  have "grown s (create_file p s)" unfolding c by (rule add_node_grown [OF assms None])
  then show ?thesis using None by (auto simp: added_def c add_node_def split: if_splits)
next
  case (Some i)
  then show ?thesis by (simp add: create_file_def)
qed

lemma create_missing_added: "wf_os s \<Longrightarrow> added (set ps) s (create_missing ps s)"
proof (induction ps arbitrary: s)
  case Nil
  then show ?case by (simp add: create_missing_def)
next
  case (Cons p ps)
  have 1: "added {p} s (create_file p s)" by (rule create_file_added [OF Cons.prems])
  have 2: "added (set ps) (create_file p s) (create_missing ps (create_file p s))"
    by (rule Cons.IH [OF added_wf [OF 1 Cons.prems]])
  have "added (set (p # ps)) s (create_file p s)" by (rule added_mono [OF 1]) simp
  moreover have "added (set (p # ps)) (create_file p s) (create_missing (p # ps) s)"
    using added_mono [OF 2, of "set (p # ps)"] by (auto simp: create_missing_def)
  ultimately show ?case by (rule added_trans)
qed

lemma run_opening_added: "wf_os s \<Longrightarrow> run_opening op s = (r, s') \<Longrightarrow> added (set (fst op)) s s' \<and> wf_os s' \<and> r = snd op"
  using create_missing_added [of s "fst op"] added_wf by (auto simp: run_opening_def)

lemma create_missing_fields [simp]:
  "script (create_missing ps s) = script s" "source_image (create_missing ps s) = source_image s"
  "descriptors (create_missing ps s) = descriptors s"
  by (induction ps arbitrary: s) (simp_all add: create_missing_def create_file_def add_node_def)

lemma create_missing_entries:
  "(entries (create_missing ps s) p = None) = (entries s p = None \<and> p \<notin> set ps)"
  "p \<notin> set ps \<Longrightarrow> entries (create_missing ps s) p = entries s p"
  by (induction ps arbitrary: s) (auto simp: create_missing_def create_file_def add_node_def)

end
