(* ===== verification/RecoverRun.thy ===== *)
theory RecoverRun
  imports RecordLocation TreeCollection PathValidation IndexOpening
begin

text \<open>
  The run of \<open>src/Recover.cpp\<close>: creating the output directories, the loop over the collected items,
  and \<open>Recover::run\<close> itself. The record index is a \<open>database\<close> of query results, opened with the effect of
  \<open>IndexOpening\<close>, and the \<open>host\<close> is a
  function of the operating-system state, as created directories change what \<open>stat\<close> answers.
\<close>

section \<open>Errors\<close>

datatype recover_error =
    OutputError runtime_error
  | PathError path_failure
  | TreeError tree_error
  | DatabaseError bytes
  | NoIndexedRecord u64
  | CannotInspectDirectory path errno
  | CannotCreateDirectory path errno
  | CannotInspectCreated path errno
  | SymlinkInPath path
  | NotADirectory path

section \<open>Output directories\<close>

definition sys_mkdir :: "path \<Rightarrow> (errno, unit) io" where
  "sys_mkdir p = syscall (\<lambda>cap s.
     if entries s p \<noteq> None then (Inl EEXIST, s) else (Inr (), add_node p Directory s))"

text \<open>\<open>path::relative_path\<close> as iterated: no empty components but one at the end of \<open>a/\<close>.\<close>

definition relative_components :: "path \<Rightarrow> bytes list" where
  "relative_components p =
     (let cs = filter (\<lambda>c. c \<noteq> []) (split_slash p)
      in if cs \<noteq> [] \<and> last p = SLASH then cs @ [[]] else cs)"

definition check_directory :: "path \<Rightarrow> node \<Rightarrow> recover_error + unit" where
  "check_directory current info =
     (case info of
        Symlink t \<Rightarrow> Inl (SymlinkInPath current)
      | Directory \<Rightarrow> Inr ()
      | _ \<Rightarrow> Inl (NotADirectory current))"

definition inspect_created :: "path \<Rightarrow> (recover_error, unit) io" where
  "inspect_created current s =
     (case sys_lstat current s of
        (Inl e, s1) \<Rightarrow> (Inl (CannotInspectCreated current e), s1)
      | (Inr info, s1) \<Rightarrow> (check_directory current info, s1))"

definition ensure_component :: "path \<Rightarrow> (recover_error, unit) io" where
  "ensure_component current s =
     (case sys_lstat current s of
        (Inr info, s1) \<Rightarrow> (check_directory current info, s1)
      | (Inl e, s1) \<Rightarrow>
          if e \<noteq> ENOENT then (Inl (CannotInspectDirectory current e), s1)
          else
            (case sys_mkdir current s1 of
               (Inr u, s2) \<Rightarrow> inspect_created current s2
             | (Inl e, s2) \<Rightarrow>
                 if e \<noteq> EEXIST then (Inl (CannotCreateDirectory current e), s2) else inspect_created current s2))"

fun ensure_components :: "(os \<Rightarrow> host) \<Rightarrow> source \<Rightarrow> path \<Rightarrow> bytes list \<Rightarrow> (recover_error, unit) io" where
  "ensure_components hosted source current [] s = (Inr (), s)"
| "ensure_components hosted source current (component # rest) s =
     (let current' = path_append current component in
      case ensure_component current' s of
        (Inl e, s1) \<Rightarrow> (Inl e, s1)
      | (Inr u, s1) \<Rightarrow>
          (case validate_destination_path (hosted s1) source current' of
             Inl e \<Rightarrow> (Inl (PathError e), s1)
           | Inr p \<Rightarrow> ensure_components hosted source current' rest s1))"

definition ensure_safe_directory :: "(os \<Rightarrow> host) \<Rightarrow> source \<Rightarrow> path \<Rightarrow> (recover_error, unit) io" where
  "ensure_safe_directory hosted source directory =
     ensure_components hosted source (root_path directory) (relative_components directory)"

section \<open>One item\<close>

datatype outcome = DirectoryReady | Recovered | Skipped "recover_error option"

text \<open>The body of the loop over the items; a caught exception is \<open>Skipped (Some e)\<close>.\<close>

definition recover_item_step ::
  "(os \<Rightarrow> host) \<Rightarrow> source \<Rightarrow> u64 \<Rightarrow> (u64 \<times> bytes) list \<Rightarrow> path \<Rightarrow> bool \<Rightarrow> recover_item \<Rightarrow> os \<Rightarrow> outcome \<times> os" where
  "recover_item_step hosted source cluster_size records destination ov item s =
     (let target = path_append destination (ri_relative_path item) in
      if sr_is_directory (ri_record item) then
        (case ensure_safe_directory hosted source target s of
           (Inl e, s1) \<Rightarrow> (Skipped (Some e), s1)
         | (Inr u, s1) \<Rightarrow> (DirectoryReady, s1))
      else
        (case ensure_safe_directory hosted source (parent_path target) s of
           (Inl e, s1) \<Rightarrow> (Skipped (Some e), s1)
         | (Inr u, s1) \<Rightarrow>
             (case validate_destination_path (hosted s1) source (parent_path target) of
                Inl e \<Rightarrow> (Skipped (Some (PathError e)), s1)
              | Inr p \<Rightarrow>
                  (case map_of records (sr_record_id_guess (ri_record item)) of
                     None \<Rightarrow> (Skipped None, s1)
                   | Some mft_bytes \<Rightarrow>
                       (case recover_file (ri_record item) mft_bytes cluster_size target ov s1 of
                          (Inl e, s2) \<Rightarrow> (Skipped (Some (OutputError e)), s2)
                        | (Inr False, s2) \<Rightarrow> (Skipped None, s2)
                        | (Inr True, s2) \<Rightarrow> (Recovered, s2))))))"

section \<open>The loop\<close>

record recover_stats =
  recovered :: u64
  skipped :: u64
  preview_items :: u64

datatype log_line =
    DryRunRoot u64 path
  | DryRunItem bool path
  | DryRunCount nat
  | Locating nat
  | LogRecovered path
  | LogSkipped path "recover_error option"
  | LogDone u64 u64

fun recover_items ::
  "(os \<Rightarrow> host) \<Rightarrow> source \<Rightarrow> u64 \<Rightarrow> (u64 \<times> bytes) list \<Rightarrow> path \<Rightarrow> bool \<Rightarrow> recover_item list
     \<Rightarrow> recover_stats \<Rightarrow> log_line list \<Rightarrow> os \<Rightarrow> recover_stats \<times> log_line list \<times> os" where
  "recover_items hosted source cluster_size records destination ov [] stats log s = (stats, log, s)"
| "recover_items hosted source cluster_size records destination ov (item # rest) stats log s =
     (let target = path_append destination (ri_relative_path item) in
      case recover_item_step hosted source cluster_size records destination ov item s of
        (DirectoryReady, s1) \<Rightarrow>
          recover_items hosted source cluster_size records destination ov rest stats log s1
      | (Recovered, s1) \<Rightarrow>
          recover_items hosted source cluster_size records destination ov rest
            (stats\<lparr>recovered := recovered stats + 1\<rparr>) (log @ [LogRecovered target]) s1
      | (Skipped e, s1) \<Rightarrow>
          recover_items hosted source cluster_size records destination ov rest
            (stats\<lparr>skipped := skipped stats + 1\<rparr>) (log @ [LogSkipped target e]) s1)"

section \<open>The run\<close>

record recover_options =
  opt_source :: path
  opt_database :: path
  opt_root :: u64
  opt_destination :: path
  opt_dry_run :: bool
  opt_overwrite :: bool

record database =
  db_children_of :: record_index
  db_by_record_id :: "u64 \<Rightarrow> bytes + stored_record option"

definition wanted_files :: "recover_item list \<Rightarrow> u64 set" where
  "wanted_files items =
     set (map (\<lambda>item. sr_record_id_guess (ri_record item)) (filter (\<lambda>item. \<not> sr_is_directory (ri_record item)) items))"

text \<open>What follows the collection of the items.\<close>

definition dry_run_log :: "recover_options \<Rightarrow> path \<Rightarrow> recover_item list \<Rightarrow> log_line list" where
  "dry_run_log options destination items =
     DryRunRoot (opt_root options) destination
     # map (\<lambda>item. DryRunItem (sr_is_directory (ri_record item)) (path_append destination (ri_relative_path item))) items
     @ [DryRunCount (length items)]"

definition recover_collected ::
  "(os \<Rightarrow> host) \<Rightarrow> recover_options \<Rightarrow> source \<Rightarrow> u64 \<Rightarrow> path \<Rightarrow> recover_item list
     \<Rightarrow> os \<Rightarrow> (recover_error + recover_stats) \<times> log_line list \<times> os" where
  "recover_collected hosted options source cluster_size destination items s =
     (let stats = \<lparr>recovered = 0, skipped = 0, preview_items = of_nat (length items)\<rparr> in
      if opt_dry_run options then (Inr stats, dry_run_log options destination items, s)
      else
        (case ensure_safe_directory hosted source destination s of
           (Inl e, s1) \<Rightarrow> (Inl e, [], s1)
         | (Inr u, s1) \<Rightarrow>
             (let wanted = wanted_files items; log = [Locating (card wanted)] in
              case locate_records wanted s1 of
                (Inl e, s2) \<Rightarrow> (Inl (OutputError e), log, s2)
              | (Inr records, s2) \<Rightarrow>
                  (case recover_items hosted source cluster_size records destination (opt_overwrite options)
                          items stats log s2 of
                     (stats', log', s3) \<Rightarrow>
                       (Inr stats', log' @ [LogDone (recovered stats') (skipped stats')], s3)))))"

definition recover_run ::
  "(os \<Rightarrow> host) \<Rightarrow> (path \<Rightarrow> database index_opening) \<Rightarrow> (stored_record list \<Rightarrow> stored_record list) \<Rightarrow> recover_options
     \<Rightarrow> os \<Rightarrow> (recover_error + recover_stats) \<times> log_line list \<times> os" where
  "recover_run hosted open_database arrange options s =
     (case fst (open_source (hosted s) (opt_source options)) of
        Inl e \<Rightarrow> (Inl (PathError e), [], s)
      | Inr source \<Rightarrow>
          (case validate_database_path (hosted s) source (opt_database options) of
             Inl e \<Rightarrow> (Inl (PathError e), [], s)
           | Inr database_path \<Rightarrow>
               (case validate_destination_path (hosted s) source (opt_destination options) of
                  Inl e \<Rightarrow> (Inl (PathError e), [], s)
                | Inr destination \<Rightarrow>
                    (case run_opening (open_database database_path) s of
                       (Inl e, s0) \<Rightarrow> (Inl (DatabaseError e), [], s0)
                     | (Inr db, s0) \<Rightarrow>
                         (case read_cluster_size s0 of
                            (Inl e, s1) \<Rightarrow> (Inl (OutputError e), [], s1)
                          | (Inr cluster_size, s1) \<Rightarrow>
                              (case db_by_record_id db (opt_root options) of
                                 Inl e \<Rightarrow> (Inl (DatabaseError e), [], s1)
                               | Inr None \<Rightarrow> (Inl (NoIndexedRecord (opt_root options)), [], s1)
                               | Inr (Some root) \<Rightarrow>
                                   (case collect_tree arrange (db_children_of db) (opt_root options) [] new_tree of
                                      Inl e \<Rightarrow> (Inl (TreeError e), [], s1)
                                    | Inr tree \<Rightarrow>
                                        recover_collected hosted options source cluster_size destination
                                          (ts_items tree) s1)))))))"

end
