(* ===== verification/RecordIndex.thy ===== *)
theory RecordIndex
  imports RecoverRun "HOL-Library.Product_Lexorder"
begin

text \<open>
  \<open>src/Database.cpp\<close>, the record index. SQLite itself is third-party code: it is the parameter
  \<open>sqlite\<close>, one field per call, over the states \<open>'c\<close> of a connection; \<open>sqlite_documented\<close> says what
  its documentation promises for the statements of this file. No property of the code's own
  conversions depends on it.
\<close>

section \<open>SQLite\<close>

datatype sql_value = NullValue | IntegerValue i64 | TextValue bytes

type_synonym sql_row = "sql_value list"

definition SQLITE_OK :: int where "SQLITE_OK = 0"
definition SQLITE_ROW :: int where "SQLITE_ROW = 100"
definition SQLITE_DONE :: int where "SQLITE_DONE = 101"

text \<open>
  \<open>sq_open\<close> gives a connection, or the message of the handle, if there is one; \<open>sq_creates\<close> are the
  files that SQLite creates, when they are missing, for the connection. A select yields the rows of its successful steps and the code of the step that is not \<open>SQLITE_ROW\<close>.
\<close>

record 'c sqlite =
  sq_open :: "path \<Rightarrow> bytes option + 'c"
  sq_creates :: "path \<Rightarrow> path list"
  sq_errmsg :: "'c \<Rightarrow> bytes"
  sq_exec :: "string \<Rightarrow> 'c \<Rightarrow> (int \<times> bytes option) \<times> 'c"
  sq_prepare :: "string \<Rightarrow> 'c \<Rightarrow> int"
  sq_insert :: "string \<Rightarrow> sql_value list \<Rightarrow> 'c \<Rightarrow> int \<times> 'c"
  sq_select :: "string \<Rightarrow> sql_value list \<Rightarrow> 'c \<Rightarrow> sql_row list \<times> int"
  sq_text_int :: "bytes \<Rightarrow> i64"
  sq_int_text :: "i64 \<Rightarrow> bytes"

text \<open>A C string ends at its first NUL, and so does text bound with length \<open>-1\<close>.\<close>

definition c_string :: "bytes \<Rightarrow> bytes" where
  "c_string t = takeWhile (\<lambda>b. b \<noteq> 0) t"

definition column :: "sql_row \<Rightarrow> nat \<Rightarrow> sql_value" where
  "column row i = (if i < length row then row ! i else NullValue)"

definition column_int64 :: "'c sqlite \<Rightarrow> sql_row \<Rightarrow> nat \<Rightarrow> i64" where
  "column_int64 sq row i = (case column row i of IntegerValue n \<Rightarrow> n | TextValue t \<Rightarrow> sq_text_int sq t | NullValue \<Rightarrow> 0)"

definition column_int :: "'c sqlite \<Rightarrow> sql_row \<Rightarrow> nat \<Rightarrow> i32" where
  "column_int sq row i = ucast (column_int64 sq row i)"

definition column_text :: "'c sqlite \<Rightarrow> sql_row \<Rightarrow> nat \<Rightarrow> bytes option" where
  "column_text sq row i =
     (case column row i of IntegerValue n \<Rightarrow> Some (sq_int_text sq n) | TextValue t \<Rightarrow> Some (c_string t) | NullValue \<Rightarrow> None)"

section \<open>Rows and records\<close>

definition column_u64 :: "'c sqlite \<Rightarrow> sql_row \<Rightarrow> nat \<Rightarrow> u64" where
  "column_u64 sq row i = column_int64 sq row i"

definition row_to_record :: "'c sqlite \<Rightarrow> sql_row \<Rightarrow> stored_record" where
  "row_to_record sq row =
     \<lparr>sr_id = column_int64 sq row 0,
      sr_record_id_guess = column_u64 sq row 1,
      sr_offset = column_u64 sq row 2,
      sr_parent_ref = column_u64 sq row 3,
      sr_name = (case column_text sq row 4 of Some t \<Rightarrow> t | None \<Rightarrow> []),
      sr_name_namespace = column_int sq row 5,
      sr_flags = ucast (column_int64 sq row 6),
      sr_allocated_size = column_u64 sq row 7,
      sr_real_size = column_u64 sq row 8,
      sr_is_directory = (column_int sq row 9 \<noteq> 0)\<rparr>"

section \<open>The connection\<close>

record 'c connection =
  conn :: 'c
  insert_prepared :: bool

definition check_sqlite :: "'c sqlite \<Rightarrow> int \<Rightarrow> 'c \<Rightarrow> string \<Rightarrow> bytes option" where
  "check_sqlite sq rc db action =
     (if rc \<noteq> SQLITE_OK \<and> rc \<noteq> SQLITE_DONE \<and> rc \<noteq> SQLITE_ROW
      then Some (ascii action @ ascii '': '' @ sq_errmsg sq db) else None)"

text \<open>The constructor: the files it may create, and the connection or the exception.\<close>

definition open_connection :: "'c sqlite \<Rightarrow> path \<Rightarrow> 'c connection index_opening" where
  "open_connection sq p =
     (sq_creates sq p,
      case sq_open sq p of
        Inl message \<Rightarrow>
          Inl (ascii ''failed to open database '' @ p @ ascii '': ''
               @ (case message of Some m \<Rightarrow> m | None \<Rightarrow> ascii ''unknown sqlite error''))
      | Inr c \<Rightarrow> Inr \<lparr>conn = c, insert_prepared = False\<rparr>)"

definition exec_sql :: "'c sqlite \<Rightarrow> string \<Rightarrow> 'c connection \<Rightarrow> (bytes + unit) \<times> 'c connection" where
  "exec_sql sq sql d =
     (case sq_exec sq sql (conn d) of
        ((rc, error), c) \<Rightarrow>
          (if rc \<noteq> SQLITE_OK then Inl (case error of Some e \<Rightarrow> e | None \<Rightarrow> sq_errmsg sq c) else Inr (), d\<lparr>conn := c\<rparr>))"

definition create_table_sql :: string where
  "create_table_sql = ''CREATE TABLE IF NOT EXISTS records(id INTEGER PRIMARY KEY AUTOINCREMENT,record_id_guess INTEGER,offset INTEGER NOT NULL,parent_ref INTEGER,name TEXT,namespace INTEGER,flags INTEGER,allocated_size INTEGER,real_size INTEGER,is_directory INTEGER);''"

definition initialize_sql :: "string list" where
  "initialize_sql =
     [''PRAGMA journal_mode=WAL;'',
      create_table_sql,
      ''CREATE INDEX IF NOT EXISTS idx_records_name ON records(name);'',
      ''CREATE INDEX IF NOT EXISTS idx_records_parent_ref ON records(parent_ref);'',
      ''CREATE INDEX IF NOT EXISTS idx_records_record_id_guess ON records(record_id_guess);'']"

fun exec_all :: "'c sqlite \<Rightarrow> string list \<Rightarrow> 'c connection \<Rightarrow> (bytes + unit) \<times> 'c connection" where
  "exec_all sq [] d = (Inr (), d)"
| "exec_all sq (sql # rest) d =
     (case exec_sql sq sql d of (Inl e, d1) \<Rightarrow> (Inl e, d1) | (Inr u, d1) \<Rightarrow> exec_all sq rest d1)"

definition initialize_index :: "'c sqlite \<Rightarrow> 'c connection \<Rightarrow> (bytes + unit) \<times> 'c connection" where
  "initialize_index sq = exec_all sq initialize_sql"

definition begin_sql :: string where "begin_sql = ''BEGIN IMMEDIATE;''"
definition commit_sql :: string where "commit_sql = ''COMMIT;''"

definition begin_index :: "'c sqlite \<Rightarrow> 'c connection \<Rightarrow> (bytes + unit) \<times> 'c connection" where
  "begin_index sq = exec_sql sq begin_sql"

definition commit_index :: "'c sqlite \<Rightarrow> 'c connection \<Rightarrow> (bytes + unit) \<times> 'c connection" where
  "commit_index sq = exec_sql sq commit_sql"

section \<open>Inserting\<close>

definition insert_sql :: string where
  "insert_sql = ''INSERT INTO records(record_id_guess, offset, parent_ref, name, namespace, flags, allocated_size, real_size, is_directory) VALUES (?, ?, ?, ?, ?, ?, ?, ?, ?);''"

definition bindings :: "mft_record \<Rightarrow> mft_file_name \<Rightarrow> sql_value list" where
  "bindings record name =
     [IntegerValue (mr_record_id_guess record),
      IntegerValue (mr_offset record),
      IntegerValue (fn_parent_ref name),
      TextValue (c_string (fn_name name)),
      IntegerValue (ucast (fn_namespace name)),
      IntegerValue (ucast (fn_flags name)),
      IntegerValue (fn_allocated_size name),
      IntegerValue (fn_real_size name),
      IntegerValue (if fn_is_directory name then 1 else 0)]"

definition insert_record :: "'c sqlite \<Rightarrow> mft_record \<Rightarrow> mft_file_name \<Rightarrow> 'c connection \<Rightarrow> (bytes + unit) \<times> 'c connection" where
  "insert_record sq record name d =
     (case (if insert_prepared d then None else check_sqlite sq (sq_prepare sq insert_sql (conn d)) (conn d) ''prepare insert'') of
        Some e \<Rightarrow> (Inl e, d)
      | None \<Rightarrow>
          (case sq_insert sq insert_sql (bindings record name) (conn d) of
             (rc, c) \<Rightarrow>
               (case check_sqlite sq rc c ''insert record'' of
                  Some e \<Rightarrow> (Inl e, d\<lparr>conn := c, insert_prepared := True\<rparr>)
                | None \<Rightarrow> (Inr (), d\<lparr>conn := c, insert_prepared := True\<rparr>))))"

section \<open>Queries\<close>

definition find_sql :: string where
  "find_sql = ''SELECT id, record_id_guess, offset, parent_ref, name, namespace, flags, allocated_size, real_size, is_directory FROM records WHERE name = ? ORDER BY id;''"

definition get_sql :: string where
  "get_sql = ''SELECT id, record_id_guess, offset, parent_ref, name, namespace, flags, allocated_size, real_size, is_directory FROM records WHERE id = ?;''"

definition get_by_record_sql :: string where
  "get_by_record_sql = ''SELECT id, record_id_guess, offset, parent_ref, name, namespace, flags, allocated_size, real_size, is_directory FROM records WHERE record_id_guess = ? ORDER BY namespace = 2, LENGTH(name) DESC, id LIMIT 1;''"

definition children_sql :: string where
  "children_sql = ''SELECT id, record_id_guess, offset, parent_ref, name, namespace, flags, allocated_size, real_size, is_directory FROM records WHERE parent_ref = ? ORDER BY is_directory DESC, name COLLATE NOCASE, id;''"

text \<open>The pattern of the queries: the loop takes rows until a step returns another code.\<close>

definition select_rows :: "'c sqlite \<Rightarrow> string \<Rightarrow> string \<Rightarrow> sql_value \<Rightarrow> 'c connection \<Rightarrow> bytes + stored_record list" where
  "select_rows sq sql action arg d =
     (case check_sqlite sq (sq_prepare sq sql (conn d)) (conn d) action of
        Some e \<Rightarrow> Inl e
      | None \<Rightarrow> (case sq_select sq sql [arg] (conn d) of (rows, rc) \<Rightarrow> Inr (map (row_to_record sq) rows)))"

definition select_row :: "'c sqlite \<Rightarrow> string \<Rightarrow> string \<Rightarrow> sql_value \<Rightarrow> 'c connection \<Rightarrow> bytes + stored_record option" where
  "select_row sq sql action arg d =
     (case check_sqlite sq (sq_prepare sq sql (conn d)) (conn d) action of
        Some e \<Rightarrow> Inl e
      | None \<Rightarrow>
          (case sq_select sq sql [arg] (conn d) of
             ([], rc) \<Rightarrow> Inr None
           | (row # rows, rc) \<Rightarrow> Inr (Some (row_to_record sq row))))"

definition find_by_name :: "'c sqlite \<Rightarrow> bytes \<Rightarrow> 'c connection \<Rightarrow> bytes + stored_record list" where
  "find_by_name sq name = select_rows sq find_sql ''prepare find'' (TextValue (c_string name))"

definition get_by_id :: "'c sqlite \<Rightarrow> i64 \<Rightarrow> 'c connection \<Rightarrow> bytes + stored_record option" where
  "get_by_id sq i = select_row sq get_sql ''prepare get'' (IntegerValue i)"

definition get_by_record_id :: "'c sqlite \<Rightarrow> u64 \<Rightarrow> 'c connection \<Rightarrow> bytes + stored_record option" where
  "get_by_record_id sq r = select_row sq get_by_record_sql ''prepare get by record id'' (IntegerValue r)"

definition children_of :: "'c sqlite \<Rightarrow> u64 \<Rightarrow> 'c connection \<Rightarrow> bytes + stored_record list" where
  "children_of sq p = select_rows sq children_sql ''prepare children'' (IntegerValue p)"

text \<open>The index as the recovery uses it.\<close>

definition opened_index :: "'c sqlite \<Rightarrow> path \<Rightarrow> database index_opening" where
  "opened_index sq p =
     (case open_connection sq p of
        (created, Inl e) \<Rightarrow> (created, Inl e)
      | (created, Inr d) \<Rightarrow>
          (created, Inr \<lparr>db_children_of = (\<lambda>parent. children_of sq parent d), db_by_record_id = (\<lambda>r. get_by_record_id sq r d)\<rparr>))"

section \<open>What SQLite documents\<close>

definition integer_of :: "sql_value \<Rightarrow> int" where
  "integer_of v = (case v of IntegerValue i \<Rightarrow> sint i | _ \<Rightarrow> 0)"

definition text_of :: "sql_value \<Rightarrow> bytes" where
  "text_of v = (case v of TextValue t \<Rightarrow> t | _ \<Rightarrow> [])"

text \<open>\<open>LENGTH\<close> counts the characters of UTF-8 text: the bytes that continue none.\<close>

definition text_length :: "bytes \<Rightarrow> nat" where
  "text_length t = length (filter (\<lambda>b. b AND 0xC0 \<noteq> 0x80) t)"

text \<open>\<open>NOCASE\<close> compares bytes after folding the ASCII capitals.\<close>

definition children_key :: "sql_row \<Rightarrow> int \<times> bytes \<times> int" where
  "children_key r = (- integer_of (column r 9), map ascii_lower (text_of (column r 4)), integer_of (column r 0))"

definition best_name_key :: "sql_row \<Rightarrow> bool \<times> int \<times> int" where
  "best_name_key r = (integer_of (column r 5) = 2, - int (text_length (text_of (column r 4))), integer_of (column r 0))"

text \<open>The full answer of each select statement on the rows of the table.\<close>

definition select_answer :: "sql_row list \<Rightarrow> string \<Rightarrow> sql_value \<Rightarrow> sql_row list" where
  "select_answer rows sql arg =
     (if sql = find_sql then sort_key (\<lambda>r. integer_of (column r 0)) (filter (\<lambda>r. column r 4 = arg) rows)
      else if sql = get_sql then take 1 (filter (\<lambda>r. column r 0 = arg) rows)
      else if sql = get_by_record_sql then take 1 (sort_key best_name_key (filter (\<lambda>r. column r 1 = arg) rows))
      else if sql = children_sql then sort_key children_key (filter (\<lambda>r. column r 3 = arg) rows)
      else [])"

lemma select_distinct:
  "find_sql \<noteq> get_sql" "find_sql \<noteq> get_by_record_sql" "find_sql \<noteq> children_sql"
  "get_sql \<noteq> get_by_record_sql" "get_sql \<noteq> children_sql" "get_by_record_sql \<noteq> children_sql"
  by (simp_all add: find_sql_def get_sql_def get_by_record_sql_def children_sql_def)

text \<open>
  The state of a connection: the table as the connection sees it and as the file holds it if the
  connection is lost (\<open>None\<close> before it is created), and whether a transaction is active.
\<close>

record table_state =
  tb_view :: "sql_row list option"
  tb_stored :: "sql_row list option"
  tb_active :: bool

definition rolled_back :: "table_state \<Rightarrow> table_state" where
  "rolled_back t = t\<lparr>tb_view := tb_stored t, tb_active := False\<rparr>"

text \<open>What a statement that succeeds does.\<close>

definition changed_view :: "sql_row list \<Rightarrow> table_state \<Rightarrow> table_state" where
  "changed_view rows t = t\<lparr>tb_view := Some rows, tb_stored := (if tb_active t then tb_stored t else Some rows)\<rparr>"

definition executed :: "string \<Rightarrow> table_state \<Rightarrow> table_state" where
  "executed sql t =
     (if sql = begin_sql then t\<lparr>tb_active := True\<rparr>
      else if sql = commit_sql then t\<lparr>tb_stored := tb_view t, tb_active := False\<rparr>
      else if sql = create_table_sql \<and> tb_view t = None then changed_view [] t
      else t)"

text \<open>
  \<open>state\<close> is the ghost that reads a connection. A statement that fails changes nothing or rolls the
  transaction back; a select may end early, then its last code is not \<open>SQLITE_DONE\<close>; an insert
  that ends with \<open>SQLITE_DONE\<close> adds a row whose id is above all others. No other process writes.
\<close>

definition sqlite_documented :: "'c sqlite \<Rightarrow> ('c \<Rightarrow> table_state) \<Rightarrow> bool" where
  "sqlite_documented sq state \<longleftrightarrow>
     (\<forall>p c. sq_open sq p = Inr c \<longrightarrow> tb_stored (state c) = tb_view (state c) \<and> \<not> tb_active (state c))
     \<and> (\<forall>c rows sql arg. tb_view (state c) = Some rows \<and> sql \<in> {find_sql, get_sql, get_by_record_sql, children_sql} \<longrightarrow>
          (\<exists>n rc. sq_select sq sql [arg] c = (take n (select_answer rows sql arg), rc)
             \<and> (rc = SQLITE_DONE \<longrightarrow> length (select_answer rows sql arg) \<le> n)))
     \<and> (\<forall>c rows args rc c'. tb_view (state c) = Some rows \<and> length args = 9
            \<and> sq_insert sq insert_sql args c = (rc, c') \<longrightarrow>
          (if rc = SQLITE_DONE
           then \<exists>i. state c' = changed_view (rows @ [IntegerValue i # args]) (state c)
             \<and> (\<forall>r \<in> set rows. integer_of (column r 0) < sint i)
           else rc \<noteq> SQLITE_OK \<and> rc \<noteq> SQLITE_ROW \<and> state c' \<in> {state c, rolled_back (state c)}))
     \<and> (\<forall>c sql rc e c'. sql \<in> set (begin_sql # commit_sql # initialize_sql) \<and> sq_exec sq sql c = ((rc, e), c') \<longrightarrow>
          (if rc = SQLITE_OK then state c' = executed sql (state c) else state c' \<in> {state c, rolled_back (state c)}))"

section \<open>A reference\<close>

text \<open>
  A table in memory whose selects end with an error after \<open>n\<close> rows, and which takes no more than
  \<open>m\<close> rows, shows that the documented behaviour can be had.
\<close>

definition next_row_id :: "sql_row list \<Rightarrow> int" where
  "next_row_id rows = fold (\<lambda>r. max (integer_of (column r 0))) rows 0 + 1"

definition reference_sqlite :: "nat \<Rightarrow> nat \<Rightarrow> table_state sqlite" where
  "reference_sqlite n m =
     \<lparr>sq_open = (\<lambda>p. Inr \<lparr>tb_view = None, tb_stored = None, tb_active = False\<rparr>),
      sq_creates = (\<lambda>p. [p, p @ ascii ''-wal'', p @ ascii ''-shm'']),
      sq_errmsg = (\<lambda>c. ascii ''disk I/O error''),
      sq_exec = (\<lambda>sql c. ((SQLITE_OK, None), executed sql c)),
      sq_prepare = (\<lambda>sql c. if tb_view c = None then 1 else SQLITE_OK),
      sq_insert = (\<lambda>sql args c.
        case tb_view c of
          None \<Rightarrow> (1, c)
        | Some rows \<Rightarrow>
            if length rows < m \<and> sint (word_of_int (next_row_id rows) :: i64) = next_row_id rows
            then (SQLITE_DONE, changed_view (rows @ [IntegerValue (word_of_int (next_row_id rows)) # args]) c)
            else (13, c)),
      sq_select = (\<lambda>sql args c.
        let answer = select_answer (case tb_view c of None \<Rightarrow> [] | Some rows \<Rightarrow> rows) sql (hd args)
        in (take n answer, if length answer \<le> n then SQLITE_DONE else 10)),
      sq_text_int = (\<lambda>t. 0),
      sq_int_text = (\<lambda>i. [])\<rparr>"

lemma fold_max_bound: "(\<forall>r \<in> set rows. f r \<le> fold (\<lambda>r. max (f r)) rows a) \<and> (a :: int) \<le> fold (\<lambda>r. max (f r)) rows a"
proof (induction rows arbitrary: a)
  case (Cons r rows)
  from Cons [of "max (f r) a"] show ?case by auto
qed simp

lemma next_row_id_above: "r \<in> set rows \<Longrightarrow> integer_of (column r 0) < next_row_id rows"
  using fold_max_bound [of rows "\<lambda>r. integer_of (column r 0)" 0] by (force simp: next_row_id_def)

lemma reference_documented: "sqlite_documented (reference_sqlite n m) (\<lambda>c. c)"
proof -
  have e: "sq_exec (reference_sqlite n m) = (\<lambda>sql c. ((SQLITE_OK, None), executed sql c))"
    by (simp add: reference_sqlite_def)
  have s: "\<exists>k rc. sq_select (reference_sqlite n m) sql [arg] c = (take k (select_answer rows sql arg), rc)
      \<and> (rc = SQLITE_DONE \<longrightarrow> length (select_answer rows sql arg) \<le> k)" if "tb_view c = Some rows" for c rows sql arg
    using that by (intro exI [of _ n]) (simp add: reference_sqlite_def Let_def SQLITE_DONE_def)
  have i: "if rc = SQLITE_DONE
      then \<exists>i. c' = changed_view (rows @ [IntegerValue i # args]) c \<and> (\<forall>r \<in> set rows. integer_of (column r 0) < sint i)
      else rc \<noteq> SQLITE_OK \<and> rc \<noteq> SQLITE_ROW \<and> c' \<in> {c, rolled_back c}"
    if "tb_view c = Some rows" "sq_insert (reference_sqlite n m) insert_sql args c = (rc, c')" for c rows args rc c'
    using that next_row_id_above
    by (auto simp: reference_sqlite_def SQLITE_DONE_def SQLITE_OK_def SQLITE_ROW_def split: if_splits)
  show ?thesis unfolding sqlite_documented_def
  proof (intro conjI allI impI, goal_cases)
    case (1 p c)
    then show ?case by (auto simp: reference_sqlite_def)
  next
    case (2 p c)
    then show ?case by (auto simp: reference_sqlite_def)
  next
    case (3 c rows sql arg)
    then show ?case using s by blast
  next
    case (4 c rows args rc c')
    then show ?case using i by blast
  next
    case (5 c sql rc e' c')
    then show ?case by (auto simp: e)
  qed
qed

section \<open>What the operations do\<close>

lemma column_simps [simp]:
  "column (v # row) 0 = v" "column (v # row) (Suc i) = column row i"
  by (simp_all add: column_def)

lemma documented_exec:
  assumes "sqlite_documented sq state" "exec_sql sq sql d = (r, d')" "sql \<in> set (begin_sql # commit_sql # initialize_sql)"
  shows "insert_prepared d' = insert_prepared d
    \<and> (if r = Inr () then state (conn d') = executed sql (state (conn d))
       else state (conn d') \<in> {state (conn d), rolled_back (state (conn d))})"
proof -
  obtain rc e c where c: "sq_exec sq sql (conn d) = ((rc, e), c)" by (metis surj_pair)
  have "if rc = SQLITE_OK then state c = executed sql (state (conn d))
      else state c \<in> {state (conn d), rolled_back (state (conn d))}"
    using assms(1,3) c unfolding sqlite_documented_def by blast
  then show ?thesis using assms(2) c by (auto simp: exec_sql_def split: if_splits)
qed

lemma documented_insert:
  assumes "sqlite_documented sq state" "tb_view (state (conn d)) = Some rows" "insert_record sq record name d = (r, d')"
  shows "(r = Inr () \<and> (\<exists>i. state (conn d') = changed_view (rows @ [IntegerValue i # bindings record name]) (state (conn d))))
    \<or> (\<exists>e. r = Inl e \<and> state (conn d') \<in> {state (conn d), rolled_back (state (conn d))})"
proof (cases "(if insert_prepared d then None else check_sqlite sq (sq_prepare sq insert_sql (conn d)) (conn d) ''prepare insert'')")
  case (Some e)
  then show ?thesis using assms(3) by (auto simp: insert_record_def)
next
  case None
  obtain rc c where c: "sq_insert sq insert_sql (bindings record name) (conn d) = (rc, c)" by fastforce
  have l: "length (bindings record name) = 9" by (simp add: bindings_def)
  have k: "if rc = SQLITE_DONE
     then \<exists>i. state c = changed_view (rows @ [IntegerValue i # bindings record name]) (state (conn d))
       \<and> (\<forall>r \<in> set rows. integer_of (column r 0) < sint i)
     else rc \<noteq> SQLITE_OK \<and> rc \<noteq> SQLITE_ROW \<and> state c \<in> {state (conn d), rolled_back (state (conn d))}"
    using assms(1,2) l c unfolding sqlite_documented_def by blast
  show ?thesis using k assms(3) None c
    by (auto simp: insert_record_def check_sqlite_def split: if_splits option.splits)
qed

lemma documented_select:
  assumes "sqlite_documented sq state" "tb_view (state (conn d)) = Some rows" "select_rows sq sql action arg d = Inr rs"
    "sql \<in> {find_sql, get_sql, get_by_record_sql, children_sql}"
  shows "\<exists>n. rs = take n (map (row_to_record sq) (select_answer rows sql arg))
    \<and> (snd (sq_select sq sql [arg] (conn d)) = SQLITE_DONE \<longrightarrow> length (select_answer rows sql arg) \<le> n)"
proof -
  obtain n rc where "sq_select sq sql [arg] (conn d) = (take n (select_answer rows sql arg), rc)"
      "rc = SQLITE_DONE \<longrightarrow> length (select_answer rows sql arg) \<le> n"
    using assms(1,2,4) unfolding sqlite_documented_def by blast
  then show ?thesis using assms(3) by (auto simp: select_rows_def take_map split: option.splits)
qed

text \<open>A name as the index stores it.\<close>

definition stored_as :: "i64 \<Rightarrow> mft_record \<Rightarrow> mft_file_name \<Rightarrow> stored_record" where
  "stored_as i record name =
     \<lparr>sr_id = i, sr_record_id_guess = mr_record_id_guess record, sr_offset = mr_offset record,
      sr_parent_ref = fn_parent_ref name, sr_name = c_string (fn_name name),
      sr_name_namespace = ucast (fn_namespace name), sr_flags = fn_flags name,
      sr_allocated_size = fn_allocated_size name, sr_real_size = fn_real_size name,
      sr_is_directory = fn_is_directory name\<rparr>"

lemma index_row: "row_to_record sq (IntegerValue i # bindings record name) = stored_as i record name"
proof -
  have n: "(ucast (ucast (b :: u8) :: i64) :: i32) = ucast b" for b
    by (rule bit_word_eqI) (auto simp: bit_simps)
  have f: "(ucast (ucast (w :: u32) :: i64) :: u32) = w" for w
    by (rule bit_word_eqI) (auto simp: bit_simps)
  have c: "c_string (c_string t) = c_string t" for t
    by (simp add: c_string_def takeWhile_takeWhile)
  show ?thesis
    by (simp add: stored_as_def row_to_record_def bindings_def column_u64_def column_int64_def column_int_def column_text_def
        numeral_eq_Suc n f c)
qed

end
