(* ===== verification/TuiText.thy ===== *)
theory TuiText
  imports RecordIndex
begin

text \<open>
  The parts of \<open>src/Tui.cpp\<close> that compute: reading the output of \<open>lsblk\<close>, the list
  of devices, the log window, and the printed views of the index.
\<close>

section \<open>JSON fields\<close>

definition QUOTE :: byte where "QUOTE = 0x22"
definition BACKSLASH :: byte where "BACKSLASH = 0x5C"
definition BLANK :: byte where "BLANK = 0x20"

text \<open>\<open>std::string::find\<close>.\<close>

fun find_bytes :: "bytes \<Rightarrow> bytes \<Rightarrow> nat option" where
  "find_bytes needle [] = (if needle = [] then Some 0 else None)"
| "find_bytes needle (c # cs) =
     (if take (length needle) (c # cs) = needle then Some 0 else map_option Suc (find_bytes needle cs))"

definition field_marker :: "bytes \<Rightarrow> bytes" where
  "field_marker key = [QUOTE] @ key @ [QUOTE, 0x3A]"

text \<open>The text after the marker of the field and the blanks that follow it.\<close>

definition field_value :: "bytes \<Rightarrow> bytes \<Rightarrow> bytes option" where
  "field_value object key =
     (case find_bytes (field_marker key) object of
        None \<Rightarrow> None
      | Some pos \<Rightarrow> Some (dropWhile (\<lambda>c. c = BLANK) (drop (pos + length (field_marker key)) object)))"

fun json_string_loop :: "bytes \<Rightarrow> bool \<Rightarrow> bytes \<Rightarrow> bytes option" where
  "json_string_loop [] escaped result = None"
| "json_string_loop (ch # rest) escaped result =
     (if escaped then json_string_loop rest False (result @ [ch])
      else if ch = BACKSLASH then json_string_loop rest True result
      else if ch = QUOTE then Some result
      else json_string_loop rest False (result @ [ch]))"

definition json_string_field :: "bytes \<Rightarrow> bytes \<Rightarrow> bytes option" where
  "json_string_field object key =
     (case field_value object key of
        None \<Rightarrow> None
      | Some t \<Rightarrow>
          if take 4 t = ascii ''null'' then Some []
          else if t = [] \<or> hd t \<noteq> QUOTE then None
          else json_string_loop (tl t) False [])"

definition json_number_field :: "bytes \<Rightarrow> bytes \<Rightarrow> bytes option" where
  "json_number_field object key =
     (case field_value object key of
        None \<Rightarrow> None
      | Some t \<Rightarrow> (let result = takeWhile is_digit t in if result = [] then None else Some result))"

text \<open>\<open>json_objects\<close>: the loop at index \<open>i\<close>, with the positions of the open braces, the last one first.\<close>

fun json_objects_loop :: "bytes \<Rightarrow> nat \<Rightarrow> bytes \<Rightarrow> bool \<Rightarrow> bool \<Rightarrow> nat list \<Rightarrow> bytes list \<Rightarrow> bytes list" where
  "json_objects_loop json i [] in_string escaped starts objects = objects"
| "json_objects_loop json i (ch # rest) in_string escaped starts objects =
     (if in_string then
        (if escaped then json_objects_loop json (Suc i) rest True False starts objects
         else if ch = BACKSLASH then json_objects_loop json (Suc i) rest True True starts objects
         else if ch = QUOTE then json_objects_loop json (Suc i) rest False False starts objects
         else json_objects_loop json (Suc i) rest True False starts objects)
      else if ch = QUOTE then json_objects_loop json (Suc i) rest True escaped starts objects
      else if ch = 0x7B then json_objects_loop json (Suc i) rest False escaped (i # starts) objects
      else if ch = 0x7D then
        (case starts of
           [] \<Rightarrow> json_objects_loop json (Suc i) rest False escaped [] objects
         | start # starts' \<Rightarrow>
             json_objects_loop json (Suc i) rest False escaped starts' (objects @ [sub_bytes json start (i - start + 1)]))
      else json_objects_loop json (Suc i) rest False escaped starts objects)"

definition json_objects :: "bytes \<Rightarrow> bytes list" where
  "json_objects json = json_objects_loop json 0 json False False [] []"

section \<open>The output of a command\<close>

text \<open>What \<open>fgets\<close> reads into a buffer of \<open>n + 1\<close> bytes.\<close>

fun line_chunk :: "nat \<Rightarrow> bytes \<Rightarrow> bytes" where
  "line_chunk 0 t = []"
| "line_chunk (Suc n) [] = []"
| "line_chunk (Suc n) (c # cs) = (if c = 0x0A then [c] else c # line_chunk n cs)"

lemma line_chunk_prefix: "line_chunk n t = take (length (line_chunk n t)) t"
  by (induction n t rule: line_chunk.induct) auto

lemma line_chunk_nonempty: "t \<noteq> [] \<Longrightarrow> line_chunk (Suc n) t \<noteq> []"
  by (cases t) auto

text \<open>The loop appends each line as a C string; \<open>None\<close> is a pipe that could not be opened.\<close>

function read_pipe :: "bytes \<Rightarrow> bytes \<Rightarrow> bytes" where
  "read_pipe t out =
     (if t = [] then out
      else (let chunk = line_chunk 4095 t in read_pipe (drop (length chunk) t) (out @ c_string chunk)))"
  by pat_completeness auto
termination
proof (relation "measure (\<lambda>(t, out). length t)", goal_cases)
  case (2 t out chunk)
  then have "line_chunk (Suc 4094) t \<noteq> []" by (intro line_chunk_nonempty)
  then show ?case using 2 by simp
qed simp

declare read_pipe.simps [simp del]

definition run_command :: "bytes option \<Rightarrow> bytes" where
  "run_command pipe = (case pipe of None \<Rightarrow> [] | Some t \<Rightarrow> read_pipe t [])"

section \<open>Devices\<close>

record block_device =
  bd_path :: bytes
  bd_type :: bytes
  bd_size :: bytes
  bd_fstype :: bytes
  bd_label :: bytes
  bd_model :: bytes
  bd_mountpoint :: bytes

text \<open>\<open>rfind(prefix, 0) == 0\<close>.\<close>

definition starts_with :: "bytes \<Rightarrow> bytes \<Rightarrow> bool" where
  "starts_with prefix t \<longleftrightarrow> take (length prefix) t = prefix"

definition allowed_block_path :: "bytes \<Rightarrow> bool" where
  "allowed_block_path p \<longleftrightarrow> starts_with (ascii ''/dev/nvme'') p \<or> starts_with (ascii ''/dev/sd'') p"

definition value_or_empty :: "bytes option \<Rightarrow> bytes" where
  "value_or_empty v = (case v of Some t \<Rightarrow> t | None \<Rightarrow> [])"

text \<open>The body of the loop over the objects; \<open>human_size\<close> computes with floating-point numbers.\<close>

definition object_device :: "(bytes \<Rightarrow> bytes) \<Rightarrow> bytes \<Rightarrow> block_device option" where
  "object_device human_size object =
     (let path = json_string_field object (ascii ''path'');
          type = value_or_empty (json_string_field object (ascii ''type''))
      in case path of
           None \<Rightarrow> None
         | Some p \<Rightarrow>
             if p = [] \<or> \<not> allowed_block_path p then None
             else Some \<lparr>bd_path = p, bd_type = type,
                bd_size = human_size (value_or_empty (json_number_field object (ascii ''size''))),
                bd_fstype = value_or_empty (json_string_field object (ascii ''fstype'')),
                bd_label = value_or_empty (json_string_field object (ascii ''label'')),
                bd_model = value_or_empty (json_string_field object (ascii ''model'')),
                bd_mountpoint = value_or_empty (json_string_field object (ascii ''mountpoint''))\<rparr>)"

definition lsblk_devices :: "(bytes \<Rightarrow> bytes) \<Rightarrow> bytes \<Rightarrow> block_device list" where
  "lsblk_devices human_size json = List.map_filter (object_device human_size) (json_objects json)"

text \<open>\<open>std::unique\<close> on the paths: of a run of equal ones the first stays.\<close>

fun unique_paths :: "block_device list \<Rightarrow> block_device list" where
  "unique_paths (d # e # ds) = (if bd_path d = bd_path e then unique_paths (d # ds) else d # unique_paths (e # ds))"
| "unique_paths ds = ds"

definition plain_device :: "bytes \<Rightarrow> bytes \<Rightarrow> block_device" where
  "plain_device p type = \<lparr>bd_path = p, bd_type = type, bd_size = [], bd_fstype = [], bd_label = [], bd_model = [], bd_mountpoint = []\<rparr>"

text \<open>The entries of \<open>/sys/block\<close> with the names in each, for the fallback.\<close>

definition sys_block_devices :: "(bytes \<times> bytes list) list \<Rightarrow> block_device list" where
  "sys_block_devices listing =
     concat (map (\<lambda>(name, children).
       if \<not> allowed_block_path (ascii ''/dev/'' @ name) then []
       else plain_device (ascii ''/dev/'' @ name) (ascii ''disk'')
         # map (\<lambda>child. plain_device (ascii ''/dev/'' @ child) (ascii ''part''))
             (filter (\<lambda>child. starts_with name child \<and> allowed_block_path (ascii ''/dev/'' @ child)) children)) listing)"

text \<open>
  \<open>detect_devices\<close> on the output of \<open>lsblk\<close>; \<open>arrange\<close> is what \<open>std::sort\<close> makes of the list, and the
  listing of \<open>/sys/block\<close> is \<open>None\<close> where it does not exist.
\<close>

definition detect_devices ::
  "(bytes \<Rightarrow> bytes) \<Rightarrow> (block_device list \<Rightarrow> block_device list) \<Rightarrow> bytes option \<Rightarrow> (bytes \<times> bytes list) list option \<Rightarrow> block_device list" where
  "detect_devices human_size arrange pipe sys_block =
     (let devices = unique_paths (arrange (lsblk_devices human_size (run_command pipe)))
      in if devices \<noteq> [] then devices
         else (case sys_block of None \<Rightarrow> [] | Some listing \<Rightarrow> sys_block_devices listing))"

section \<open>Lines\<close>

definition signed_decimal :: "int \<Rightarrow> bytes" where
  "signed_decimal i = (if i < 0 then 0x2D # decimal (nat (- i)) else decimal (nat i))"

definition record_line :: "stored_record \<Rightarrow> bytes" where
  "record_line record =
     (if sr_is_directory record then ascii ''[D]'' else ascii ''[F]'')
     @ ascii '' record='' @ decimal (unat (sr_record_id_guess record))
     @ ascii '' parent='' @ decimal (unat (sr_parent_ref record))
     @ ascii '' name='' @ [QUOTE] @ sr_name record @ [QUOTE]
     @ ascii '' db_id='' @ signed_decimal (sint (sr_id record))"

definition append_log :: "'a list \<Rightarrow> 'a \<Rightarrow> 'a list" where
  "append_log logs message =
     (let logs' = logs @ [message] in if length logs' > 200 then drop (length logs' - 200) logs' else logs')"

text \<open>The lines of \<open>log_elements\<close>.\<close>

definition log_lines :: "bytes list \<Rightarrow> nat \<Rightarrow> bytes list" where
  "log_lines logs max_lines =
     (let lines = drop (if length logs > max_lines then length logs - max_lines else 0) logs
      in if lines = [] then [[]] else lines)"

section \<open>Views of the index\<close>

definition newline :: bytes where "newline = [0x0A]"

definition indent :: "nat \<Rightarrow> bytes" where "indent depth = replicate (depth * 2) BLANK"

definition preview_line :: "nat \<Rightarrow> stored_record \<Rightarrow> bytes" where
  "preview_line depth child =
     indent depth @ (if sr_is_directory child then ascii ''[D] '' else ascii ''[F] '')
     @ sr_name child @ ascii '' record='' @ decimal (unat (sr_record_id_guess child)) @ newline"

text \<open>\<open>tree_preview\<close> with the set of visited directories; an exception of the index is \<open>Inl\<close>.\<close>

function tree_preview :: "record_index \<Rightarrow> u64 \<Rightarrow> nat \<Rightarrow> u64 set \<Rightarrow> bytes + bytes \<times> u64 set"
  and preview_children :: "record_index \<Rightarrow> stored_record list \<Rightarrow> nat \<Rightarrow> u64 set \<Rightarrow> bytes + bytes \<times> u64 set" where
  "tree_preview children_at parent depth visited =
     (if depth > 6 \<or> parent \<in> visited then Inr ([], visited)
      else (case children_at parent of
              Inl e \<Rightarrow> Inl e
            | Inr children \<Rightarrow> preview_children children_at children depth (insert parent visited)))"
| "preview_children children_at [] depth visited = Inr ([], visited)"
| "preview_children children_at (child # rest) depth visited =
     (case (if sr_is_directory child then tree_preview children_at (sr_record_id_guess child) (depth + 1) visited
            else Inr ([], visited)) of
        Inl e \<Rightarrow> Inl e
      | Inr (inner, visited1) \<Rightarrow>
          (case preview_children children_at rest depth visited1 of
             Inl e \<Rightarrow> Inl e
           | Inr (out, visited2) \<Rightarrow> Inr (preview_line depth child @ inner @ out, visited2)))"
  by pat_completeness auto
termination tree_preview
  by (relation "measures [\<lambda>x. case x of Inl (c, p, d, v) \<Rightarrow> 2 * (8 - d) | Inr (c, cs, d, v) \<Rightarrow> 2 * (7 - d) + 1,
                          \<lambda>x. case x of Inl _ \<Rightarrow> 0 | Inr (c, cs, d, v) \<Rightarrow> length cs]") auto

declare tree_preview.simps [simp del]

text \<open>\<open>parent_chain\<close>: \<open>parent_of\<close> is the query by record number.\<close>

function parent_chain_loop :: "(u64 \<Rightarrow> bytes + stored_record option) \<Rightarrow> stored_record \<Rightarrow> u64 set \<Rightarrow> bytes \<Rightarrow> bytes + bytes" where
  "parent_chain_loop parent_of record visited out =
     (let out1 = out @ record_line record @ newline in
      if sr_parent_ref record = 0 \<or> sr_record_id_guess record \<in> visited then Inr out1
      else (case parent_of (sr_parent_ref record) of
              Inl e \<Rightarrow> Inl e
            | Inr None \<Rightarrow>
                Inr (out1 @ ascii ''parent record '' @ decimal (unat (sr_parent_ref record)) @ ascii '' not found in index'' @ newline)
            | Inr (Some parent) \<Rightarrow>
                parent_chain_loop parent_of parent (insert (sr_record_id_guess record) visited) out1))"
  by pat_completeness auto
termination
proof (relation "measure (\<lambda>(parent_of, record, visited, out). card (UNIV - visited :: u64 set))", goal_cases)
  case 1 then show ?case by simp
next
  case (2 parent_of rc visited out out1 parent x)
  have "UNIV - insert (sr_record_id_guess rc) visited \<subset> UNIV - visited" using 2(2) by auto
  then show ?case by (simp add: psubset_card_mono)
qed

declare parent_chain_loop.simps [simp del]

definition parent_chain :: "(u64 \<Rightarrow> bytes + stored_record option) \<Rightarrow> stored_record \<Rightarrow> bytes + bytes" where
  "parent_chain parent_of record = parent_chain_loop parent_of record {} []"

end
