(* ===== verification/Scanner.thy ===== *)
theory Scanner
  imports RecordIndex ParserProperties
begin

text \<open>
  \<open>src/Scanner.cpp\<close>: reading the source block by block, parsing every block that starts with the
  signature, and inserting every name into the record index in one transaction.
\<close>

section \<open>Reading\<close>

text \<open>
  \<open>read\<close> on the source at the file offset \<open>pos\<close>, which only this code moves. Before the end of the
  source it transfers at least one byte.
\<close>

definition sys_read :: "nat \<Rightarrow> nat \<Rightarrow> (errno, bytes) io" where
  "sys_read n pos = syscall (\<lambda>cap s.
     (Inr (sub_bytes (source_image s) pos (case cap of None \<Rightarrow> n | Some m \<Rightarrow> min (max 1 m) n)), s))"

definition sys_lseek_end :: "(errno, nat) io" where
  "sys_lseek_end = syscall (\<lambda>cap s. (Inr (length (source_image s)), s))"

definition sys_lseek_start :: "(errno, unit) io" where
  "sys_lseek_start = syscall (\<lambda>cap s. (Inr (), s))"

text \<open>\<open>source_size\<close>, with the file offset it leaves.\<close>

definition seek_size :: "os \<Rightarrow> u64 option \<times> nat \<times> os" where
  "seek_size s =
     (case sys_lseek_end s of
        (Inl e, s1) \<Rightarrow> (None, 0, s1)
      | (Inr n, s1) \<Rightarrow>
          (case sys_lseek_start s1 of
             (Inl e, s2) \<Rightarrow> (Some (of_nat n), n, s2)
           | (Inr u, s2) \<Rightarrow> (Some (of_nat n), 0, s2)))"

definition source_size :: "host \<Rightarrow> int \<Rightarrow> os \<Rightarrow> u64 option \<times> nat \<times> os" where
  "source_size h fd s =
     (case h_fstat h fd of
        Inr info \<Rightarrow> if st_kind info = RegularKind then (Some (of_nat (length (source_image s))), 0, s) else seek_size s
      | Inl e \<Rightarrow> seek_size s)"

lemma sys_read_script: "sys_read n pos s = (r, s') \<Longrightarrow> script s' = tl (script s)"
  unfolding sys_read_def by (erule syscall_script) auto

lemma sys_read_EINTR: "sys_read n pos s = (Inl EINTR, s') \<Longrightarrow> script s \<noteq> []"
  by (auto simp: sys_read_def syscall_def pop_def split: list.splits verdict.splits)

text \<open>The inner loop: it fills the buffer, unless the source ends or a call fails.\<close>

function fill_loop :: "bytes \<Rightarrow> nat \<Rightarrow> os \<Rightarrow> errno option \<times> bytes \<times> nat \<times> os" where
  "fill_loop buf pos s =
     (if length buf < RecordSize then
        (case sys_read (RecordSize - length buf) pos s of
           (Inl e, s1) \<Rightarrow> if e = EINTR then fill_loop buf pos s1 else (Some e, buf, pos, s1)
         | (Inr d, s1) \<Rightarrow> if d = [] then (None, buf, pos, s1) else fill_loop (buf @ d) (pos + length d) s1)
      else (None, buf, pos, s))"
  by pat_completeness auto
termination
proof (relation "measure (\<lambda>(buf, pos, s). (RecordSize - length buf) + length (script s))", goal_cases)
  case 1 then show ?case by simp
next
  case (2 buf pos s p s1 e)
  then have "sys_read (RecordSize - length buf) pos s = (Inl EINTR, s1)" by (metis prod.collapse)
  from sys_read_script [OF this] sys_read_EINTR [OF this] show ?case by (cases "script s") simp_all
next
  case (3 buf pos s p s1 d)
  then have "sys_read (RecordSize - length buf) pos s = (Inr d, s1)" by (metis prod.collapse)
  from sys_read_script [OF this] 3 show ?case by (cases d) auto
qed

declare fill_loop.simps [simp del]

lemma races_image: "source_image (fold race rs s) = source_image s"
  by (induction rs arbitrary: s) (auto simp: race_def add_node_def)

lemma sys_read_image: "sys_read n pos s = (r, s') \<Longrightarrow> source_image s' = source_image s
    \<and> (\<forall>d. r = Inr d \<longrightarrow> (\<exists>k. d = sub_bytes (source_image s) pos k \<and> k \<le> n \<and> (0 < n \<longrightarrow> 0 < k)))"
  by (auto simp: sys_read_def syscall_def pop_def races_image split: list.splits verdict.splits)

lemma sub_bytes_shorter: "sub_bytes xs off (length (sub_bytes xs off n)) = sub_bytes xs off n"
  by (simp add: sub_bytes_def min_def)

text \<open>What the inner loop leaves in the buffer.\<close>

lemma fill_loop_image:
  assumes "fill_loop buf pos s = (e, buf', pos', s')" "length buf \<le> RecordSize"
  shows "source_image s' = source_image s
    \<and> (\<exists>k. buf' = buf @ sub_bytes (source_image s) pos k \<and> k \<le> RecordSize - length buf)
    \<and> pos' = pos + (length buf' - length buf)
    \<and> (e = None \<and> length buf' < RecordSize \<longrightarrow> length (source_image s) \<le> pos')"
  using assms
proof (induction buf pos s rule: fill_loop.induct)
  case (1 buf pos s)
  show ?case
  proof (cases "length buf < RecordSize")
    case False
    then show ?thesis using "1.prems" by (auto simp: fill_loop.simps [of buf pos s] sub_bytes_def intro!: exI [of _ 0])
  next
    case True
    obtain r1 s1 where rd: "sys_read (RecordSize - length buf) pos s = (r1, s1)"
      by (cases "sys_read (RecordSize - length buf) pos s")
    note im = sys_read_image [OF rd]
    show ?thesis
    proof (cases r1)
      case (Inl e1)
      show ?thesis
      proof (cases "e1 = EINTR")
        case True
        have "fill_loop buf pos s1 = (e, buf', pos', s')"
          using "1.prems"(1) rd Inl True \<open>length buf < RecordSize\<close> by (simp add: fill_loop.simps [of buf pos s])
        from "1.IH"(1) [OF \<open>length buf < RecordSize\<close> rd [symmetric] Inl True this "1.prems"(2)] im
        show ?thesis by auto
      next
        case False
        then show ?thesis using "1.prems"(1) rd Inl im \<open>length buf < RecordSize\<close>
          by (auto simp: fill_loop.simps [of buf pos s] sub_bytes_def intro!: exI [of _ 0])
      qed
    next
      case (Inr d)
      then obtain k where k: "d = sub_bytes (source_image s) pos k" "k \<le> RecordSize - length buf" "0 < k"
        using im True by auto
      show ?thesis
      proof (cases "d = []")
        case empty: True
        then have "length (source_image s) \<le> pos" using k(1,3) by (simp add: sub_bytes_def)
        then show ?thesis using "1.prems"(1) rd Inr im empty True
          by (auto simp: fill_loop.simps [of buf pos s] sub_bytes_def intro!: exI [of _ 0])
      next
        case False
        have rec: "fill_loop (buf @ d) (pos + length d) s1 = (e, buf', pos', s')"
          using "1.prems"(1) rd Inr False True by (simp add: fill_loop.simps [of buf pos s])
        have l: "length (buf @ d) \<le> RecordSize" using k(1,2) True by auto
        have im1: "source_image s1 = source_image s" using im by blast
        from "1.IH"(2) [OF True rd [symmetric] Inr False rec l] obtain k2 where
          h: "source_image s' = source_image s" "buf' = (buf @ d) @ sub_bytes (source_image s) (pos + length d) k2"
            "k2 \<le> RecordSize - length (buf @ d)" "pos' = pos + length d + (length buf' - length (buf @ d))"
            "e = None \<and> length buf' < RecordSize \<longrightarrow> length (source_image s) \<le> pos'"
          unfolding im1 by blast
        have e: "d @ sub_bytes (source_image s) (pos + length d) k2 = sub_bytes (source_image s) pos (length d + k2)"
          using sub_bytes_shorter [of "source_image s" pos k] unfolding k(1) [symmetric] sub_bytes_extend [symmetric] by simp
        have "buf' = buf @ sub_bytes (source_image s) pos (length d + k2)" unfolding h(2) e [symmetric] by (rule append_assoc)
        moreover have "length d + k2 \<le> RecordSize - length buf" using h(3) l by simp
        moreover have "pos' = pos + (length buf' - length buf)" unfolding h(4) h(2) by simp
        ultimately show ?thesis using h(1,5) by blast
      qed
    qed
  qed
qed

lemma fill_loop_full:
  assumes "fill_loop [] pos s = (None, buf, pos', s')" "RecordSize \<le> length buf"
  shows "source_image s' = source_image s" "buf = sub_bytes (source_image s) pos RecordSize"
    "pos' = pos + RecordSize" "pos + RecordSize \<le> length (source_image s)"
proof -
  obtain k where k: "buf = sub_bytes (source_image s) pos k" "k \<le> RecordSize" "pos' = pos + length buf"
      "source_image s' = source_image s"
    using fill_loop_image [OF assms(1)] by auto
  then have "k = RecordSize" "RecordSize \<le> length (source_image s) - pos" using assms(2) by auto
  then show "source_image s' = source_image s" "buf = sub_bytes (source_image s) pos RecordSize"
    "pos' = pos + RecordSize" "pos + RecordSize \<le> length (source_image s)"
    using k by (auto simp: RecordSize_def)
qed

lemma fill_loop_decreases:
  assumes "(None, buf, pos', s') = fill_loop [] pos s" "\<not> length buf < RecordSize"
  shows "length (source_image s') - pos' < length (source_image s) - pos"
  using fill_loop_full [OF assms(1) [symmetric]] assms(2) by (simp add: RecordSize_def)

section \<open>Scanning\<close>

record scan_options =
  so_source :: path
  so_database :: path
  so_target :: "bytes option"

record scan_stats =
  bytes_scanned :: u64
  candidate_file_signatures :: u64
  valid_records :: u64
  inserted_names :: u64
  target_matches :: u64

datatype scan_error = ScanPath path_failure | ScanIndex bytes | ReadFailed u64 errno | ScanFault

text \<open>The lines printed or given to the progress callback, with the numbers they show.\<close>

datatype scan_line =
    Scanning "u64 option"
  | MatchLine mft_record mft_file_name
  | ProgressLine u64 "u64 option" u64 u64
  | ScanDone scan_stats

definition no_stats :: scan_stats where
  "no_stats = \<lparr>bytes_scanned = 0, candidate_file_signatures = 0, valid_records = 0, inserted_names = 0, target_matches = 0\<rparr>"

fun scan_names ::
  "'c sqlite \<Rightarrow> bytes option \<Rightarrow> mft_record \<Rightarrow> mft_file_name list \<Rightarrow> scan_stats \<Rightarrow> scan_line list \<Rightarrow> 'c connection
     \<Rightarrow> (scan_error + scan_stats) \<times> scan_line list \<times> 'c connection" where
  "scan_names sq target record [] stats log d = (Inr stats, log, d)"
| "scan_names sq target record (name # rest) stats log d =
     (case insert_record sq record name d of
        (Inl e, d1) \<Rightarrow> (Inl (ScanIndex e), log, d1)
      | (Inr u, d1) \<Rightarrow>
          (let stats1 = stats\<lparr>inserted_names := inserted_names stats + 1\<rparr> in
           if target = Some (fn_name name)
           then scan_names sq target record rest (stats1\<lparr>target_matches := target_matches stats1 + 1\<rparr>)
                  (log @ [MatchLine record name]) d1
           else scan_names sq target record rest stats1 log d1))"

definition scan_block ::
  "'c sqlite \<Rightarrow> bytes option \<Rightarrow> u64 \<Rightarrow> bytes \<Rightarrow> scan_stats \<Rightarrow> scan_line list \<Rightarrow> 'c connection
     \<Rightarrow> (scan_error + scan_stats) \<times> scan_line list \<times> 'c connection" where
  "scan_block sq target offset buffer stats log d =
     (if take 4 buffer = FILE_magic then
        (let stats1 = stats\<lparr>candidate_file_signatures := candidate_file_signatures stats + 1\<rparr> in
         case parse buffer offset of
           OutOfBounds \<Rightarrow> (Inl ScanFault, log, d)
         | Got None \<Rightarrow> (Inr stats1, log, d)
         | Got (Some record) \<Rightarrow>
             scan_names sq target record (mr_names record) (stats1\<lparr>valid_records := valid_records stats1 + 1\<rparr>) log d)
      else (Inr stats, log, d))"

definition progress_interval :: u64 where
  "progress_interval = 256 * 1024 * 1024"

function scan_loop ::
  "'c sqlite \<Rightarrow> u64 option \<Rightarrow> bytes option \<Rightarrow> u64 \<Rightarrow> u64 \<Rightarrow> scan_stats \<Rightarrow> scan_line list \<Rightarrow> 'c connection \<Rightarrow> nat \<Rightarrow> os
     \<Rightarrow> (scan_error + scan_stats) \<times> scan_line list \<times> 'c connection \<times> os" where
  "scan_loop sq total_size target offset next stats log d pos s =
     (case fill_loop [] pos s of
        (Some e, buf, pos1, s1) \<Rightarrow>
          (case commit_index sq d of
             (Inl m, d1) \<Rightarrow> (Inl (ScanIndex m), log, d1, s1)
           | (Inr u, d1) \<Rightarrow> (Inl (ReadFailed (offset + of_nat (length buf)) e), log, d1, s1))
      | (None, buf, pos1, s1) \<Rightarrow>
          if length buf < RecordSize then (Inr stats, log, d, s1)
          else
            (case scan_block sq target offset buf stats log d of
               (Inl e, log1, d1) \<Rightarrow> (Inl e, log1, d1, s1)
             | (Inr stats1, log1, d1) \<Rightarrow>
                 (let offset1 = offset + of_nat RecordSize; stats2 = stats1\<lparr>bytes_scanned := offset1\<rparr> in
                  if next \<le> offset1
                  then scan_loop sq total_size target offset1 (offset1 + progress_interval) stats2
                         (log1 @ [ProgressLine offset1 total_size (valid_records stats2) (inserted_names stats2)]) d1 pos1 s1
                  else scan_loop sq total_size target offset1 next stats2 log1 d1 pos1 s1)))"
  by pat_completeness auto
termination scan_loop
  by (relation "measure (\<lambda>(sq, total_size, target, offset, next, stats, log, d, pos, s). length (source_image s) - pos)")
    (auto dest: fill_loop_decreases)

declare scan_loop.simps [simp del]

definition scan_run ::
  "host \<Rightarrow> 'c sqlite \<Rightarrow> scan_options \<Rightarrow> os \<Rightarrow> (scan_error + scan_stats) \<times> scan_line list \<times> 'c connection option \<times> os" where
  "scan_run h sq options s =
     (case fst (open_source h (so_source options)) of
        Inl e \<Rightarrow> (Inl (ScanPath e), [], None, s)
      | Inr source \<Rightarrow>
          (case validate_database_path h source (so_database options) of
             Inl e \<Rightarrow> (Inl (ScanPath e), [], None, s)
           | Inr database_path \<Rightarrow>
               (case run_opening (open_connection sq database_path) s of
                  (Inl e, s0) \<Rightarrow> (Inl (ScanIndex e), [], None, s0)
                | (Inr d, s0) \<Rightarrow>
                    (case initialize_index sq d of
                       (Inl e, d1) \<Rightarrow> (Inl (ScanIndex e), [], Some d1, s0)
                     | (Inr u, d1) \<Rightarrow>
                         (case source_size h (src_fd source) s0 of
                            (total_size, pos, s1) \<Rightarrow>
                              (case begin_index sq d1 of
                                 (Inl e, d2) \<Rightarrow> (Inl (ScanIndex e), [Scanning total_size], Some d2, s1)
                               | (Inr u, d2) \<Rightarrow>
                                   (case scan_loop sq total_size (so_target options) 0 0 no_stats [Scanning total_size] d2 pos s1 of
                                      (Inl e, log, d3, s2) \<Rightarrow> (Inl e, log, Some d3, s2)
                                    | (Inr stats, log, d3, s2) \<Rightarrow>
                                        (case commit_index sq d3 of
                                           (Inl e, d4) \<Rightarrow> (Inl (ScanIndex e), log, Some d4, s2)
                                         | (Inr u, d4) \<Rightarrow> (Inr stats, log @ [ScanDone stats], Some d4, s2)))))))))"


section \<open>What a scan indexes\<close>

text \<open>The names of one block of the image, each with its record, and of a range of blocks.\<close>

definition block_names :: "bytes \<Rightarrow> nat \<Rightarrow> (mft_record \<times> mft_file_name) list" where
  "block_names img k =
     (case parse (block img k) (of_nat (k * RecordSize)) of
        Got (Some record) \<Rightarrow> map (Pair record) (mr_names record)
      | _ \<Rightarrow> [])"

definition names_between :: "bytes \<Rightarrow> nat \<Rightarrow> nat \<Rightarrow> (mft_record \<times> mft_file_name) list" where
  "names_between img i j = concat (map (block_names img) [i..<j])"

definition signed_block :: "bytes \<Rightarrow> nat \<Rightarrow> bool" where
  "signed_block img k \<longleftrightarrow> take 4 (block img k) = FILE_magic"

definition valid_block :: "bytes \<Rightarrow> nat \<Rightarrow> bool" where
  "valid_block img k \<longleftrightarrow> (\<exists>record. parse (block img k) (of_nat (k * RecordSize)) = Got (Some record))"

text \<open>What the counters gain over a range of blocks.\<close>

definition counted :: "bytes \<Rightarrow> bytes option \<Rightarrow> nat \<Rightarrow> nat \<Rightarrow> scan_stats \<Rightarrow> scan_stats" where
  "counted img target i j stats =
     \<lparr>bytes_scanned = (if i < j then of_nat (j * RecordSize) else bytes_scanned stats),
      candidate_file_signatures = candidate_file_signatures stats + of_nat (length (filter (signed_block img) [i..<j])),
      valid_records = valid_records stats + of_nat (length (filter (valid_block img) [i..<j])),
      inserted_names = inserted_names stats + of_nat (length (names_between img i j)),
      target_matches = target_matches stats
        + of_nat (length (filter (\<lambda>(r, n). target = Some (fn_name n)) (names_between img i j)))\<rparr>"

definition rows_for :: "sql_row list \<Rightarrow> (mft_record \<times> mft_file_name) list \<Rightarrow> bool" where
  "rows_for rows ps \<longleftrightarrow> list_all2 (\<lambda>row (record, name). \<exists>i. row = IntegerValue i # bindings record name) rows ps"

lemma rows_for_append: "rows_for xs ps \<Longrightarrow> rows_for ys qs \<Longrightarrow> rows_for (xs @ ys) (ps @ qs)"
  by (simp add: rows_for_def list_all2_appendI)

text \<open>One transaction, in which \<open>ps\<close> have been inserted so far.\<close>

definition inserted :: "table_state \<Rightarrow> sql_row list \<Rightarrow> (mft_record \<times> mft_file_name) list \<Rightarrow> table_state \<Rightarrow> bool" where
  "inserted t rows ps t' \<longleftrightarrow> tb_active t' \<and> tb_stored t' = tb_stored t
     \<and> (\<exists>new. tb_view t' = Some (rows @ new) \<and> rows_for new ps)"

lemma inserted_start: "tb_active t \<Longrightarrow> tb_view t = Some rows \<Longrightarrow> inserted t rows [] t"
  by (simp add: inserted_def rows_for_def)

lemma insert_inserted:
  assumes "sqlite_documented sq state" "inserted t rows ps (state (conn d))" "insert_record sq record name d = (r, d')"
  shows "(r = Inr () \<and> inserted t rows (ps @ [(record, name)]) (state (conn d')))
    \<or> (\<exists>e. r = Inl e \<and> tb_stored (state (conn d')) = tb_stored t)"
proof -
  obtain new where n: "tb_view (state (conn d)) = Some (rows @ new)" "rows_for new ps"
      "tb_active (state (conn d))" "tb_stored (state (conn d)) = tb_stored t"
    using assms(2) by (auto simp: inserted_def)
  have "rows_for (new @ [IntegerValue i # bindings record name]) (ps @ [(record, name)])" for i
    by (rule rows_for_append [OF n(2)]) (simp add: rows_for_def)
  then show ?thesis
    using documented_insert [OF assms(1) n(1) assms(3)] n(3,4)
    by (auto simp: inserted_def changed_view_def rolled_back_def)
qed

lemma scan_names_inserted:
  assumes "sqlite_documented sq state" "inserted t rows ps (state (conn d))"
    "scan_names sq target record names stats log d = (r, log', d')"
  shows "(r = Inr (stats\<lparr>inserted_names := inserted_names stats + of_nat (length names),
              target_matches := target_matches stats + of_nat (length (filter (\<lambda>n. target = Some (fn_name n)) names))\<rparr>)
        \<and> inserted t rows (ps @ map (Pair record) names) (state (conn d')))
    \<or> (\<exists>e. r = Inl (ScanIndex e) \<and> tb_stored (state (conn d')) = tb_stored t)"
  using assms(2,3)
proof (induction names arbitrary: stats log d ps)
  case Nil
  then show ?case by simp
next
  case (Cons name names)
  obtain r1 d1 where i: "insert_record sq record name d = (r1, d1)" by (cases "insert_record sq record name d")
  from insert_inserted [OF assms(1) Cons.prems(1) i] show ?case
  proof (elim disjE conjE exE)
    assume r: "r1 = Inr ()" and ins: "inserted t rows (ps @ [(record, name)]) (state (conn d1))"
    show ?thesis using Cons.IH [OF ins] Cons.prems(2) i r by (fastforce simp: Let_def ac_simps split: if_splits)
  next
    fix e assume "r1 = Inl e" "tb_stored (state (conn d1)) = tb_stored t"
    then show ?thesis using Cons.prems(2) i by auto
  qed
qed

lemma parse_safe: "parse bs off \<noteq> OutOfBounds"
  by (auto simp: parse_eq Let_def split: access.splits option.splits)

lemma scan_block_inserted:
  assumes "sqlite_documented sq state" "inserted t rows ps (state (conn d))"
    "scan_block sq target (of_nat (k * RecordSize)) (block img k) stats log d = (r, log', d')"
  shows "(r = Inr ((counted img target k (Suc k) stats)\<lparr>bytes_scanned := bytes_scanned stats\<rparr>)
        \<and> inserted t rows (ps @ block_names img k) (state (conn d')))
    \<or> (\<exists>e. r = Inl (ScanIndex e) \<and> tb_stored (state (conn d')) = tb_stored t)"
proof -
  have nb: "names_between img k (Suc k) = block_names img k" by (simp add: names_between_def)
  obtain p where p: "parse (block img k) (of_nat (k * RecordSize)) = Got p"
    using parse_safe by (metis access.exhaust)
  consider (unsigned) "\<not> signed_block img k" | (bad) "signed_block img k" "p = None"
    | (good) mr where "signed_block img k" "p = Some mr" by (cases p) auto
  then show ?thesis
  proof cases
    case unsigned
    then have "p = None" using p by (auto simp: signed_block_def parse_def)
    then show ?thesis using unsigned assms(2,3) p
      by (auto simp: counted_def scan_block_def signed_block_def valid_block_def nb block_names_def)
  next
    case bad
    then show ?thesis using assms(2,3) p
      by (auto simp: counted_def scan_block_def signed_block_def valid_block_def nb block_names_def Let_def)
  next
    case good
    then have "scan_names sq target mr (mr_names mr)
        (stats\<lparr>candidate_file_signatures := candidate_file_signatures stats + 1, valid_records := valid_records stats + 1\<rparr>) log d
        = (r, log', d')"
      using assms(3) p by (simp add: scan_block_def signed_block_def Let_def)
    from scan_names_inserted [OF assms(1,2) this] good p show ?thesis
      by (auto simp: counted_def nb block_names_def valid_block_def filter_map comp_def)
  qed
qed


lemma fill_loop_error: "fill_loop buf pos s = (Some e, buf', pos', s') \<Longrightarrow> length buf' < RecordSize"
  by (induction buf pos s rule: fill_loop.induct)
    (auto simp: fill_loop.simps split: prod.splits sum.splits if_splits)

text \<open>The transaction is over and the file holds what the connection sees.\<close>

definition committed_names :: "sql_row list \<Rightarrow> (mft_record \<times> mft_file_name) list \<Rightarrow> table_state \<Rightarrow> bool" where
  "committed_names rows ps t \<longleftrightarrow> \<not> tb_active t \<and> tb_stored t = tb_view t
     \<and> (\<exists>new. tb_view t = Some (rows @ new) \<and> rows_for new ps)"

lemma commit_inserted:
  assumes "sqlite_documented sq state" "inserted t rows ps (state (conn d))" "commit_index sq d = (r, d')"
  shows "(r = Inr () \<and> committed_names rows ps (state (conn d')))
    \<or> (\<exists>e. r = Inl e \<and> tb_stored (state (conn d')) = tb_stored t)"
proof -
  have k: "if r = Inr () then state (conn d') = executed commit_sql (state (conn d))
       else state (conn d') \<in> {state (conn d), rolled_back (state (conn d))}"
    using documented_exec [OF assms(1) assms(3) [unfolded commit_index_def]] by auto
  have "commit_sql \<noteq> begin_sql" by (simp add: commit_sql_def begin_sql_def)
  then show ?thesis using k assms(2)
    by (cases r) (auto simp: executed_def inserted_def committed_names_def rolled_back_def)
qed

lemma RecordSize_pos: "0 < RecordSize"
  by (simp add: RecordSize_def)

lemma names_between_Suc: "i \<le> j \<Longrightarrow> names_between img i (Suc j) = names_between img i j @ block_names img j"
  by (simp add: names_between_def)

lemma counted_Suc:
  "(counted img target k (Suc k) (counted img target 0 k no_stats))\<lparr>bytes_scanned := of_nat (Suc k * RecordSize)\<rparr>
     = counted img target 0 (Suc k) no_stats"
  by (simp add: counted_def names_between_Suc names_between_def no_stats_def)

lemma scan_loop_next:
  assumes "fill_loop [] pos s = (None, buf, pos1, s1)" "\<not> length buf < RecordSize"
    "scan_block sq target offset buf stats log d = (Inr stats1, log1, d1)"
  shows "\<exists>nxt1 log2. scan_loop sq total_size target offset nxt stats log d pos s =
    scan_loop sq total_size target (offset + of_nat RecordSize) nxt1 (stats1\<lparr>bytes_scanned := offset + of_nat RecordSize\<rparr>)
      log2 d1 pos1 s1"
  using assms by (cases "nxt \<le> offset + of_nat RecordSize") (auto simp: scan_loop.simps [where s = s] Let_def)

text \<open>One round of the loop at the start of block \<open>i\<close>.\<close>

lemma scan_round:
  assumes "sqlite_documented sq state" "inserted t rows (names_between img 0 i) (state (conn d))"
    "source_image s = img" "i \<le> length img div RecordSize" "length img < 2 ^ 64"
    "scan_loop sq total_size target (of_nat (i * RecordSize)) nxt (counted img target 0 i no_stats) log d (i * RecordSize) s
       = (r, log', d', s')"
  obtains (ended) "i = length img div RecordSize" "r = Inr (counted img target 0 i no_stats)" "d' = d"
    | (read_failed) at e where "r = Inl (ReadFailed at e)" "unat at \<le> length img" "unat at div RecordSize = i"
        "committed_names rows (names_between img 0 i) (state (conn d'))"
    | (index_failed) e where "r = Inl (ScanIndex e)" "tb_stored (state (conn d')) = tb_stored t"
    | (continued) nxt1 log1 d1 s1 where "i < length img div RecordSize"
        "inserted t rows (names_between img 0 (Suc i)) (state (conn d1))" "source_image s1 = img"
        "scan_loop sq total_size target (of_nat (Suc i * RecordSize)) nxt1 (counted img target 0 (Suc i) no_stats) log1 d1
           (Suc i * RecordSize) s1 = (r, log', d', s')"
proof -
  let ?pos = "i * RecordSize" and ?stats = "counted img target 0 i no_stats"
  obtain e buf pos1 s1 where f: "fill_loop [] ?pos s = (e, buf, pos1, s1)" by (metis surj_pair)
  have im: "source_image s1 = img" "\<exists>k. buf = sub_bytes img ?pos k \<and> k \<le> RecordSize" "pos1 = ?pos + length buf"
    "e = None \<and> length buf < RecordSize \<longrightarrow> length img \<le> pos1"
    using fill_loop_image [OF f] assms(3) by auto
  have start: "?pos \<le> length img" using assms(4) by (simp add: RecordSize_def)
  have inside: "?pos + length buf \<le> length img" using im(2) start by auto
  show thesis
  proof (cases e)
    case (Some e1)
    have short: "length buf < RecordSize" using fill_loop_error f Some by blast
    have "unat (of_nat ?pos + of_nat (length buf) :: u64) = ?pos + length buf"
      using inside assms(5) unfolding of_nat_add [symmetric] unat_of_nat by simp
    moreover have "(?pos + length buf) div RecordSize = i" using short by simp
    ultimately have at: "unat (of_nat ?pos + of_nat (length buf) :: u64) \<le> length img"
        "unat (of_nat ?pos + of_nat (length buf) :: u64) div RecordSize = i"
      using inside by simp_all
    obtain rc d1 where c: "commit_index sq d = (rc, d1)" by (cases "commit_index sq d")
    have r: "(rc = Inr () \<and> r = Inl (ReadFailed (of_nat ?pos + of_nat (length buf)) e1) \<or> (\<exists>m. rc = Inl m \<and> r = Inl (ScanIndex m)))
        \<and> d' = d1"
      using assms(6) f Some c by (cases rc) (auto simp: scan_loop.simps [where s = s])
    from commit_inserted [OF assms(1,2) c] r show thesis
      using read_failed [OF _ at] index_failed by auto
  next
    case None
    show thesis
    proof (cases "length buf < RecordSize")
      case True
      then have "length img < Suc i * RecordSize" using im(3,4) None by simp
      then have "i = length img div RecordSize"
        using assms(4) by (metis div_less_iff_less_mult RecordSize_pos le_antisym less_Suc_eq_le)
      moreover have "r = Inr ?stats" "d' = d" using assms(6) f None True by (simp_all add: scan_loop.simps [where s = s])
      ultimately show thesis by (rule ended)
    next
      case False
      note full = fill_loop_full [OF f [unfolded None], simplified assms(3)]
      have b: "buf = block img i" "pos1 = Suc i * RecordSize" "i < length img div RecordSize"
        using full False block_range [of i img] by (auto simp: block_def)
      obtain rb log1 d1 where sb: "scan_block sq target (of_nat ?pos) buf ?stats log d = (rb, log1, d1)" by (metis surj_pair)
      from scan_block_inserted [OF assms(1,2) sb [unfolded b(1)]] show thesis
      proof (elim disjE conjE exE)
        assume rb: "rb = Inr ((counted img target i (Suc i) ?stats)\<lparr>bytes_scanned := bytes_scanned ?stats\<rparr>)"
          and ins: "inserted t rows (names_between img 0 i @ block_names img i) (state (conn d1))"
        let ?next = "of_nat (Suc i * RecordSize) :: u64"
        have off: "of_nat ?pos + of_nat RecordSize = ?next" by simp
        have st: "(counted img target i (Suc i) ?stats)\<lparr>bytes_scanned := bytes_scanned ?stats, bytes_scanned := ?next\<rparr>
            = counted img target 0 (Suc i) no_stats"
          using counted_Suc [where img = img and target = target and k = i] by simp
        obtain nxt1 log2 where "scan_loop sq total_size target (of_nat ?pos) nxt ?stats log d ?pos s =
            scan_loop sq total_size target (of_nat ?pos + of_nat RecordSize) nxt1
              ((counted img target i (Suc i) ?stats)\<lparr>bytes_scanned := bytes_scanned ?stats,
                 bytes_scanned := of_nat ?pos + of_nat RecordSize\<rparr>) log2 d1 pos1 s1"
          using scan_loop_next [OF f [unfolded None] False sb [unfolded rb]] by blast
        note step = trans [OF this [symmetric] assms(6), unfolded off st b(2)]
        have "inserted t rows (names_between img 0 (Suc i)) (state (conn d1))" using ins by (simp add: names_between_Suc)
        then show thesis by (rule continued [OF b(3) _ im(1) step])
      next
        fix e1 assume "rb = Inl (ScanIndex e1)" "tb_stored (state (conn d1)) = tb_stored t"
        moreover from this have "r = Inl (ScanIndex e1)" "d' = d1"
          using assms(6) f None False sb by (auto simp: scan_loop.simps [where s = s])
        ultimately show thesis using index_failed by simp
      qed
    qed
  qed
qed

lemma scan_loop_outcome:
  assumes "sqlite_documented sq state" "inserted t rows (names_between img 0 i) (state (conn d))"
    "source_image s = img" "i \<le> length img div RecordSize" "length img < 2 ^ 64"
    "scan_loop sq total_size target (of_nat (i * RecordSize)) nxt (counted img target 0 i no_stats) log d (i * RecordSize) s
       = (r, log', d', s')"
  shows "(r = Inr (counted img target 0 (length img div RecordSize) no_stats)
         \<and> inserted t rows (names_between img 0 (length img div RecordSize)) (state (conn d')))
    \<or> (\<exists>at e. r = Inl (ReadFailed at e) \<and> unat at \<le> length img
         \<and> committed_names rows (names_between img 0 (unat at div RecordSize)) (state (conn d')))
    \<or> (\<exists>e. r = Inl (ScanIndex e) \<and> tb_stored (state (conn d')) = tb_stored t)"
  using assms(2-4,6)
proof (induction "length img div RecordSize - i" arbitrary: i nxt log d s)
  case (0 i nxt log d s)
  from assms(1) 0(2-4) assms(5) 0(5) show ?case
  proof (cases rule: scan_round)
    case ended
    then show ?thesis using 0(2) by simp
  qed (use 0(1) in auto)
next
  case (Suc n i nxt log d s)
  from assms(1) Suc.prems(1-3) assms(5) Suc.prems(4) show ?case
  proof (cases rule: scan_round)
    case (continued nxt1 log1 d1 s1)
    show ?thesis by (rule Suc.hyps(1) [OF _ continued(2,3) _ continued(4)]) (use Suc.hyps(2) continued(1) in auto)
  qed (use Suc.hyps(2) in auto)
qed


section \<open>The whole scan\<close>

definition rows_in :: "table_state \<Rightarrow> sql_row list" where
  "rows_in t = (case tb_view t of None \<Rightarrow> [] | Some rows \<Rightarrow> rows)"

lemma exec_all_documented:
  assumes "sqlite_documented sq state" "set sqls \<subseteq> set initialize_sql" "exec_all sq sqls d = (r, d')"
    "tb_stored (state (conn d)) = tb_view (state (conn d))" "\<not> tb_active (state (conn d))"
  shows "rows_in (state (conn d')) = rows_in (state (conn d))
    \<and> tb_stored (state (conn d')) = tb_view (state (conn d')) \<and> \<not> tb_active (state (conn d'))
    \<and> (tb_view (state (conn d)) \<noteq> None \<or> (r = Inr () \<and> create_table_sql \<in> set sqls) \<longrightarrow> tb_view (state (conn d')) \<noteq> None)"
  using assms(2-)
proof (induction sqls arbitrary: d)
  case Nil
  then show ?case by simp
next
  case (Cons sql sqls)
  obtain r1 d1 where x: "exec_sql sq sql d = (r1, d1)" by (cases "exec_sql sq sql d")
  have n: "sql \<noteq> begin_sql" "sql \<noteq> commit_sql"
    using Cons.prems(1) by (auto simp: initialize_sql_def begin_sql_def commit_sql_def create_table_sql_def)
  have k: "if r1 = Inr () then state (conn d1) = executed sql (state (conn d))
       else state (conn d1) \<in> {state (conn d), rolled_back (state (conn d))}"
    using documented_exec [OF assms(1) x] Cons.prems(1) by auto
  have rb: "rolled_back (state (conn d)) = state (conn d)"
    using Cons.prems(3,4) by (simp add: rolled_back_def)
  show ?case
  proof (cases r1)
    case (Inl e)
    then have "d' = d1" "r = Inl e" using Cons.prems(2) x by auto
    then show ?thesis using k rb Inl Cons.prems(3,4) by auto
  next
    case (Inr u)
    then have st: "state (conn d1) = (if sql = create_table_sql \<and> tb_view (state (conn d)) = None
        then changed_view [] (state (conn d)) else state (conn d))"
      using k n by (simp add: executed_def)
    have s1: "rows_in (state (conn d1)) = rows_in (state (conn d))" "tb_stored (state (conn d1)) = tb_view (state (conn d1))"
      "\<not> tb_active (state (conn d1))"
      "tb_view (state (conn d)) \<noteq> None \<or> sql = create_table_sql \<Longrightarrow> tb_view (state (conn d1)) \<noteq> None"
      using st Cons.prems(3,4) by (auto simp: changed_view_def rows_in_def)
    have "exec_all sq sqls d1 = (r, d')" using Cons.prems(2) x Inr by simp
    from Cons.IH [OF _ this s1(2,3)] Cons.prems(1) s1(1,4) show ?thesis by auto
  qed
qed

lemma initialize_documented:
  assumes "sqlite_documented sq state" "snd (open_connection sq p) = Inr d" "initialize_index sq d = (r, d1)"
  shows "\<exists>c. sq_open sq p = Inr c \<and> rows_in (state (conn d1)) = rows_in (state c)
    \<and> tb_stored (state (conn d1)) = tb_view (state (conn d1)) \<and> \<not> tb_active (state (conn d1))
    \<and> (r = Inr () \<longrightarrow> tb_view (state (conn d1)) = Some (rows_in (state c)))"
proof -
  obtain c where c: "sq_open sq p = Inr c" "conn d = c" using assms(2) by (auto simp: open_connection_def split: sum.splits)
  then have "tb_stored (state (conn d)) = tb_view (state (conn d))" "\<not> tb_active (state (conn d))"
    using assms(1) unfolding sqlite_documented_def by blast+
  from exec_all_documented [OF assms(1) subset_refl assms(3) [unfolded initialize_index_def] this]
  show ?thesis using c by (auto simp: rows_in_def initialize_sql_def split: option.splits)
qed

lemma begin_documented:
  assumes "sqlite_documented sq state" "begin_index sq d = (r, d1)" "tb_stored (state (conn d)) = tb_view (state (conn d))"
    "\<not> tb_active (state (conn d))" "tb_view (state (conn d)) = Some rows"
  shows "tb_stored (state (conn d1)) = Some rows \<and> (r = Inr () \<longrightarrow> inserted (state (conn d1)) rows [] (state (conn d1)))"
proof -
  have k: "if r = Inr () then state (conn d1) = executed begin_sql (state (conn d))
       else state (conn d1) \<in> {state (conn d), rolled_back (state (conn d))}"
    using documented_exec [OF assms(1) assms(2) [unfolded begin_index_def]] by auto
  then show ?thesis using assms(3-)
    by (auto simp: executed_def rolled_back_def intro!: inserted_start split: if_splits)
qed

lemma source_size_image: "source_size h fd s = (n, pos, s') \<Longrightarrow> source_image s' = source_image s"
proof -
  have e: "source_image s1 = source_image s0" if "sys_lseek_end s0 = (r, s1)" for r s0 s1
    using that by (auto simp: sys_lseek_end_def syscall_def pop_def races_image split: list.splits verdict.splits)
  have b: "source_image s1 = source_image s0" if "sys_lseek_start s0 = (r, s1)" for r s0 s1
    using that by (auto simp: sys_lseek_start_def syscall_def pop_def races_image split: list.splits verdict.splits)
  have k: "source_image s' = source_image s" if "seek_size s = (n, pos, s')"
    using that by (auto simp: seek_size_def split: prod.splits sum.splits dest!: e b)
  show "source_size h fd s = (n, pos, s') \<Longrightarrow> source_image s' = source_image s"
    using k by (auto simp: source_size_def split: sum.splits if_splits)
qed

text \<open>The size query leaves the same offset when the index has been opened before it.\<close>

lemma source_size_offset:
  assumes "script s = script t" "source_image s = source_image t"
  shows "fst (snd (source_size h fd s)) = fst (snd (source_size h fd t))"
proof -
  have e: "\<exists>v s1 t1. pop s = (v, s1) \<and> pop t = (v, t1) \<and> script s1 = script t1 \<and> source_image s1 = source_image t1"
    if "script s = script t" "source_image s = source_image t" for s t
    using that by (cases "script t") (simp_all add: pop_def races_script races_image)
  obtain v s1 t1 where 1: "pop s = (v, s1)" "pop t = (v, t1)" "script s1 = script t1" "source_image s1 = source_image t1"
    using e [OF assms] by blast
  obtain w s2 t2 where 2: "pop s1 = (w, s2)" "pop t1 = (w, t2)" using e [OF 1(3,4)] by blast
  have "fst (snd (seek_size s)) = fst (snd (seek_size t))"
    using 1 2 by (auto simp: seek_size_def sys_lseek_end_def sys_lseek_start_def syscall_def split: verdict.splits)
  then show ?thesis using assms by (simp add: source_size_def split: sum.split)
qed

lemma scan_run_outcome:
  assumes "sqlite_documented sq state" "scan_run h sq options s = (r, log, Some d, s')"
    "length (source_image s) < 2 ^ 64" "\<And>fd. fst (snd (source_size h fd s)) = 0"
  shows "\<exists>p c. sq_open sq p = Inr c
    \<and> ((\<exists>log1. r = Inr (counted (source_image s) (so_target options) 0 (length (source_image s) div RecordSize) no_stats)
          \<and> log = log1 @ [ScanDone (counted (source_image s) (so_target options) 0 (length (source_image s) div RecordSize) no_stats)]
          \<and> committed_names (rows_in (state c)) (names_between (source_image s) 0 (length (source_image s) div RecordSize)) (state (conn d)))
      \<or> (\<exists>at e. r = Inl (ReadFailed at e) \<and> unat at \<le> length (source_image s)
          \<and> committed_names (rows_in (state c)) (names_between (source_image s) 0 (unat at div RecordSize)) (state (conn d)))
      \<or> (\<exists>e. r = Inl (ScanIndex e) \<and> (case tb_stored (state (conn d)) of None \<Rightarrow> [] | Some rows \<Rightarrow> rows) = rows_in (state c)))"
proof -
  obtain src where src: "fst (open_source h (so_source options)) = Inr src"
    using assms(2) by (cases "fst (open_source h (so_source options))") (auto simp: scan_run_def)
  obtain p where p: "validate_database_path h src (so_database options) = Inr p"
    using assms(2) src by (cases "validate_database_path h src (so_database options)") (auto simp: scan_run_def)
  define s0 where "s0 = create_missing (fst (open_connection sq p)) s"
  have op: "run_opening (open_connection sq p) s = (snd (open_connection sq p), s0)" by (simp add: run_opening_def s0_def)
  have im0: "source_image s0 = source_image s" "script s0 = script s" by (simp_all add: s0_def)
  obtain d0 where d0: "snd (open_connection sq p) = Inr d0"
    using assms(2) src p op by (cases "snd (open_connection sq p)") (auto simp: scan_run_def)
  obtain r1 d1 where d1: "initialize_index sq d0 = (r1, d1)" by (cases "initialize_index sq d0")
  obtain c where c: "sq_open sq p = Inr c" "rows_in (state (conn d1)) = rows_in (state c)"
      "tb_stored (state (conn d1)) = tb_view (state (conn d1))" "\<not> tb_active (state (conn d1))"
      "r1 = Inr () \<longrightarrow> tb_view (state (conn d1)) = Some (rows_in (state c))"
    using initialize_documented [OF assms(1) d0 d1] by blast
  have "fst (snd (source_size h (src_fd src) s0)) = 0"
    using assms(4) [of "src_fd src"] source_size_offset [OF im0(2,1)] by simp
  then obtain n s1 where n: "source_size h (src_fd src) s0 = (n, 0, s1)" by (metis prod.collapse)
  have im: "source_image s1 = source_image s" using source_size_image [OF n] im0(1) by simp
  show ?thesis
  proof (cases r1)
    case (Inl e)
    then have "r = Inl (ScanIndex e)" "d = d1" using assms(2) src p op d0 d1 by (auto simp: scan_run_def)
    then show ?thesis using c(1-3) by (auto simp: rows_in_def)
  next
    case (Inr u)
    have v: "tb_view (state (conn d1)) = Some (rows_in (state c))" using c(5) Inr by simp
    obtain r2 d2 where d2: "begin_index sq d1 = (r2, d2)" by (cases "begin_index sq d1")
    note b = begin_documented [OF assms(1) d2 c(3,4) v]
    show ?thesis
    proof (cases r2)
      case (Inl e)
      then have "r = Inl (ScanIndex e)" "d = d2" using assms(2) src p op d0 d1 Inr n d2 by (auto simp: scan_run_def)
      then show ?thesis using c(1) b by auto
    next
      case r2: (Inr u2)
      obtain r3 log3 d3 s3 where l: "scan_loop sq n (so_target options) 0 0 no_stats [Scanning n] d2 0 s1 = (r3, log3, d3, s3)"
        by (metis surj_pair)
      have st: "tb_stored (state (conn d2)) = Some (rows_in (state c))" using b by blast
      have l': "scan_loop sq n (so_target options) (of_nat (0 * RecordSize)) 0
          (counted (source_image s) (so_target options) 0 0 no_stats) [Scanning n] d2 (0 * RecordSize) s1 = (r3, log3, d3, s3)"
        using l by (simp add: counted_def names_between_def no_stats_def)
      have ins: "inserted (state (conn d2)) (rows_in (state c)) (names_between (source_image s) 0 0) (state (conn d2))"
        using b r2 by (simp add: names_between_def)
      note o = scan_loop_outcome [OF assms(1) ins im le0 assms(3) l']
      have run: "(r, log, Some d, s') =
          (case r3 of Inl e \<Rightarrow> (Inl e, log3, Some d3, s3)
           | Inr stats \<Rightarrow> (case commit_index sq d3 of (Inl e, d4) \<Rightarrow> (Inl (ScanIndex e), log3, Some d4, s3)
              | (Inr u, d4) \<Rightarrow> (Inr stats, log3 @ [ScanDone stats], Some d4, s3)))"
        using assms(2) src p op d0 d1 Inr n d2 r2 l by (cases r3) (auto simp: scan_run_def)
      obtain rc d4 where cm: "commit_index sq d3 = (rc, d4)" by (cases "commit_index sq d3")
      from o show ?thesis
      proof (elim disjE conjE exE, goal_cases)
        case 1
        from commit_inserted [OF assms(1) 1(2) cm] show ?case
          using run cm 1(1) c(1) st by (auto split: sum.splits)
      next
        case (2 at e)
        then show ?case using run c(1) by auto
      next
        case (3 e)
        then show ?case using run c(1) st by auto
      qed
    qed
  qed
qed

end
