(* ===== verification/LogText.thy ===== *)
theory LogText
  imports TuiText Scanner RecoverRun
begin

text \<open>
  The lines \<open>src/Scanner.cpp\<close> and \<open>src/Recover.cpp\<close> report, as text. The share of the source a scan has
  read is a floating-point number, so its text is the parameter \<open>percent\<close>, and the text of an
  exception is the parameter \<open>what\<close>.
\<close>

definition hex_digit :: "nat \<Rightarrow> byte" where
  "hex_digit n = (if n < 10 then 0x30 + of_nat n else 0x57 + of_nat n)"

fun hexadecimal :: "nat \<Rightarrow> bytes" where
  "hexadecimal n = (if n < 16 then [hex_digit n] else hexadecimal (n div 16) @ [hex_digit (n mod 16)])"

declare hexadecimal.simps [simp del]

definition match_text :: "mft_record \<Rightarrow> mft_file_name \<Rightarrow> bytes" where
  "match_text record name =
     ascii ''match id_guess='' @ decimal (unat (mr_record_id_guess record))
     @ ascii '' db_parent='' @ decimal (unat (fn_parent_ref name))
     @ ascii '' offset='' @ decimal (unat (mr_offset record))
     @ ascii '' name='' @ [QUOTE] @ fn_name name @ [QUOTE]
     @ ascii '' ns='' @ decimal (unat (fn_namespace name))
     @ ascii '' dir='' @ (if fn_is_directory name then ascii ''1'' else ascii ''0'')
     @ ascii '' alloc='' @ decimal (unat (fn_allocated_size name))
     @ ascii '' real='' @ decimal (unat (fn_real_size name))
     @ ascii '' flags=0x'' @ hexadecimal (unat (fn_flags name))"

fun scan_text :: "(u64 \<Rightarrow> u64 \<Rightarrow> bytes) \<Rightarrow> bytes \<Rightarrow> scan_line \<Rightarrow> bytes" where
  "scan_text percent src (Scanning (Some n)) =
     ascii ''Scanning '' @ decimal (unat n) @ ascii '' bytes from '' @ src @ ascii '' in read-only mode''"
| "scan_text percent src (Scanning None) = ascii ''Scanning '' @ src @ ascii '' in read-only mode''"
| "scan_text percent src (MatchLine record name) = match_text record name"
| "scan_text percent src (ProgressLine offset total_size valid_count name_count) =
     ascii ''progress: '' @ decimal (unat offset) @ ascii '' bytes''
     @ (case total_size of
          None \<Rightarrow> []
        | Some n \<Rightarrow> if n > 0 then ascii '' ('' @ percent offset n @ ascii ''%)'' else [])
     @ ascii '', valid_records='' @ decimal (unat valid_count) @ ascii '', names='' @ decimal (unat name_count)"
| "scan_text percent src (ScanDone stats) =
     ascii ''done: scanned='' @ decimal (unat (bytes_scanned stats))
     @ ascii '' candidates='' @ decimal (unat (candidate_file_signatures stats))
     @ ascii '' valid_records='' @ decimal (unat (valid_records stats))
     @ ascii '' names='' @ decimal (unat (inserted_names stats))
     @ ascii '' target_matches='' @ decimal (unat (target_matches stats))"

fun log_text :: "(recover_error \<Rightarrow> bytes) \<Rightarrow> log_line \<Rightarrow> bytes" where
  "log_text what (DryRunRoot root destination) = ascii ''dry-run: root record '' @ decimal (unat root) @ ascii '' -> '' @ destination"
| "log_text what (DryRunItem directory p) = (if directory then ascii ''dir '' else ascii ''file'') @ ascii '' '' @ p"
| "log_text what (DryRunCount n) = ascii ''dry-run: '' @ decimal n @ ascii '' item(s)''"
| "log_text what (Locating n) = ascii ''Locating '' @ decimal n @ ascii '' file MFT record(s) by FILE header record number''"
| "log_text what (LogRecovered p) = ascii ''recovered '' @ p"
| "log_text what (LogSkipped p None) = ascii ''skipped '' @ p"
| "log_text what (LogSkipped p (Some e)) = ascii ''skipped '' @ p @ ascii '' ('' @ what e @ ascii '')''"
| "log_text what (LogDone r n) = ascii ''done: recovered='' @ decimal (unat r) @ ascii '' skipped='' @ decimal (unat n)"

end
