(* ===== verification/RunEffects.thy ===== *)
theory RunEffects
  imports RecoverRun
begin

text \<open>
  What a run changes: the relation \<open>lasting\<close> between the states before and after (what existed stays),
  kept by every step of \<open>RecoverRun\<close>; the loop over the items as the sequence of the items'
  outcomes; the two stages of \<open>Recover::run\<close> as case rules.
\<close>

section \<open>What lasts\<close>

text \<open>From \<open>s\<close> to \<open>s'\<close> every path but those of \<open>P\<close> keeps its node, and no node changes.\<close>

definition lasting :: "path set \<Rightarrow> os \<Rightarrow> os \<Rightarrow> bool" where
  "lasting P s s' \<longleftrightarrow> wf_os s' \<and> source_image s' = source_image s \<and> next_id s \<le> next_id s'
     \<and> (\<forall>p j. entries s p = Some j \<and> p \<notin> P \<longrightarrow> entries s' p = Some j)
     \<and> (\<forall>j n. nodes s j = Some n \<longrightarrow> nodes s' j = Some n)"

lemma lasting_refl: "wf_os s \<Longrightarrow> lasting P s s"
  by (simp add: lasting_def)

lemma lasting_trans: "lasting P s s' \<Longrightarrow> lasting P s' s'' \<Longrightarrow> lasting P s s''"
  unfolding lasting_def by (elim conjE, intro conjI) (assumption, simp, simp, blast, blast)

lemma lasting_mono: "lasting P s s' \<Longrightarrow> P \<subseteq> Q \<Longrightarrow> lasting Q s s'"
  unfolding lasting_def by blast

lemma lasting_wf: "lasting P s s' \<Longrightarrow> wf_os s'"
  by (simp add: lasting_def)

lemma extended_lasting: "extended s s' \<Longrightarrow> wf_os s' \<Longrightarrow> lasting P s s'"
  by (simp add: extended_def lasting_def)

lemma added_lasting: "added Q s s' \<Longrightarrow> wf_os s' \<Longrightarrow> lasting P s s'"
  by (simp add: added_def grown_def lasting_def)

lemma lasting_entry:
  assumes "lasting P s s'" "wf_os s" "entries s p = Some j" "p \<notin> P"
  shows "entries s' p = Some j \<and> nodes s' j = nodes s j"
proof -
  obtain n where n: "nodes s j = Some n" using wf_entry [OF assms(2,3)] by blast
  then have "nodes s' j = Some n" using assms(1) unfolding lasting_def by blast
  then show ?thesis using n assms(1,3,4) unfolding lasting_def by auto
qed

lemma scope_outcome_lasting:
  assumes "wf_os s" "scope_outcome path ov b C k s s'"
  shows "lasting (replaced ov (path @ partial_suffix) \<union> replaced ov path) s s'"
proof -
  have k: "next_id s \<le> k" "wf_os s'" using assms(2) by (simp_all add: scope_outcome_def)
  have fresh: "j \<noteq> k" if "nodes s j = Some n" for j n
    using that k(1) assms(1) by (auto simp: wf_os_def)
  have p: "preserved (replaced ov (path @ partial_suffix) \<union> replaced ov path) k s s'"
    using assms(2) by (cases b) (auto simp: scope_outcome_def Let_def intro: preserved_mono)
  show ?thesis unfolding lasting_def
  proof (intro conjI allI impI)
    show "wf_os s'" by (rule k(2))
    show "source_image s' = source_image s" "next_id s \<le> next_id s'" using p by (simp_all add: preserved_def)
    show "nodes s' j = Some n" if "nodes s j = Some n" for j n using p fresh [OF that] that unfolding preserved_def by blast
    show "entries s' q = Some j" if h: "entries s q = Some j \<and> q \<notin> replaced ov (path @ partial_suffix) \<union> replaced ov path" for q j
    proof -
      obtain n where "nodes s j = Some n" using wf_entry [OF assms(1) conjunct1 [OF h]] by blast
      then show ?thesis using p fresh h unfolding preserved_def by blast
    qed
  qed
qed

lemma recover_file_lasting:
  assumes "wf_os s" "recover_file record mft cs path ov s = (r, s')"
  shows "lasting (replaced ov (path @ partial_suffix) \<union> replaced ov path) s s'"
  using assms by (cases rule: recover_file_cases) (auto intro: lasting_refl [OF assms(1)] scope_outcome_lasting [OF assms(1)])

section \<open>Directories\<close>

lemma sys_mkdir_lasting:
  assumes "wf_os s" "sys_mkdir p s = (r, s')"
  shows "lasting P s s'"
  using assms(2) unfolding sys_mkdir_def
proof (rule syscall_cases [OF assms(1)], goal_cases)
  case (1 e s1)
  then show ?case by (simp add: extended_lasting)
next
  case (2 s1 cap)
  have l: "lasting P s s1" by (rule extended_lasting [OF 2(1,2)])
  show ?case
  proof (cases "entries s1 p")
    case None
    then have s': "s' = add_node p Directory s1" using 2(4) by auto
    have "grown s1 s'" unfolding s' by (rule add_node_grown [OF 2(2) None])
    then have "lasting P s1 s'" using 2(2) by (auto simp: grown_def lasting_def)
    then show ?thesis by (rule lasting_trans [OF l])
  next
    case (Some i)
    then show ?thesis using 2(4) l by auto
  qed
qed

lemma lstat_lasting: "wf_os s \<Longrightarrow> sys_lstat p s = (r, s') \<Longrightarrow> lasting P s s'"
  using sys_lstat_effect extended_lasting by blast

lemma inspect_created_lasting: "wf_os s \<Longrightarrow> inspect_created p s = (r, s') \<Longrightarrow> lasting P s s'"
  using lstat_lasting [of s p] by (auto simp: inspect_created_def split: prod.splits sum.splits)

lemma ensure_component_lasting:
  assumes "wf_os s" "ensure_component p s = (r, s')"
  shows "lasting P s s'"
proof -
  obtain r1 s1 where a: "sys_lstat p s = (r1, s1)" by (cases "sys_lstat p s")
  have 1: "lasting P s s1" "wf_os s1" using lstat_lasting [OF assms(1) a] lasting_wf by auto
  obtain r2 s2 where b: "sys_mkdir p s1 = (r2, s2)" by (cases "sys_mkdir p s1")
  have 2: "lasting P s s2" "wf_os s2" using lasting_trans [OF 1(1) sys_mkdir_lasting [OF 1(2) b]] lasting_wf by auto
  obtain r3 s3 where c: "inspect_created p s2 = (r3, s3)" by (cases "inspect_created p s2")
  have 3: "lasting P s s3" using lasting_trans [OF 2(1) inspect_created_lasting [OF 2(2) c]] .
  have "s' = s1 \<or> s' = s2 \<or> s' = s3"
    using assms(2) a b c by (auto simp: ensure_component_def split: sum.splits if_splits)
  then show ?thesis using 1 2 3 by blast
qed

lemma ensure_components_lasting:
  "wf_os s \<Longrightarrow> ensure_components hosted source cur cs s = (r, s') \<Longrightarrow> lasting P s s'"
proof (induction hosted source cur cs s rule: ensure_components.induct)
  case (1 hosted source cur s)
  then show ?case by (simp add: lasting_refl)
next
  case (2 hosted source cur c cs s)
  let ?p = "path_append cur c"
  obtain r1 s1 where a: "ensure_component ?p s = (r1, s1)" by (cases "ensure_component ?p s")
  have l: "lasting P s s1" by (rule ensure_component_lasting [OF "2.prems"(1) a])
  show ?case
  proof (cases r1)
    case (Inl e)
    then show ?thesis using "2.prems"(2) a l by (simp add: Let_def)
  next
    case (Inr u)
    show ?thesis
    proof (cases "validate_destination_path (hosted s1) source ?p")
      case (Inl e)
      then show ?thesis using "2.prems"(2) a l Inr by (simp add: Let_def)
    next
      case v: (Inr d)
      then have "ensure_components hosted source ?p cs s1 = (r, s')" using "2.prems"(2) a Inr by (simp add: Let_def)
      from "2.IH" [OF refl a [symmetric] Inr v lasting_wf [OF l] this] l show ?thesis by (blast intro: lasting_trans)
    qed
  qed
qed

lemma ensure_safe_directory_lasting:
  "wf_os s \<Longrightarrow> ensure_safe_directory hosted source d s = (r, s') \<Longrightarrow> lasting P s s'"
  unfolding ensure_safe_directory_def by (rule ensure_components_lasting)

section \<open>Items\<close>

definition item_target :: "path \<Rightarrow> recover_item \<Rightarrow> path" where
  "item_target destination item = path_append destination (ri_relative_path item)"

definition replaceable :: "bool \<Rightarrow> path \<Rightarrow> recover_item list \<Rightarrow> path set" where
  "replaceable ov destination items =
     (\<Union>item \<in> set items. replaced ov (item_target destination item @ partial_suffix) \<union> replaced ov (item_target destination item))"

lemma item_step_cases:
  assumes "wf_os s" "recover_item_step hosted source cs records destination ov item s = (out, s')"
  obtains (idle) "out \<noteq> Recovered" "\<And>P. lasting P s s'"
    | (written) s1 mft r where "\<And>P. lasting P s s1" "\<not> sr_is_directory (ri_record item)"
        "map_of records (sr_record_id_guess (ri_record item)) = Some mft"
        "recover_file (ri_record item) mft cs (item_target destination item) ov s1 = (r, s')"
        "out = Recovered \<longleftrightarrow> r = Inr True"
proof -
  let ?t = "item_target destination item"
  define d where "d = (if sr_is_directory (ri_record item) then ?t else parent_path ?t)"
  obtain r1 s1 where a: "ensure_safe_directory hosted source d s = (r1, s1)" by (cases "ensure_safe_directory hosted source d s")
  have l: "lasting P s s1" for P by (rule ensure_safe_directory_lasting [OF assms(1) a])
  note t = item_target_def [symmetric]
  show thesis
  proof (cases "sr_is_directory (ri_record item)")
    case True
    then have "out \<noteq> Recovered" "s' = s1"
      using assms(2) a by (auto simp: recover_item_step_def Let_def t d_def split: sum.splits)
    then show thesis using idle l by blast
  next
    case False
    show thesis
    proof (cases r1)
      case (Inl e)
      then have "out \<noteq> Recovered" "s' = s1" using assms(2) a False by (auto simp: recover_item_step_def Let_def t d_def)
      then show thesis using idle l by blast
    next
      case r1: (Inr u)
      show thesis
      proof (cases "validate_destination_path (hosted s1) source (parent_path ?t)")
        case (Inl e)
        then have "out \<noteq> Recovered" "s' = s1" using assms(2) a False r1 by (auto simp: recover_item_step_def Let_def t d_def)
        then show thesis using idle l by blast
      next
        case v: (Inr p)
        show thesis
        proof (cases "map_of records (sr_record_id_guess (ri_record item))")
          case None
          then have "out \<noteq> Recovered" "s' = s1"
            using assms(2) a False r1 v by (auto simp: recover_item_step_def Let_def t d_def)
          then show thesis using idle l by blast
        next
          case (Some mft)
          obtain r2 s2 where f: "recover_file (ri_record item) mft cs ?t ov s1 = (r2, s2)"
            by (cases "recover_file (ri_record item) mft cs ?t ov s1")
          have "s' = s2" "out = Recovered \<longleftrightarrow> r2 = Inr True"
            using assms(2) a False r1 v Some f
            by (auto simp: recover_item_step_def Let_def t d_def split: sum.splits bool.splits)
          then show thesis using written [OF l False Some] f by blast
        qed
      qed
    qed
  qed
qed

lemma item_step_lasting:
  assumes "wf_os s" "recover_item_step hosted source cs records destination ov item s = (out, s')"
  shows "lasting (replaceable ov destination [item]) s s'"
  using assms
proof (cases rule: item_step_cases)
  case (written s1 mft r)
  have "wf_os s1" using written(1) lasting_wf by blast
  from recover_file_lasting [OF this written(4)]
  have "lasting (replaceable ov destination [item]) s1 s'" by (simp add: replaceable_def)
  then show ?thesis using lasting_trans written(1) by blast
qed

definition file_items :: "recover_item list \<Rightarrow> recover_item list" where
  "file_items = filter (\<lambda>item. \<not> sr_is_directory (ri_record item))"

lemma item_step_lasting_file:
  assumes "wf_os s" "recover_item_step hosted source cs records destination ov item s = (out, s')"
  shows "lasting (replaceable ov destination (file_items [item])) s s'"
  using assms
proof (cases rule: item_step_cases)
  case (written s1 mft r)
  then show ?thesis using item_step_lasting [OF assms] by (simp add: file_items_def)
qed

text \<open>The loop, as the sequence of the items' outcomes.\<close>

fun item_outcomes ::
  "(os \<Rightarrow> host) \<Rightarrow> source \<Rightarrow> u64 \<Rightarrow> (u64 \<times> bytes) list \<Rightarrow> path \<Rightarrow> bool \<Rightarrow> recover_item list \<Rightarrow> os \<Rightarrow> outcome list \<times> os" where
  "item_outcomes hosted source cs records destination ov [] s = ([], s)"
| "item_outcomes hosted source cs records destination ov (item # rest) s =
     (let (out, s1) = recover_item_step hosted source cs records destination ov item s;
          (outs, s2) = item_outcomes hosted source cs records destination ov rest s1
      in (out # outs, s2))"

fun outcome_lines :: "path \<Rightarrow> outcome \<Rightarrow> log_line list" where
  "outcome_lines target DirectoryReady = []"
| "outcome_lines target Recovered = [LogRecovered target]"
| "outcome_lines target (Skipped e) = [LogSkipped target e]"

definition is_skip :: "outcome \<Rightarrow> bool" where
  "is_skip out \<longleftrightarrow> (\<exists>e. out = Skipped e)"

definition lines_of :: "path \<Rightarrow> recover_item list \<Rightarrow> outcome list \<Rightarrow> log_line list" where
  "lines_of destination items outs = concat (map2 (\<lambda>item. outcome_lines (item_target destination item)) items outs)"

lemma recover_items_outcomes:
  assumes "item_outcomes hosted source cs records destination ov items s = (outs, s')"
  shows "recover_items hosted source cs records destination ov items stats log s =
     (stats\<lparr>recovered := recovered stats + of_nat (length (filter (\<lambda>out. out = Recovered) outs)),
            skipped := skipped stats + of_nat (length (filter is_skip outs))\<rparr>,
      log @ lines_of destination items outs, s')"
  using assms
proof (induction items arbitrary: s outs stats log)
  case Nil
  then show ?case by (simp add: lines_of_def)
next
  case (Cons item items)
  obtain out s1 where a: "recover_item_step hosted source cs records destination ov item s = (out, s1)"
    by (cases "recover_item_step hosted source cs records destination ov item s")
  obtain os where b: "item_outcomes hosted source cs records destination ov items s1 = (os, s')" "outs = out # os"
    using Cons.prems a by (auto simp: Let_def split: prod.splits)
  show ?case using a b Cons.IH [OF b(1)]
    by (cases out) (simp_all add: Let_def lines_of_def is_skip_def item_target_def ac_simps)
qed

lemma item_outcomes_length: "item_outcomes hosted source cs records destination ov items s = (outs, s') \<Longrightarrow> length outs = length items"
proof (induction items arbitrary: s outs)
  case (Cons item items)
  then show ?case by (fastforce simp: Let_def split: prod.splits)
qed simp

lemma replaceable_Cons: "replaceable ov destination (file_items (item # items))
    = replaceable ov destination (file_items [item]) \<union> replaceable ov destination (file_items items)"
  by (auto simp: replaceable_def file_items_def)

lemma item_outcomes_lasting_files:
  "wf_os s \<Longrightarrow> item_outcomes hosted source cs records destination ov items s = (outs, s') \<Longrightarrow>
     lasting (replaceable ov destination (file_items items)) s s'"
proof (induction items arbitrary: s outs)
  case Nil
  then show ?case by (simp add: lasting_refl)
next
  case (Cons item items)
  obtain out s1 where a: "recover_item_step hosted source cs records destination ov item s = (out, s1)"
    by (cases "recover_item_step hosted source cs records destination ov item s")
  obtain os where b: "item_outcomes hosted source cs records destination ov items s1 = (os, s')"
    using Cons.prems(2) a by (auto simp: Let_def split: prod.splits)
  have 1: "lasting (replaceable ov destination (file_items [item])) s s1"
    by (rule item_step_lasting_file [OF Cons.prems(1) a])
  have 2: "lasting (replaceable ov destination (file_items items)) s1 s'" by (rule Cons.IH [OF lasting_wf [OF 1] b])
  show ?case unfolding replaceable_Cons [of ov destination item items]
    by (rule lasting_trans [OF lasting_mono [OF 1 Un_upper1] lasting_mono [OF 2 Un_upper2]])
qed

lemma item_outcomes_lasting:
  assumes "wf_os s" "item_outcomes hosted source cs records destination ov items s = (outs, s')"
  shows "lasting (replaceable ov destination items) s s'"
  by (rule lasting_mono [OF item_outcomes_lasting_files [OF assms]]) (auto simp: replaceable_def file_items_def)

section \<open>The geometry\<close>

definition volume_cluster :: "bytes \<Rightarrow> nat" where
  "volume_cluster img = unat (le16 img 0x0B) * unat (img ! 0x0D)"

lemma read_cluster_size_effect:
  assumes "wf_os s" "read_cluster_size s = (r, s')"
  shows "extended s s' \<and> wf_os s' \<and> (\<forall>c. r = Inr c \<longrightarrow> unat c = volume_cluster (source_image s) \<and> 0 < unat c)"
proof -
  obtain r1 s1 where p: "sys_pread 512 0 s = (r1, s1)" by (cases "sys_pread 512 0 s")
  note e = sys_pread_effect [OF assms(1) p]
  have s': "s' = s1" using assms(2) p by (auto simp: read_cluster_size_def Let_def split: sum.splits if_splits)
  have "unat c = volume_cluster (source_image s) \<and> 0 < unat c" if c: "r = Inr c" for c
  proof -
    obtain boot where b: "r1 = Inr boot" "length boot = 512" "le16 boot 0x0B \<noteq> 0" "boot ! 0x0D \<noteq> 0"
        "checked_mul (ucast (le16 boot 0x0B)) (ucast (boot ! 0x0D)) ''cluster size'' = Inr c"
      using assms(2) p c by (auto simp: read_cluster_size_def Let_def split: sum.splits if_splits)
    obtain n where n: "boot = sub_bytes (source_image s) 0 n" using e b(1) by auto
    have i: "boot ! i = source_image s ! i" if "i < 512" for i
      using that b(2) n by (simp add: sub_bytes_def)
    have lt: "unat (le16 boot 0x0B) < 2 ^ 16" "unat (boot ! 0x0D) < 2 ^ 8"
      using unat_u16_lt [of "le16 boot 0x0B"] unat_byte_lt [of "boot ! 0x0D"] by simp_all
    have u: "unat (ucast (le16 boot 0x0B) :: u64) = unat (le16 boot 0x0B)" "unat (ucast (boot ! 0x0D) :: u64) = unat (boot ! 0x0D)"
      using lt by (simp_all add: unat_ucast)
    have "unat (le16 boot 0x0B) * unat (boot ! 0x0D) < 2 ^ 16 * 2 ^ 8"
      using lt by (intro mult_strict_mono) auto
    then have m: "c = ucast (le16 boot 0x0B) * ucast (boot ! 0x0D)"
        "unat c = unat (le16 boot 0x0B) * unat (boot ! 0x0D)"
      using b(5) unat_mul [of "ucast (le16 boot 0x0B)" "ucast (boot ! 0x0D)"] by (auto simp: checked_mul_eq u)
    have "le16 boot 0x0B = le16 (source_image s) 0x0B" by (simp add: le16_def i)
    then have "unat c = volume_cluster (source_image s)" using m(2) i [of 13] by (simp add: volume_cluster_def)
    moreover have "0 < unat c" using m(2) b(3,4) by (simp add: unat_gt_0)
    ultimately show ?thesis by blast
  qed
  then show ?thesis using e s' by blast
qed

section \<open>The whole run\<close>

text \<open>The index a run opens, if it gets as far, and the files the opening may create.\<close>

definition run_index :: "(os \<Rightarrow> host) \<Rightarrow> recover_options \<Rightarrow> os \<Rightarrow> path option" where
  "run_index hosted options s =
     (case fst (open_source (hosted s) (opt_source options)) of
        Inl e \<Rightarrow> None
      | Inr src \<Rightarrow> (case validate_database_path (hosted s) src (opt_database options) of Inl e \<Rightarrow> None | Inr p \<Rightarrow> Some p))"

definition run_creates ::
  "(os \<Rightarrow> host) \<Rightarrow> (path \<Rightarrow> database index_opening) \<Rightarrow> recover_options \<Rightarrow> os \<Rightarrow> path set" where
  "run_creates hosted open_database options s =
     (case run_index hosted options s of None \<Rightarrow> {} | Some p \<Rightarrow> set (fst (open_database p)))"

definition run_index_files :: "(os \<Rightarrow> host) \<Rightarrow> recover_options \<Rightarrow> os \<Rightarrow> path set" where
  "run_index_files hosted options s =
     (case run_index hosted options s of None \<Rightarrow> {} | Some p \<Rightarrow> set (index_files p))"

lemma run_creates_index_files:
  "creates_index_files open_database \<Longrightarrow>
     run_creates hosted open_database options s \<subseteq> run_index_files hosted options s"
  by (simp add: creates_index_files_def run_creates_def run_index_files_def split: option.split)

text \<open>What a run goes through before it has the items.\<close>

definition prepared ::
  "(os \<Rightarrow> host) \<Rightarrow> (path \<Rightarrow> database index_opening) \<Rightarrow> (stored_record list \<Rightarrow> stored_record list) \<Rightarrow> recover_options
     \<Rightarrow> os \<Rightarrow> source \<Rightarrow> path \<Rightarrow> u64 \<Rightarrow> tree_state \<Rightarrow> os \<Rightarrow> bool" where
  "prepared hosted open_database arrange options s src destination cluster_size tree s1 \<longleftrightarrow>
     fst (open_source (hosted s) (opt_source options)) = Inr src
     \<and> validate_destination_path (hosted s) src (opt_destination options) = Inr destination
     \<and> (\<exists>p db root s0. validate_database_path (hosted s) src (opt_database options) = Inr p
          \<and> run_opening (open_database p) s = (Inr db, s0) \<and> read_cluster_size s0 = (Inr cluster_size, s1)
          \<and> db_by_record_id db (opt_root options) = Inr (Some root)
          \<and> collect_tree arrange (db_children_of db) (opt_root options) [] new_tree = Inr tree)"

lemma recover_run_cases:
  assumes "wf_os s" "recover_run hosted open_database arrange options s = (r, log, s')"
  obtains (refused) e where "r = Inl e" "log = []" "added (run_creates hosted open_database options s) s s'" "wf_os s'"
    | (ready) src destination cluster_size tree s1 where
        "prepared hosted open_database arrange options s src destination cluster_size tree s1"
        "recover_collected hosted options src cluster_size destination (ts_items tree) s1 = (r, log, s')"
        "added (run_creates hosted open_database options s) s s1" "wf_os s1"
proof (cases "\<exists>src p destination. fst (open_source (hosted s) (opt_source options)) = Inr src
    \<and> validate_database_path (hosted s) src (opt_database options) = Inr p
    \<and> validate_destination_path (hosted s) src (opt_destination options) = Inr destination")
  case False
  then have "(\<exists>e. r = Inl e) \<and> log = [] \<and> s' = s"
    using assms(2) by (auto simp: recover_run_def split: sum.splits)
  then show thesis using refused assms(1) by blast
next
  case True
  then obtain src p destination where v: "fst (open_source (hosted s) (opt_source options)) = Inr src"
    "validate_database_path (hosted s) src (opt_database options) = Inr p"
    "validate_destination_path (hosted s) src (opt_destination options) = Inr destination" by blast
  have c: "run_creates hosted open_database options s = set (fst (open_database p))"
    using v by (simp add: run_creates_def run_index_def)
  obtain answer s0 where o: "run_opening (open_database p) s = (answer, s0)" by (cases "run_opening (open_database p) s")
  have a: "added (run_creates hosted open_database options s) s s0" "wf_os s0"
    using run_opening_added [OF assms(1) o] unfolding c by blast+
  obtain r1 s1 where g: "read_cluster_size s0 = (r1, s1)" by (cases "read_cluster_size s0")
  have a1: "added (run_creates hosted open_database options s) s s1" "wf_os s1"
    using read_cluster_size_effect [OF a(2) g] added_trans [OF a(1) extended_added] by blast+
  show thesis
  proof (cases "\<exists>cluster_size tree. prepared hosted open_database arrange options s src destination cluster_size tree s1")
    case True
    then obtain cluster_size tree where
      p: "prepared hosted open_database arrange options s src destination cluster_size tree s1" by blast
    then have "recover_collected hosted options src cluster_size destination (ts_items tree) s1 = (r, log, s')"
      using assms(2) by (auto simp: recover_run_def prepared_def)
    then show thesis using ready [OF p] a1 by blast
  next
    case False
    then have "(\<exists>e. r = Inl e) \<and> log = [] \<and> (s' = s0 \<or> s' = s1)"
      using assms(2) v o g by (auto simp: recover_run_def prepared_def split: sum.splits option.splits)
    then show thesis using refused a a1 by blast
  qed
qed

lemma prepared_cluster:
  assumes "wf_os s" "prepared hosted open_database arrange options s src destination cs tree s1"
  shows "unat cs = volume_cluster (source_image s)"
proof -
  obtain p db s0 where o: "run_opening (open_database p) s = (Inr db, s0)" "read_cluster_size s0 = (Inr cs, s1)"
    using assms(2) unfolding prepared_def by blast
  have "wf_os s0" "source_image s0 = source_image s" using run_opening_added [OF assms(1) o(1)] added_image by blast+
  then show ?thesis using read_cluster_size_effect [OF _ o(2)] by simp
qed

lemma recover_collected_cases:
  assumes "wf_os s" "recover_collected hosted options src cluster_size destination items s = (r, log, s')"
  obtains (dry) "opt_dry_run options" "r = Inr \<lparr>recovered = 0, skipped = 0, preview_items = of_nat (length items)\<rparr>"
        "log = dry_run_log options destination items" "s' = s"
    | (failed) e where "\<not> opt_dry_run options" "r = Inl e" "log = []" "\<And>P. lasting P s s'"
    | (ran) s2 records outs where "\<not> opt_dry_run options" "\<And>P. lasting P s s2"
        "\<And>n. map_of records n \<noteq> None \<Longrightarrow>
          \<exists>i \<le> length (source_image s) div RecordSize. map_of records n = first_block (source_image s) i n"
        "item_outcomes hosted src cluster_size records destination (opt_overwrite options) items s2 = (outs, s')"
        "r = Inr \<lparr>recovered = of_nat (length (filter (\<lambda>out. out = Recovered) outs)),
                  skipped = of_nat (length (filter is_skip outs)), preview_items = of_nat (length items)\<rparr>"
        "log = Locating (card (wanted_files items)) # lines_of destination items outs
           @ [LogDone (of_nat (length (filter (\<lambda>out. out = Recovered) outs))) (of_nat (length (filter is_skip outs)))]"
proof (cases "opt_dry_run options")
  case True
  then show thesis using assms(2) dry by (simp add: recover_collected_def)
next
  case False
  obtain r1 s1 where a: "ensure_safe_directory hosted src destination s = (r1, s1)"
    by (cases "ensure_safe_directory hosted src destination s")
  have 1: "lasting P s s1" for P by (rule ensure_safe_directory_lasting [OF assms(1) a])
  show thesis
  proof (cases r1)
    case (Inl e)
    then have "r = Inl e" "log = []" "s' = s1" using assms(2) a False by (simp_all add: recover_collected_def Let_def)
    then show thesis using failed False 1 by blast
  next
    case (Inr u)
    have w: "wf_os s1" and im: "source_image s1 = source_image s"
      using 1 [of "{}"] by (simp_all add: lasting_def)
    obtain r2 s2 where b: "locate_records (wanted_files items) s1 = (r2, s2)"
      by (cases "locate_records (wanted_files items) s1")
    note l = locate_records_located [OF w b]
    then obtain records i where rec: "r2 = Inr records" "located (source_image s) (wanted_files items) i records"
        "i \<le> length (source_image s) div RecordSize"
      unfolding im by blast
    have 2: "lasting P s s2" for P
      using l by (intro lasting_trans [OF 1] extended_lasting) blast+
    obtain outs s3 where o: "item_outcomes hosted src cluster_size records destination (opt_overwrite options) items s2 = (outs, s3)"
      by (cases "item_outcomes hosted src cluster_size records destination (opt_overwrite options) items s2")
    note R = recover_items_outcomes [OF o, of "\<lparr>recovered = 0, skipped = 0, preview_items = of_nat (length items)\<rparr>"
        "[Locating (card (wanted_files items))]"]
    have r: "r = Inr \<lparr>recovered = of_nat (length (filter (\<lambda>out. out = Recovered) outs)),
                  skipped = of_nat (length (filter is_skip outs)), preview_items = of_nat (length items)\<rparr>"
      and lg: "log = Locating (card (wanted_files items)) # lines_of destination items outs
           @ [LogDone (of_nat (length (filter (\<lambda>out. out = Recovered) outs))) (of_nat (length (filter is_skip outs)))]"
      and s': "s' = s3"
      using assms(2) a False Inr b rec(1) R by (simp_all add: recover_collected_def Let_def)
    have "\<exists>i \<le> length (source_image s) div RecordSize. map_of records n = first_block (source_image s) i n"
      if "map_of records n \<noteq> None" for n
      using rec(2,3) that unfolding located_def by (metis (full_types))
    then show thesis using ran [OF False 2 _ _ r lg] o s' by blast
  qed
qed

end
