(* ===== verification/RunConfinement.thy ===== *)
theory RunConfinement
  imports RunEffects
begin

text \<open>
  What a run adds: the content of the files it reports as recovered, and the paths at which new
  entries can appear, for a destination whose canonical form is \<open>abs_path ds\<close>.
\<close>

section \<open>What is recovered\<close>

lemma recover_file_published:
  assumes "wf_os s" "recover_file record mft cs path ov s = (Inr True, s')"
  shows "\<exists>data rest c k. data_attributes mft = Got (data # rest)
    \<and> stream_content (source_image s) (unat cs) data = Some c
    \<and> entries s' path = Some k \<and> nodes s' k = Some (Regular c) \<and> nodes s k = None"
  using assms
proof (cases rule: recover_file_cases)
  case (scope data rest k)
  then obtain c where c: "stream_content (source_image s) (unat cs) data = Some c" "owned {path} k c s'"
      "entries s' path = Some k" "next_id s \<le> k"
    unfolding scope_outcome_def Let_def by auto
  have "nodes s' k = Some (Regular c)" using c(2) by (simp add: owned_def)
  then show ?thesis using scope(1) c(1,3) wf_fresh [OF assms(1) c(4)] by blast
qed simp

text \<open>The content a record's first stream has on the volume.\<close>

definition file_content :: "bytes \<Rightarrow> nat \<Rightarrow> bytes \<Rightarrow> bytes option" where
  "file_content img cluster mft =
     (case data_attributes mft of Got (data # rest) \<Rightarrow> stream_content img cluster data | _ \<Rightarrow> None)"

lemma replaceable_False: "replaceable False destination items = {}"
  by (simp add: replaceable_def replaced_def)

text \<open>The outputs of a run are distinct.\<close>

lemma distinct_targets:
  assumes "items_placed [] items" "distinct (item_keys items)"
  shows "distinct (map (item_target destination) items)"
proof -
  have d: "distinct (map ri_relative_path items)"
    using assms(2) distinct_map [of collision_key "map ri_relative_path items"] by (simp add: item_keys_def comp_def)
  have rel: "hd (ri_relative_path x) \<noteq> SLASH \<and> ri_relative_path x \<noteq> []" if "x \<in> set items" for x
    using placed_components [OF assms(1) that] last_join_slash by metis
  have "inj_on (item_target destination) (set items)"
  proof (rule inj_onI)
    fix x y assume h: "x \<in> set items" "y \<in> set items" "item_target destination x = item_target destination y"
    then have "ri_relative_path x = ri_relative_path y"
      using rel [of x] rel [of y] by (auto simp: item_target_def path_append_def split: if_splits)
    then show "x = y" using d h(1,2) by (auto simp: distinct_map dest: inj_onD)
  qed
  then show ?thesis using d by (simp add: distinct_map)
qed

lemma outcomes_recovered:
  assumes "wf_os s" "item_outcomes hosted src cs records destination ov items s = (outs, s')"
    and "distinct (map (item_target destination) items)" "(item, Recovered) \<in> set (zip items outs)"
    and "\<And>other. ov \<Longrightarrow> other \<in> set items \<Longrightarrow> \<not> sr_is_directory (ri_record other) \<Longrightarrow>
      item_target destination item \<noteq> item_target destination other @ partial_suffix"
  shows "\<exists>mft c j. map_of records (sr_record_id_guess (ri_record item)) = Some mft
    \<and> file_content (source_image s) (unat cs) mft = Some c
    \<and> entries s' (item_target destination item) = Some j \<and> nodes s' j = Some (Regular c)
    \<and> \<not> sr_is_directory (ri_record item)"
  using assms
proof (induction items arbitrary: s outs)
  case (Cons x items)
  obtain out s1 where a: "recover_item_step hosted src cs records destination ov x s = (out, s1)"
    by (cases "recover_item_step hosted src cs records destination ov x s")
  obtain rest where b: "item_outcomes hosted src cs records destination ov items s1 = (rest, s')" "outs = out # rest"
    using Cons.prems(2) a by (auto simp: Let_def split: prod.splits)
  have l1: "lasting (replaceable ov destination [x]) s s1" by (rule item_step_lasting [OF Cons.prems(1) a])
  then have w1: "wf_os s1" and im: "source_image s1 = source_image s" by (simp_all add: lasting_def)
  have l2: "lasting (replaceable ov destination (file_items items)) s1 s'" by (rule item_outcomes_lasting_files [OF w1 b(1)])
  show ?case
  proof (cases "(item, Recovered) \<in> set (zip items rest)")
    case True
    have "distinct (map (item_target destination) items)" using Cons.prems(3) by simp
    from Cons.IH [OF w1 b(1) this True Cons.prems(5)] show ?thesis unfolding im by simp
  next
    case False
    then have it: "item = x" "out = Recovered" using Cons.prems(4) b(2) by auto
    from Cons.prems(1) a show ?thesis
    proof (cases rule: item_step_cases)
      case idle
      then show ?thesis using it by simp
    next
      case (written s0 mft r)
      have w0: "wf_os s0" and im0: "source_image s0 = source_image s" using written(1) [of "{}"] by (simp_all add: lasting_def)
      have "r = Inr True" using written(5) it by simp
      from recover_file_published [OF w0 written(4) [unfolded this]] obtain data rest' c k where
        p: "data_attributes mft = Got (data # rest')" "stream_content (source_image s) (unat cs) data = Some c"
          "entries s1 (item_target destination x) = Some k" "nodes s1 k = Some (Regular c)"
        unfolding im0 by blast
      have "item_target destination x \<notin> replaceable ov destination (file_items items)"
        using Cons.prems(3,5) it(1) by (auto simp: replaceable_def replaced_def file_items_def)
      then have "entries s' (item_target destination x) = Some k \<and> nodes s' k = nodes s1 k"
        using lasting_entry [OF l2 w1 p(3)] by simp
      then show ?thesis using p written(2,3) it by (auto simp: file_content_def)
    qed
  qed
qed simp

section \<open>Where new paths appear\<close>

text \<open>Undisturbed, every path that is new lies in \<open>Q\<close>.\<close>

definition confined :: "path set \<Rightarrow> os \<Rightarrow> os \<Rightarrow> bool" where
  "confined Q s s' \<longleftrightarrow> (quiet s \<longrightarrow> quiet s' \<and> (\<forall>p. entries s' p \<noteq> None \<longrightarrow> entries s p \<noteq> None \<or> p \<in> Q))"

lemma confined_refl: "confined Q s s"
  by (simp add: confined_def)

lemma confined_trans: "confined Q s s' \<Longrightarrow> confined Q s' s'' \<Longrightarrow> confined Q s s''"
  unfolding confined_def by blast

lemma confined_mono: "confined Q s s' \<Longrightarrow> Q \<subseteq> R \<Longrightarrow> confined R s s'"
  unfolding confined_def by blast

lemma extended_confined: "extended s s' \<Longrightarrow> confined Q s s'"
  by (simp add: extended_def confined_def)

lemma added_confined: "added P s s' \<Longrightarrow> P \<subseteq> Q \<Longrightarrow> confined Q s s'"
  unfolding added_def confined_def by fastforce

lemma scope_outcome_confined:
  assumes "scope_outcome path ov b C k s s'"
  shows "confined {path, path @ partial_suffix} s s'"
proof -
  have own: "p \<in> {path, path @ partial_suffix}" if "entries s' p = Some k" for p
    using that assms owned_entry [of "{path}" k _ s' p] by (cases b) (auto simp: scope_outcome_def Let_def)
  obtain R where R: "preserved R k s s'" using assms by (cases b) (auto simp: scope_outcome_def Let_def)
  show ?thesis unfolding confined_def
  proof (intro impI conjI allI)
    assume q: "quiet s"
    then show "quiet s'" using R by (simp add: preserved_def)
    fix p assume "entries s' p \<noteq> None"
    then obtain j where j: "entries s' p = Some j" by blast
    then have "entries s p = Some j \<or> j = k" using R q unfolding preserved_def by blast
    then show "entries s p \<noteq> None \<or> p \<in> {path, path @ partial_suffix}" using own j by auto
  qed
qed

lemma recover_file_confined:
  assumes "wf_os s" "recover_file record mft cs path ov s = (r, s')"
  shows "confined {path, path @ partial_suffix} s s'"
  using assms by (cases rule: recover_file_cases) (auto intro: confined_refl scope_outcome_confined)

lemma sys_mkdir_confined:
  assumes "wf_os s" "sys_mkdir p s = (r, s')"
  shows "confined {p} s s'"
  using assms(2) unfolding sys_mkdir_def
proof (rule syscall_cases [OF assms(1)], goal_cases)
  case (1 e s1)
  then show ?case by (simp add: extended_confined)
next
  case (2 s1 cap)
  have "confined {p} s1 s'" using 2(4)
    by (auto simp: confined_def add_node_def split: if_splits)
  then show ?case using confined_trans [OF extended_confined [OF 2(1)]] by blast
qed

lemma lstat_confined: "wf_os s \<Longrightarrow> sys_lstat p s = (r, s') \<Longrightarrow> confined Q s s'"
  using sys_lstat_effect extended_confined by blast

lemma ensure_component_confined:
  assumes "wf_os s" "ensure_component p s = (r, s')"
  shows "confined {p} s s'"
proof -
  obtain r1 s1 where a: "sys_lstat p s = (r1, s1)" by (cases "sys_lstat p s")
  have w1: "wf_os s1" using sys_lstat_effect [OF assms(1) a] by blast
  obtain r2 s2 where b: "sys_mkdir p s1 = (r2, s2)" by (cases "sys_mkdir p s1")
  have w2: "wf_os s2" using sys_mkdir_lasting [OF w1 b] lasting_wf by blast
  obtain r3 s3 where c: "sys_lstat p s2 = (r3, s3)" by (cases "sys_lstat p s2")
  have 1: "confined {p} s s1" by (rule lstat_confined [OF assms(1) a])
  have 2: "confined {p} s s2" by (rule confined_trans [OF 1 sys_mkdir_confined [OF w1 b]])
  have 3: "confined {p} s s3" by (rule confined_trans [OF 2 lstat_confined [OF w2 c]])
  have "s' = s1 \<or> s' = s2 \<or> s' = s3"
    using assms(2) a b c by (auto simp: ensure_component_def inspect_created_def split: sum.splits if_splits)
  then show ?thesis using 1 2 3 by blast
qed

fun dir_chain :: "path \<Rightarrow> bytes list \<Rightarrow> path set" where
  "dir_chain cur [] = {}"
| "dir_chain cur (c # cs) = insert (path_append cur c) (dir_chain (path_append cur c) cs)"

lemma ensure_components_confined:
  "wf_os s \<Longrightarrow> ensure_components hosted source cur cs s = (r, s') \<Longrightarrow> confined (dir_chain cur cs) s s'"
proof (induction hosted source cur cs s rule: ensure_components.induct)
  case (1 hosted source cur s)
  then show ?case by (simp add: confined_refl)
next
  case (2 hosted source cur c cs s)
  let ?p = "path_append cur c"
  obtain r1 s1 where a: "ensure_component ?p s = (r1, s1)" by (cases "ensure_component ?p s")
  have l: "confined (dir_chain cur (c # cs)) s s1"
    by (rule confined_mono [OF ensure_component_confined [OF "2.prems"(1) a]]) simp
  have w: "wf_os s1" using ensure_component_lasting [OF "2.prems"(1) a] lasting_wf by blast
  show ?case
  proof (cases r1)
    case (Inl e)
    then show ?thesis using "2.prems"(2) a l by (simp add: Let_def)
  next
    case (Inr u)
    show ?thesis
    proof (cases "validate_destination_path (hosted s1) source ?p")
      case (Inl e)
      then show ?thesis using "2.prems"(2) a l Inr by (simp add: Let_def)
    next
      case v: (Inr d)
      then have "ensure_components hosted source ?p cs s1 = (r, s')" using "2.prems"(2) a Inr by (simp add: Let_def)
      from "2.IH" [OF refl a [symmetric] Inr v w this]
      have "confined (dir_chain cur (c # cs)) s1 s'" by (rule confined_mono) auto
      then show ?thesis by (rule confined_trans [OF l])
    qed
  qed
qed

definition directory_paths :: "path \<Rightarrow> path set" where
  "directory_paths d = dir_chain (root_path d) (relative_components d)"

lemma ensure_safe_directory_confined:
  "wf_os s \<Longrightarrow> ensure_safe_directory hosted source d s = (r, s') \<Longrightarrow> confined (directory_paths d) s s'"
  unfolding ensure_safe_directory_def directory_paths_def by (rule ensure_components_confined)

text \<open>The paths an item may create.\<close>

definition item_paths :: "path \<Rightarrow> recover_item \<Rightarrow> path set" where
  "item_paths destination item =
     (let target = item_target destination item in
      if sr_is_directory (ri_record item) then directory_paths target
      else directory_paths (parent_path target) \<union> {target, target @ partial_suffix})"

lemma item_step_confined:
  assumes "wf_os s" "recover_item_step hosted source cs records destination ov item s = (out, s')"
  shows "confined (item_paths destination item) s s'"
proof -
  let ?t = "item_target destination item" and ?Q = "item_paths destination item"
  define d where "d = (if sr_is_directory (ri_record item) then ?t else parent_path ?t)"
  obtain r1 s1 where a: "ensure_safe_directory hosted source d s = (r1, s1)" by (cases "ensure_safe_directory hosted source d s")
  have 1: "confined ?Q s s1"
    by (rule confined_mono [OF ensure_safe_directory_confined [OF assms(1) a]]) (auto simp: item_paths_def d_def Let_def)
  have w: "wf_os s1" using ensure_safe_directory_lasting [OF assms(1) a] lasting_wf by blast
  have "s' = s1 \<or> (\<not> sr_is_directory (ri_record item) \<and>
      (\<exists>mft r2. recover_file (ri_record item) mft cs ?t ov s1 = (r2, s')))"
    using assms(2) a
    by (auto simp: recover_item_step_def Let_def item_target_def [symmetric] d_def
        split: sum.splits option.splits prod.splits bool.splits if_splits)
  then show ?thesis
  proof (elim disjE conjE exE)
    assume "s' = s1"
    then show ?thesis using 1 by simp
  next
    fix mft r2
    assume f: "\<not> sr_is_directory (ri_record item)" "recover_file (ri_record item) mft cs ?t ov s1 = (r2, s')"
    have "confined ?Q s1 s'"
      by (rule confined_mono [OF recover_file_confined [OF w f(2)]]) (use f(1) in \<open>auto simp: item_paths_def Let_def\<close>)
    then show ?thesis by (rule confined_trans [OF 1])
  qed
qed

lemma item_outcomes_confined:
  "wf_os s \<Longrightarrow> item_outcomes hosted src cs records destination ov items s = (outs, s') \<Longrightarrow>
     (\<And>item. item \<in> set items \<Longrightarrow> item_paths destination item \<subseteq> Q) \<Longrightarrow> confined Q s s'"
proof (induction items arbitrary: s outs)
  case Nil
  then show ?case by (simp add: confined_refl)
next
  case (Cons item items)
  obtain out s1 where a: "recover_item_step hosted src cs records destination ov item s = (out, s1)"
    by (cases "recover_item_step hosted src cs records destination ov item s")
  obtain os where b: "item_outcomes hosted src cs records destination ov items s1 = (os, s')"
    using Cons.prems(2) a by (auto simp: Let_def split: prod.splits)
  have 1: "confined Q s s1" using item_step_confined [OF Cons.prems(1) a] Cons.prems(3) by (auto intro: confined_mono)
  have "wf_os s1" using item_step_lasting [OF Cons.prems(1) a] lasting_wf by blast
  from Cons.IH [OF this b] Cons.prems(3) have "confined Q s1 s'" by simp
  then show ?case by (rule confined_trans [OF 1])
qed

lemma recover_collected_confined:
  assumes "wf_os s" "recover_collected hosted options src cluster_size destination items s = (r, log, s')"
    and "directory_paths destination \<subseteq> Q" "\<And>item. item \<in> set items \<Longrightarrow> item_paths destination item \<subseteq> Q"
  shows "confined Q s s'"
proof (cases "opt_dry_run options")
  case True
  then show ?thesis using assms(2) by (simp add: recover_collected_def confined_refl)
next
  case False
  obtain r1 s1 where a: "ensure_safe_directory hosted src destination s = (r1, s1)"
    by (cases "ensure_safe_directory hosted src destination s")
  have w1: "wf_os s1" using ensure_safe_directory_lasting [OF assms(1) a] lasting_wf by blast
  have 1: "confined Q s s1" by (rule confined_mono [OF ensure_safe_directory_confined [OF assms(1) a] assms(3)])
  show ?thesis
  proof (cases r1)
    case (Inl e)
    then show ?thesis using assms(2) a False 1 by (simp add: recover_collected_def Let_def)
  next
    case (Inr u)
    obtain r2 s2 where b: "locate_records (wanted_files items) s1 = (r2, s2)"
      by (cases "locate_records (wanted_files items) s1")
    note l = locate_records_located [OF w1 b]
    then obtain records where rec: "r2 = Inr records" by blast
    have w2: "wf_os s2" and 2: "confined Q s s2" using l confined_trans [OF 1 extended_confined] by blast+
    obtain outs s3 where o: "item_outcomes hosted src cluster_size records destination (opt_overwrite options) items s2 = (outs, s3)"
      by (cases "item_outcomes hosted src cluster_size records destination (opt_overwrite options) items s2")
    have "s' = s3" using assms(2) a False Inr b rec recover_items_outcomes [OF o] by (simp add: recover_collected_def Let_def)
    then show ?thesis using confined_trans [OF 2 item_outcomes_confined [OF w2 o assms(4)]] by simp
  qed
qed

section \<open>Absolute paths\<close>

definition plain :: "bytes \<Rightarrow> bool" where
  "plain c \<longleftrightarrow> c \<noteq> [] \<and> SLASH \<notin> set c"

definition abs_path :: "bytes list \<Rightarrow> path" where
  "abs_path cs = SLASH # join_slash cs"

lemma safe_plain: "safe_component c \<Longrightarrow> plain c"
  by (simp add: safe_component_def plain_def)

lemma join_slash_append: "ss \<noteq> [] \<Longrightarrow> ts \<noteq> [] \<Longrightarrow> join_slash (ss @ ts) = join_slash ss @ SLASH # join_slash ts"
proof (induction ss rule: join_slash.induct)
  case (2 s)
  then show ?case by (cases ts) auto
qed auto

lemma join_slash_ends:
  assumes "cs \<noteq> []" "\<forall>c \<in> set cs. plain c"
  shows "join_slash cs \<noteq> [] \<and> last (join_slash cs) \<noteq> SLASH \<and> hd (join_slash cs) \<noteq> SLASH"
  using assms
proof (induction cs rule: join_slash.induct)
  case (2 s)
  then show ?case by (auto simp: plain_def dest: last_in_set hd_in_set)
next
  case (3 s t ss)
  have "hd s \<noteq> SLASH" using 3 by (auto simp: plain_def dest: hd_in_set)
  with 3 show ?case by (simp add: plain_def hd_append)
qed simp

lemma path_append_abs:
  assumes "\<forall>c \<in> set cs. plain c" "rs \<noteq> []" "\<forall>c \<in> set rs. plain c"
  shows "path_append (abs_path cs) (join_slash rs) = abs_path (cs @ rs)"
proof (cases "cs = []")
  case True
  then show ?thesis using join_slash_ends [OF assms(2,3)] by (simp add: path_append_def abs_path_def)
next
  case False
  then show ?thesis using join_slash_ends [OF False assms(1)] join_slash_ends [OF assms(2,3)] assms(2)
    by (simp add: path_append_def abs_path_def join_slash_append)
qed

lemma parent_path_abs:
  assumes "\<forall>c \<in> set cs. plain c" "plain c"
  shows "parent_path (abs_path (cs @ [c])) = abs_path cs"
proof -
  have n: "dropWhile (\<lambda>b. b \<noteq> SLASH) (rev c @ SLASH # r) = SLASH # r" for r
    using assms(2) by (subst dropWhile_append2) (auto simp: plain_def)
  show ?thesis
  proof (cases "cs = []")
    case True
    then show ?thesis using n [of "[]"] by (simp add: parent_path_def abs_path_def root_path_def)
  next
    case False
    have j: "rev (join_slash cs) \<noteq> []" "hd (rev (join_slash cs)) \<noteq> SLASH"
      using join_slash_ends [OF False assms(1)] by (simp_all add: hd_rev)
    then obtain b bs where b: "rev (join_slash cs) = b # bs" "b \<noteq> SLASH" by (cases "rev (join_slash cs)") auto
    have r: "rev (abs_path (cs @ [c])) = rev c @ SLASH # rev (join_slash cs) @ [SLASH]"
      using False by (simp add: abs_path_def join_slash_append)
    have "rev (b # bs @ [SLASH]) = abs_path cs" using b(1) by (metis abs_path_def append_Cons rev_append rev_rev_ident rev_singleton_conv append_Nil)
    then show ?thesis unfolding parent_path_def r n Let_def using b by simp
  qed
qed

lemma root_path_abs: "root_path (abs_path cs) = abs_path []"
  by (simp add: root_path_def abs_path_def)

lemma relative_components_abs:
  assumes "\<forall>c \<in> set cs. plain c"
  shows "relative_components (abs_path cs) = cs"
proof (cases "cs = []")
  case True
  then show ?thesis by (simp add: relative_components_def abs_path_def)
next
  case False
  have "split_slash (abs_path cs) = [] # cs"
    using split_join [OF False] assms by (simp add: abs_path_def plain_def)
  moreover have "filter (\<lambda>c. c \<noteq> []) cs = cs" using assms by (auto simp: plain_def)
  ultimately show ?thesis using join_slash_ends [OF False assms] by (simp add: relative_components_def abs_path_def)
qed

lemma dir_chain_abs:
  assumes "\<forall>c \<in> set cs. plain c" "\<forall>c \<in> set ts. plain c" "p \<in> dir_chain (abs_path cs) ts"
  shows "\<exists>i \<le> length ts. p = abs_path (cs @ take i ts)"
  using assms
proof (induction ts arbitrary: cs)
  case (Cons t ts)
  have a: "path_append (abs_path cs) t = abs_path (cs @ [t])"
    using path_append_abs [of cs "[t]"] Cons.prems by simp
  consider "p = abs_path (cs @ [t])" | "p \<in> dir_chain (abs_path (cs @ [t])) ts"
    using Cons.prems(3) unfolding dir_chain.simps a by blast
  then show ?case
  proof cases
    case 1
    then show ?thesis by (intro exI [of _ 1]) simp
  next
    case 2
    then obtain i where "i \<le> length ts" "p = abs_path ((cs @ [t]) @ take i ts)"
      using Cons.IH [of "cs @ [t]"] Cons.prems by auto
    then show ?thesis by (intro exI [of _ "Suc i"]) simp
  qed
qed simp

lemma directory_paths_abs:
  "\<forall>c \<in> set cs. plain c \<Longrightarrow> p \<in> directory_paths (abs_path cs) \<Longrightarrow> \<exists>i \<le> length cs. p = abs_path (take i cs)"
  using dir_chain_abs [of "[]" cs p] by (simp add: directory_paths_def root_path_abs relative_components_abs)

text \<open>The places below a destination, and the destination with its parents.\<close>

definition within_destination :: "bytes list \<Rightarrow> path \<Rightarrow> bool" where
  "within_destination ds p \<longleftrightarrow>
     (\<exists>i \<le> length ds. p = abs_path (take i ds))
     \<or> (\<exists>cs. cs \<noteq> [] \<and> (\<forall>c \<in> set cs. safe_component c) \<and> p = abs_path (ds @ cs))"

lemma within_take:
  assumes "\<forall>c \<in> set rs. safe_component c"
  shows "within_destination ds (abs_path (take i (ds @ rs)))"
proof (cases "i \<le> length ds")
  case True
  then show ?thesis by (auto simp: within_destination_def)
next
  case False
  show ?thesis
  proof (cases "take (i - length ds) rs = []")
    case True
    then have "abs_path (take i (ds @ rs)) = abs_path (take (length ds) ds)" using False by simp
    then show ?thesis unfolding within_destination_def by blast
  next
    case ne: False
    have "abs_path (take i (ds @ rs)) = abs_path (ds @ take (i - length ds) rs)" using False by simp
    moreover have "\<forall>c \<in> set (take (i - length ds) rs). safe_component c" using assms by (meson in_set_takeD)
    ultimately show ?thesis using ne unfolding within_destination_def by blast
  qed
qed

lemma safe_partial: "safe_component c \<Longrightarrow> safe_component (c @ partial_suffix)"
  by (auto simp: safe_component_def partial_suffix_def SLASH_def DOT_def)

lemma item_paths_within:
  assumes "\<forall>c \<in> set ds. plain c" "rs \<noteq> []" "\<forall>c \<in> set rs. safe_component c" "ri_relative_path item = join_slash rs"
  shows "item_paths (abs_path ds) item \<subseteq> {p. within_destination ds p}"
proof -
  have pr: "\<forall>c \<in> set rs. plain c" using assms(3) safe_plain by blast
  have t: "item_target (abs_path ds) item = abs_path (ds @ rs)"
    using path_append_abs [OF assms(1,2) pr] assms(4) by (simp add: item_target_def)
  have pl: "\<forall>c \<in> set (ds @ rs). plain c" using assms(1) pr by auto
  have bl: "rs = butlast rs @ [last rs]" using assms(2) by simp
  have safe: "\<forall>c \<in> set (butlast rs). safe_component c" "safe_component (last rs)"
    using assms(2,3) by (auto dest: in_set_butlastD)
  have pp: "parent_path (abs_path (ds @ rs)) = abs_path (ds @ butlast rs)"
    using parent_path_abs [of "ds @ butlast rs" "last rs"] assms(1) safe safe_plain bl by (metis Un_iff append.assoc set_append)
  have whole: "within_destination ds (abs_path (ds @ rs))"
    using assms(2,3) unfolding within_destination_def by blast
  have part: "abs_path (ds @ rs) @ partial_suffix = abs_path (ds @ butlast rs @ [last rs @ partial_suffix])"
  proof -
    have "join_slash (xs @ [l]) @ partial_suffix = join_slash (xs @ [l @ partial_suffix])" for xs l
      by (cases "xs = []") (simp_all add: join_slash_snoc)
    from this [of "ds @ butlast rs" "last rs"] show ?thesis using bl by (simp add: abs_path_def)
  qed
  have partial: "within_destination ds (abs_path (ds @ rs) @ partial_suffix)"
    unfolding part using safe safe_partial
    by (auto simp: within_destination_def intro!: disjI2 exI [of _ "butlast rs @ [last rs @ partial_suffix]"])
  have chain: "within_destination ds p" if "p \<in> directory_paths (abs_path (ds @ ts))" "\<forall>c \<in> set ts. safe_component c" for p ts
  proof -
    have "\<forall>c \<in> set (ds @ ts). plain c" using assms(1) that(2) safe_plain by auto
    from directory_paths_abs [OF this that(1)] show ?thesis using within_take [OF that(2)] by blast
  qed
  show ?thesis
    using chain [of _ rs] chain [of _ "butlast rs"] whole partial safe assms(3)
    by (auto simp: item_paths_def t pp Let_def)
qed

end
