(* ===== verification/RunProperties.thy ===== *)
theory RunProperties
  imports RunConfinement
begin

text \<open>
  A run on a small volume, evaluated, and the properties of \<open>Recover::run\<close>: the content of what it
  recovers, what it preserves, where it writes, its account, and what a dry run leaves.
\<close>

section \<open>A run on a small volume\<close>

definition sample_boot :: bytes where
  "sample_boot = zeros 11 @ [0x00, 0x02, 0x02] @ zeros 1010"

definition sample_disk :: os where
  "sample_disk = sample_os []\<lparr>source_image := sample_boot @ sample_record\<rparr>"

definition sample_file_row :: stored_record where
  "sample_file_row = \<lparr>sr_id = 1, sr_record_id_guess = 42, sr_offset = 1024, sr_parent_ref = 42, sr_name = [0x61, 0x62],
     sr_name_namespace = 1, sr_flags = 0, sr_allocated_size = 4096, sr_real_size = 1234, sr_is_directory = False\<rparr>"

definition sample_database :: database where
  "sample_database = \<lparr>db_children_of = (\<lambda>r. Inr (if r = 42 then [sample_file_row] else [])),
     db_by_record_id = (\<lambda>r. Inr (Some sample_file_row))\<rparr>"

definition sample_options :: "bool \<Rightarrow> recover_options" where
  "sample_options dry = \<lparr>opt_source = ascii ''/i'', opt_database = ascii ''/d/x'', opt_root = 42,
     opt_destination = ascii ''/d'', opt_dry_run = dry, opt_overwrite = False\<rparr>"

definition sample_run :: "bool \<Rightarrow> (recover_error + recover_stats) \<times> log_line list \<times> os" where
  "sample_run dry = recover_run (\<lambda>s. sample_host) (\<lambda>p. ([p], Inr sample_database)) arrange_children (sample_options dry) sample_disk"

definition sample_source_object :: source where
  "sample_source_object = \<lparr>src_fd = 3, src_path = ascii ''/i'', src_device = 0, src_is_block = False\<rparr>"

lemma sample_paths:
  "ascii ''/i'' = [0x2F, 0x69]" "ascii ''/d'' = [0x2F, 0x64]" "ascii ''/d/x'' = [0x2F, 0x64, 0x2F, 0x78]"
  by (simp_all add: ascii_def)

lemma wf_sample_disk: "wf_os sample_disk"
  using wf_sample_os [of "[]"] by (simp add: sample_disk_def wf_os_def)

definition sample_item :: recover_item where
  "sample_item = \<lparr>ri_record = sample_file_row, ri_relative_path = [0x61, 0x62]\<rparr>"

lemma sample_tree_items:
  assumes "idx 42 = Inr [sample_file_row]"
  shows "\<exists>tree. collect_tree arrange_children idx 42 [] new_tree = Inr tree \<and> ts_items tree = [sample_item]"
proof -
  have "dedup_children arrange_children [sample_file_row] = [sample_file_row]"
    by (simp add: dedup_children_def sample_file_row_def record_has_long_name_def child_map_key_def
        arrange_children_def)
  then show ?thesis
    by (simp add: collect_tree.simps collect_children.simps(2) assms new_tree_def sample_file_row_def sample_names tracker_add_def Let_def sample_item_def)
qed

lemma sample_source_opened: "fst (open_source sample_host (ascii ''/i'')) = Inr sample_source_object"
  by (simp add: open_source_def canonicalize_def stat_or_fail_def sample_host_def empty_host_def sample_paths
      image_info_def same_opened_object_def is_device_def sample_source_object_def)

lemma sample_stats:
  "h_stat sample_host (ascii ''/d'') = Inr directory_info" "h_stat sample_host (ascii ''/d/x'') = Inl ENOENT"
  "h_fstat sample_host fd = Inr image_info" "h_absolute sample_host = Inr" "h_weakly_canonical sample_host = Inr"
  by (simp_all add: sample_host_def empty_host_def sample_paths)

lemma sample_directory:
  "stored_in sample_host (ascii ''/d'') (ascii ''/d'') directory_info"
  "stored_in sample_host (ascii ''/d/x'') (ascii ''/d'') directory_info"
proof -
  show d: "stored_in sample_host (ascii ''/d'') (ascii ''/d'') directory_info"
    by (rule stored_in.here) (rule sample_stats)
  have p: "parent_path (ascii ''/d/x'') = ascii ''/d''"
    by (simp add: sample_paths parent_path_def SLASH_def root_path_def)
  show "stored_in sample_host (ascii ''/d/x'') (ascii ''/d'') directory_info"
  proof (rule stored_in.above [OF sample_stats(2)])
    show "stored_in sample_host (parent_path (ascii ''/d/x'')) (ascii ''/d'') directory_info" unfolding p by (rule d)
  qed (simp_all add: p, simp_all add: sample_paths)
qed

lemma sample_accepted:
  "canonicalize sample_host (ascii ''/d'') role = Inr (ascii ''/d'')"
  "canonicalize sample_host (ascii ''/d/x'') role = Inr (ascii ''/d/x'')"
  "not_source sample_host sample_source_object (ascii ''/d'')" "not_source sample_host sample_source_object (ascii ''/d/x'')"
  "st_kind directory_info = DirectoryKind" "not_on_source sample_host sample_source_object info"
  by (simp_all add: canonicalize_def sample_stats not_source_def not_on_source_def sample_source_object_def
      directory_info_def image_info_def same_opened_object_def is_device_def) (simp_all add: sample_paths)

lemma sample_destination_valid: "validate_destination_path sample_host sample_source_object (ascii ''/d'') = Inr (ascii ''/d'')"
  unfolding accepted_destination using sample_accepted sample_directory(1) by blast

lemma sample_database_valid: "validate_database_path sample_host sample_source_object (ascii ''/d/x'') = Inr (ascii ''/d/x'')"
proof -
  have "ascii ''/d'' \<noteq> ascii ''/d/x''" by (simp add: sample_paths)
  then show ?thesis unfolding accepted_database using sample_accepted sample_directory(2) by fastforce
qed

text \<open>What the run needs of the states it goes through.\<close>

definition sample_ready :: "os \<Rightarrow> bool" where
  "sample_ready s \<longleftrightarrow> script s = [] \<and> source_image s = sample_boot @ sample_record \<and> wf_os s
     \<and> entries s (ascii ''/d'') = None \<and> entries s (ascii ''/d/ab'') = None
     \<and> entries s (ascii ''/d/ab'' @ partial_suffix) = None"

lemma sample_index_apart:
  "ascii ''/d'' \<notin> set (index_files (ascii ''/d/x''))" "ascii ''/d/ab'' \<notin> set (index_files (ascii ''/d/x''))"
  "ascii ''/d/ab'' @ partial_suffix \<notin> set (index_files (ascii ''/d/x''))"
  by (simp_all add: index_files_def ascii_def)

lemma sample_opened:
  assumes "set created \<subseteq> set (index_files (ascii ''/d/x''))"
  shows "sample_ready (create_missing created sample_disk)"
proof -
  have n: "ascii ''/d'' \<notin> set created" "ascii ''/d/ab'' \<notin> set created" "ascii ''/d/ab'' @ partial_suffix \<notin> set created"
    using assms sample_index_apart by blast+
  have "wf_os (create_missing created sample_disk)"
    by (rule added_wf [OF create_missing_added wf_sample_disk]) (rule wf_sample_disk)
  moreover have "entries sample_disk p = None" if "p \<noteq> [0x61]" for p
    using that by (simp add: sample_disk_def sample_os_def)
  ultimately show ?thesis unfolding sample_ready_def create_missing_entries(1)
    using n by (simp add: ascii_def) (simp add: sample_disk_def sample_os_def)
qed

lemma sample_index_files: "run_index_files (\<lambda>s. sample_host) (sample_options dry) s = set (index_files (ascii ''/d/x''))"
  using sample_source_opened sample_database_valid
  by (simp add: run_index_files_def run_index_def sample_options_def)

lemma sample_cluster:
  assumes "sample_ready s"
  shows "read_cluster_size s = (Inr 1024, s)"
proof -
  have "sys_pread 512 0 s = (Inr (sub_bytes (sample_boot @ sample_record) 0 512), s)"
    using assms by (simp add: sys_pread_def syscall_calm sample_ready_def)
  moreover have "length (sub_bytes (sample_boot @ sample_record) 0 512) = 512"
    by (simp add: sub_bytes_def sample_boot_def)
  moreover have "sub_bytes (sample_boot @ sample_record) 0 512 ! 11 = 0" "sub_bytes (sample_boot @ sample_record) 0 512 ! 12 = 2"
    "sub_bytes (sample_boot @ sample_record) 0 512 ! 13 = 2"
    by (simp_all add: sub_bytes_def sample_boot_def nth_append)
  ultimately show ?thesis
    by (simp add: read_cluster_size_def Let_def le16_def checked_mul_def)
qed

lemma sample_prepared:
  assumes "open_database (ascii ''/d/x'') = (created, Inr db)" "set created \<subseteq> set (index_files (ascii ''/d/x''))"
    "db_by_record_id db 42 = Inr (Some root)" "db_children_of db 42 = Inr [sample_file_row]"
  shows "\<exists>tree s1. prepared (\<lambda>s. sample_host) open_database arrange_children (sample_options dry) sample_disk
     sample_source_object (ascii ''/d'') 1024 tree s1 \<and> ts_items tree = [sample_item] \<and> sample_ready s1"
proof -
  let ?s0 = "create_missing created sample_disk"
  obtain tree :: tree_state where tree: "collect_tree arrange_children (db_children_of db) 42 [] new_tree = Inr tree" "ts_items tree = [sample_item]"
    using sample_tree_items [of "db_children_of db", OF assms(4)] by blast
  have r: "sample_ready ?s0" by (rule sample_opened [OF assms(2)])
  have "run_opening (open_database (ascii ''/d/x'')) sample_disk = (Inr db, ?s0)" by (simp add: run_opening_def assms(1))
  then have "prepared (\<lambda>s. sample_host) open_database arrange_children (sample_options dry) sample_disk
     sample_source_object (ascii ''/d'') 1024 tree ?s0"
    using sample_source_opened sample_destination_valid sample_database_valid sample_cluster [OF r] assms(3) tree(1)
    by (simp add: prepared_def sample_options_def)
  then show ?thesis using tree(2) r by blast
qed

lemma sample_directory_made:
  assumes "sample_ready s"
  shows "\<exists>s1. ensure_safe_directory (\<lambda>s. sample_host) sample_source_object (ascii ''/d'') s = (Inr (), s1)
     \<and> script s1 = [] \<and> source_image s1 = sample_boot @ sample_record \<and> wf_os s1
     \<and> node_at s1 (ascii ''/d'') = Some Directory \<and> entries s1 (ascii ''/d/ab'') = None
     \<and> entries s1 (ascii ''/d/ab'' @ partial_suffix) = None"
proof -
  let ?s = "add_node (ascii ''/d'') Directory s"
  have d: "ascii ''/d/ab'' = [0x2F, 0x64, 0x2F, 0x61, 0x62]" by (simp add: ascii_def)
  have e: "script s = []" "entries s (ascii ''/d'') = None" using assms by (simp_all add: sample_ready_def)
  have c: "ensure_component (ascii ''/d'') s = (Inr (), ?s)"
    using e by (simp add: ensure_component_def sys_lstat_def sys_mkdir_def inspect_created_def check_directory_def syscall_calm
        add_node_def)
  have r: "root_path (ascii ''/d'') = [0x2F]" "relative_components (ascii ''/d'') = [[0x64]]"
    "path_append [0x2F] [0x64] = ascii ''/d''"
    by (simp_all add: sample_paths root_path_def relative_components_def SLASH_def path_append_def)
  have "ensure_safe_directory (\<lambda>s. sample_host) sample_source_object (ascii ''/d'') s = (Inr (), ?s)"
    by (simp add: ensure_safe_directory_def r c sample_destination_valid Let_def)
  moreover have "wf_os ?s" by (rule wf_add_node) (use assms in \<open>simp add: sample_ready_def\<close>)
  ultimately show ?thesis using assms
    by (simp add: add_node_def sample_ready_def node_at_def) (simp add: sample_paths d partial_suffix_def)
qed

lemma ensure_existing:
  assumes "script s = []" "node_at s (ascii ''/d'') = Some Directory"
  shows "ensure_safe_directory (\<lambda>s. sample_host) sample_source_object (ascii ''/d'') s = (Inr (), s)"
proof -
  have c: "ensure_component (ascii ''/d'') s = (Inr (), s)"
    using assms by (auto simp: ensure_component_def sys_lstat_calm check_directory_def node_at_def bind_eq_Some_conv)
  have r: "root_path (ascii ''/d'') = [0x2F]" "relative_components (ascii ''/d'') = [[0x64]]"
    "path_append [0x2F] [0x64] = ascii ''/d''"
    by (simp_all add: sample_paths root_path_def relative_components_def SLASH_def path_append_def)
  show ?thesis by (simp add: ensure_safe_directory_def r c sample_destination_valid Let_def)
qed

lemma sample_boot_unnumbered: "\<not> numbered n sample_boot"
proof -
  have "hd (take 4 sample_boot) = 0" "hd FILE_magic = 0x46"
    by (simp_all add: sample_boot_def zeros_def FILE_magic_def hd_append)
  then have "hd (take 4 sample_boot) \<noteq> hd FILE_magic" by simp
  then have "take 4 sample_boot \<noteq> FILE_magic" by metis
  then show ?thesis by (auto simp: numbered_def)
qed

lemma sample_blocks:
  "length (sample_boot @ sample_record) div RecordSize = 2" "length (sample_boot @ sample_record) < 2 ^ 63"
  "block (sample_boot @ sample_record) 0 = sample_boot" "block (sample_boot @ sample_record) 1 = sample_record"
  by (simp_all add: sample_boot_def block_def sub_bytes_def length_sample_record RecordSize_def)

lemma sample_located:
  assumes "script s = []" "source_image s = sample_boot @ sample_record" "wf_os s"
  shows "\<exists>found. locate_records {42} s = (Inr found, s) \<and> map_of found 42 = Some sample_record"
proof -
  obtain r s' where r: "locate_records {42} s = (r, s')" by (cases "locate_records {42} s")
  have "numbered 42 sample_record" using sample_number sample_fields by (simp add: numbered_def)
  then have "first_block (sample_boot @ sample_record) 2 42 = Some sample_record"
    using sample_boot_unnumbered sample_blocks by (simp add: first_block_def numeral_2_eq_2)
  then show ?thesis
    using locate_records_located [OF assms(3) r] r sample_blocks(1,2) assms(1,2) by (auto simp: located_def)
qed

lemma sample_log_with:
  assumes "open_database (ascii ''/d/x'') = (created, Inr db)" "set created \<subseteq> set (index_files (ascii ''/d/x''))"
    "db_by_record_id db 42 = Inr (Some root)" "db_children_of db 42 = Inr [sample_file_row]"
  shows "\<exists>s'. recover_run (\<lambda>s. sample_host) open_database arrange_children (sample_options False) sample_disk =
    (Inr \<lparr>recovered = 1, skipped = 0, preview_items = 1\<rparr>, [Locating 1, LogRecovered (ascii ''/d/ab''), LogDone 1 0], s')"
proof -
  obtain tree s0 where p: "prepared (\<lambda>s. sample_host) open_database arrange_children (sample_options False) sample_disk
     sample_source_object (ascii ''/d'') 1024 tree s0" "ts_items tree = [sample_item]" "sample_ready s0"
    using sample_prepared [of open_database, OF assms] by blast
  obtain s1 where s1: "ensure_safe_directory (\<lambda>s. sample_host) sample_source_object (ascii ''/d'') s0 = (Inr (), s1)"
     "script s1 = []" "source_image s1 = sample_boot @ sample_record" "wf_os s1"
     "node_at s1 (ascii ''/d'') = Some Directory" "entries s1 (ascii ''/d/ab'') = None"
     "entries s1 (ascii ''/d/ab'' @ partial_suffix) = None"
    using sample_directory_made [OF p(3)] by blast
  obtain found where l: "locate_records {42} s1 = (Inr found, s1)" "map_of found 42 = Some sample_record"
    using sample_located [OF s1(2-4)] by blast
  have t: "path_append (ascii ''/d'') [0x61, 0x62] = ascii ''/d/ab''" "parent_path (ascii ''/d/ab'') = ascii ''/d''"
    by (simp_all add: sample_paths path_append_def SLASH_def ascii_def parent_path_def root_path_def)
  let ?data = "\<lparr>da_resident = True, da_resident_data = [0x00, 0x7F, 0xFF], da_runs = [], da_real_size = 3\<rparr>"
  have "fst (with_atomic_file (ascii ''/d/ab'') False (recover_body ?data 1024) s1) = Inr True"
    using s1(2-7) by (subst with_atomic_file_calm) (simp_all add: available_def node_at_def stream_content_def
        sample_boot_def length_sample_record)
  then obtain s2 where "recover_file sample_file_row sample_record 1024 (ascii ''/d/ab'') False s1 = (Inr True, s2)"
    by (simp add: recover_file_def sample_data_attributes sample_file_row_def prod_eq_iff)
  then have "recover_item_step (\<lambda>s. sample_host) sample_source_object 1024 found (ascii ''/d'') False sample_item s1 = (Recovered, s2)"
    using ensure_existing [OF s1(2,5)] l(2)
    by (simp add: recover_item_step_def sample_item_def t Let_def sample_destination_valid)
      (simp add: sample_file_row_def)
  moreover have "wanted_files [sample_item] = {42}"
    by (simp add: wanted_files_def sample_item_def sample_file_row_def)
  ultimately have rc: "recover_collected (\<lambda>s. sample_host) (sample_options False) sample_source_object 1024 (ascii ''/d'') [sample_item] s0
     = (Inr \<lparr>recovered = 1, skipped = 0, preview_items = 1\<rparr>, [Locating 1, LogRecovered (ascii ''/d/ab''), LogDone 1 0], s2)"
    using s1(1) l(1) by (simp add: recover_collected_def sample_options_def Let_def) (simp add: sample_item_def t)
  show ?thesis using rc p(1,2) by (auto simp: recover_run_def prepared_def)
qed

lemma sample_log: "\<exists>s'. sample_run False =
  (Inr \<lparr>recovered = 1, skipped = 0, preview_items = 1\<rparr>, [Locating 1, LogRecovered (ascii ''/d/ab''), LogDone 1 0], s')"
  unfolding sample_run_def by (rule sample_log_with [where db = sample_database and root = sample_file_row and created = "[ascii ''/d/x'']"])
    (simp_all add: sample_database_def index_files_def)

section \<open>The properties of a run\<close>

lemma sample_content:
  assumes "first_block (source_image sample_disk) (length (source_image sample_disk) div RecordSize) n = Some mft"
    and "file_content (source_image sample_disk) (volume_cluster (source_image sample_disk)) mft = Some c"
  shows "c = [0x00, 0x7F, 0xFF]"
proof -
  have im: "source_image sample_disk = sample_boot @ sample_record" by (simp add: sample_disk_def)
  have "mft = sample_record" using assms(1) sample_boot_unnumbered unfolding im sample_blocks first_block_def
    by (auto simp: sample_blocks [unfolded One_nat_def] numeral_2_eq_2 split: if_splits)
  then show ?thesis using assms(2)
    by (auto simp: file_content_def sample_data_attributes stream_content_def)
qed

lemma recovered_line:
  assumes "LogRecovered p \<in> set (lines_of destination items outs)"
  shows "\<exists>item. (item, Recovered) \<in> set (zip items outs) \<and> p = item_target destination item"
proof -
  obtain item out where "(item, out) \<in> set (zip items outs)" "LogRecovered p \<in> set (outcome_lines (item_target destination item) out)"
    using assms by (auto simp: lines_of_def)
  then show ?thesis by (cases out) auto
qed

lemma not_recovered_elsewhere: "LogRecovered p \<notin> set (dry_run_log options destination items)"
  by (auto simp: dry_run_log_def)

text \<open>The path is the partial of a file the run has collected.\<close>

definition partial_of_item ::
  "(os \<Rightarrow> host) \<Rightarrow> (path \<Rightarrow> database index_opening) \<Rightarrow> (stored_record list \<Rightarrow> stored_record list) \<Rightarrow> recover_options
     \<Rightarrow> os \<Rightarrow> path \<Rightarrow> bool" where
  "partial_of_item hosted open_database arrange options s p \<longleftrightarrow>
     (\<exists>src destination cs tree s1 other. prepared hosted open_database arrange options s src destination cs tree s1
        \<and> other \<in> set (ts_items tree) \<and> \<not> sr_is_directory (ri_record other)
        \<and> p = item_target destination other @ partial_suffix)"

lemma recovered_targets:
  assumes "wf_os s" "recover_run hosted open_database arrange options s = (r, log, s')" "LogRecovered p \<in> set log"
    and "\<not> (opt_overwrite options \<and> partial_of_item hosted open_database arrange options s p)"
  shows "\<exists>src destination cs tree s1 item mft c j.
    prepared hosted open_database arrange options s src destination cs tree s1
    \<and> item \<in> set (ts_items tree) \<and> p = item_target destination item \<and> \<not> sr_is_directory (ri_record item)
    \<and> first_block (source_image s) (length (source_image s) div RecordSize) (sr_record_id_guess (ri_record item)) = Some mft
    \<and> file_content (source_image s) (volume_cluster (source_image s)) mft = Some c
    \<and> entries s' p = Some j \<and> nodes s' j = Some (Regular c)"
  using assms(1,2)
proof (cases rule: recover_run_cases)
  case (refused e)
  then show ?thesis using assms(3) by simp
next
  case (ready src destination cs tree s1)
  have cs: "unat cs = volume_cluster (source_image s)" by (rule prepared_cluster [OF assms(1) ready(1)])
  have im: "source_image s1 = source_image s" by (rule added_image [OF ready(3)])
  from ready(4,2) show ?thesis
  proof (cases rule: recover_collected_cases)
    case dry
    then show ?thesis using assms(3) not_recovered_elsewhere by simp
  next
    case (failed e)
    then show ?thesis using assms(3) by simp
  next
    case (ran s2 records outs)
    have w2: "wf_os s2" and im2: "source_image s2 = source_image s"
      using ran(2) [of "{}"] im by (simp_all add: lasting_def)
    have "LogRecovered p \<in> set (lines_of destination (ts_items tree) outs)" using assms(3) ran(6) by auto
    then obtain item where it: "(item, Recovered) \<in> set (zip (ts_items tree) outs)" "p = item_target destination item"
      using recovered_line by blast
    have "tree_ok tree" using ready(1) collect_tree_ok unfolding prepared_def by blast
    then have dt: "distinct (map (item_target destination) (ts_items tree))"
      using distinct_targets by (simp add: tree_ok_def)
    have apart: "item_target destination item \<noteq> item_target destination other @ partial_suffix"
      if "opt_overwrite options" "other \<in> set (ts_items tree)" "\<not> sr_is_directory (ri_record other)" for other
      using assms(4) ready(1) that it(2) unfolding partial_of_item_def by blast
    from outcomes_recovered [OF w2 ran(4) dt it(1) apart] obtain mft c j where
      m: "map_of records (sr_record_id_guess (ri_record item)) = Some mft"
        "file_content (source_image s) (unat cs) mft = Some c"
        "entries s' p = Some j" "nodes s' j = Some (Regular c)" "\<not> sr_is_directory (ri_record item)"
      unfolding im2 it(2) by blast
    moreover obtain i where "i \<le> length (source_image s) div RecordSize"
        "first_block (source_image s) i (sr_record_id_guess (ri_record item)) = Some mft"
      using ran(3) [of "sr_record_id_guess (ri_record item)"] m(1) im by auto
    then have "first_block (source_image s) (length (source_image s) div RecordSize)
        (sr_record_id_guess (ri_record item)) = Some mft" by (blast intro: first_block_mono)
    moreover have "item \<in> set (ts_items tree)" using it(1) by (rule set_zip_leftD)
    ultimately show ?thesis using ready(1) it(2) unfolding cs by blast
  qed
qed

text \<open>
  C2: what a run reports as recovered is there, and right. For every target the log names as recovered:
  the target belongs to an item collected from the index; at the end of the run it is a regular file
  whose content is the first \<open>$DATA\<close> stream, at the cluster size of the boot sector, of the first intact
  record of the volume that carries the item's number. This holds for any failing calls and for other
  processes that create files meanwhile; with the overwrite option, for a target that is not the partial
  of another collected file, which the run would remove.
\<close>

theorem recover_run_content:
  assumes "wf_os s" "recover_run hosted open_database arrange options s = (r, log, s')" "LogRecovered p \<in> set log"
    and "\<not> (opt_overwrite options \<and> partial_of_item hosted open_database arrange options s p)"
  shows "\<exists>src destination cs tree s1 item mft c j.
    prepared hosted open_database arrange options s src destination cs tree s1
    \<and> item \<in> set (ts_items tree) \<and> p = item_target destination item \<and> \<not> sr_is_directory (ri_record item)
    \<and> first_block (source_image s) (length (source_image s) div RecordSize) (sr_record_id_guess (ri_record item)) = Some mft
    \<and> file_content (source_image s) (volume_cluster (source_image s)) mft = Some c
    \<and> entries s' p = Some j \<and> nodes s' j = Some (Regular c)"
  by (rule recovered_targets [OF assms])

lemma recover_run_content_witness:
  "\<exists>s' j. sample_run False =
      (Inr \<lparr>recovered = 1, skipped = 0, preview_items = 1\<rparr>, [Locating 1, LogRecovered (ascii ''/d/ab''), LogDone 1 0], s')
    \<and> entries s' (ascii ''/d/ab'') = Some j \<and> nodes s' j = Some (Regular [0x00, 0x7F, 0xFF])"
proof -
  obtain s' where r: "sample_run False =
      (Inr \<lparr>recovered = 1, skipped = 0, preview_items = 1\<rparr>, [Locating 1, LogRecovered (ascii ''/d/ab''), LogDone 1 0], s')"
    using sample_log by blast
  have "\<not> opt_overwrite (sample_options False)" by (simp add: sample_options_def)
  with recover_run_content [OF wf_sample_disk r [unfolded sample_run_def], of "ascii ''/d/ab''"]
  obtain n mft c j where m: "first_block (source_image sample_disk) (length (source_image sample_disk) div RecordSize) n = Some mft"
      "file_content (source_image sample_disk) (volume_cluster (source_image sample_disk)) mft = Some c"
      "entries s' (ascii ''/d/ab'') = Some j" "nodes s' j = Some (Regular c)"
    by (metis list.set_intros)
  then show ?thesis using r sample_content by blast
qed

text \<open>
  C3: a run loses nothing. For any failing calls and any interference, every path that existed
  still names the same unchanged node at the end, whatever the outcome; with the overwrite option
  the targets of the collected files and their partials are excepted.
\<close>

theorem recover_run_preserves:
  assumes "wf_os s" "recover_run hosted open_database arrange options s = (r, log, s')" "entries s p = Some j"
    and "\<And>src destination cs tree s1. opt_overwrite options \<Longrightarrow>
      prepared hosted open_database arrange options s src destination cs tree s1 \<Longrightarrow> p \<notin> replaceable True destination (ts_items tree)"
  shows "entries s' p = Some j \<and> nodes s' j = nodes s j"
  using assms(1,2)
proof (cases rule: recover_run_cases)
  case (refused e)
  have "lasting {} s s'" by (rule added_lasting [OF refused(3,4)])
  from lasting_entry [OF this assms(1,3)] show ?thesis by simp
next
  case (ready src destination cs tree s1)
  let ?P = "replaceable (opt_overwrite options) destination (ts_items tree)"
  have p: "p \<notin> ?P" using assms(4) ready(1) by (cases "opt_overwrite options") (auto simp: replaceable_False)
  have 1: "lasting ?P s s1" by (rule added_lasting [OF ready(3,4)])
  from ready(4,2) have "lasting ?P s1 s'"
  proof (cases rule: recover_collected_cases)
    case dry
    then show ?thesis using ready(4) by (simp add: lasting_refl)
  next
    case (failed e)
    then show ?thesis by simp
  next
    case (ran s2 records outs)
    show ?thesis by (rule lasting_trans [OF ran(2) item_outcomes_lasting [OF lasting_wf [OF ran(2)] ran(4)]])
  qed
  from lasting_entry [OF lasting_trans [OF 1 this] assms(1,3) p] show ?thesis .
qed

lemma recover_run_preserves_witness:
  "entries (snd (snd (sample_run False))) [0x61] = Some 0"
  using recover_run_preserves [OF wf_sample_disk, of "\<lambda>s. sample_host" "\<lambda>p. ([p], Inr sample_database)" arrange_children
      "sample_options False" "fst (sample_run False)" "fst (snd (sample_run False))" "snd (snd (sample_run False))" "[0x61]" 0]
  by (simp add: sample_run_def sample_options_def sample_disk_def sample_os_def)

lemma above_not_within: "\<not> within_destination [[0x64]] [0x2F, 0x64, 0x2F, 0x2E, 0x2E, 0x2F, 0x67]"
proof
  let ?p = "[0x2F, 0x64, 0x2F, 0x2E, 0x2E, 0x2F, 0x67] :: path" and ?cs = "[[0x64], [0x2E, 0x2E], [0x67]] :: bytes list"
  have p: "?p = abs_path ?cs" by (simp add: abs_path_def SLASH_def)
  have pl: "\<forall>c \<in> set ?cs. plain c" by (simp add: plain_def SLASH_def)
  assume "within_destination [[0x64]] ?p"
  then consider i where "i \<le> 1" "abs_path ?cs = abs_path (take i [[0x64]])"
    | cs where "\<forall>c \<in> set cs. safe_component c" "abs_path ?cs = abs_path ([[0x64]] @ cs)"
    unfolding p within_destination_def by auto
  then show False
  proof cases
    case 1
    have "?cs = take i [[0x64]]" using 1(2) relative_components_abs [OF pl] relative_components_abs [of "take i [[0x64]]"]
      by (metis in_set_takeD list.set_intros(1) pl set_ConsD empty_iff empty_set)
    then show False by (cases i) simp_all
  next
    case 2
    have "\<forall>c \<in> set ([[0x64]] @ cs). plain c" using 2(1) safe_plain by (auto simp: plain_def SLASH_def)
    then have "?cs = [[0x64]] @ cs" using 2(2) relative_components_abs pl by metis
    then show False using 2(1) by (auto simp: safe_component_def DOT_def)
  qed
qed

text \<open>
  C4: a run writes only below its destination and next to its index. If the canonical destination is the
  absolute path \<open>ds\<close>, SQLite creates no file but the index and its side files, and no other process
  interferes, then every path that is new at the end is a prefix of the destination, or the destination
  followed by safe components, or one of the files of the validated index, whatever names the index holds.
\<close>

theorem recover_run_confined:
  assumes "wf_os s" "quiet s" "recover_run hosted open_database arrange options s = (r, log, s')"
    and "creates_index_files open_database"
    and "canonicalize (hosted s) (opt_destination options) DestinationRole = Inr (abs_path ds)"
    and "list_all plain ds"
    and "entries s' p \<noteq> None" "entries s p = None"
  shows "within_destination ds p \<or> p \<in> run_index_files hosted options s"
proof -
  let ?Q = "{p. within_destination ds p} \<union> run_index_files hosted options s"
  have ds: "\<forall>c \<in> set ds. plain c" using assms(6) by (simp add: list_all_iff)
  have idx: "run_creates hosted open_database options s \<subseteq> ?Q" using run_creates_index_files [OF assms(4)] by blast
  have "confined ?Q s s'"
    using assms(1,3)
  proof (cases rule: recover_run_cases)
    case (refused e)
    show ?thesis by (rule added_confined [OF refused(3) idx])
  next
    case (ready src destination cs tree s1)
    have d: "destination = abs_path ds"
      using ready(1) assms(5) by (auto simp: prepared_def accepted_destination)
    have 1: "confined ?Q s s1" by (rule added_confined [OF ready(3) idx])
    obtain idx where "collect_tree arrange idx (opt_root options) [] new_tree = Inr tree"
      using ready(1) unfolding prepared_def by blast
    then have "tree_ok tree" by (rule collect_tree_ok)
    then have "items_placed [] (ts_items tree)" by (simp add: tree_ok_def)
    then have items: "item_paths (abs_path ds) item \<subseteq> ?Q" if "item \<in> set (ts_items tree)" for item
      using placed_components [OF _ that] item_paths_within [OF ds] by blast
    have dirs: "directory_paths (abs_path ds) \<subseteq> ?Q"
      using directory_paths_abs [OF ds] by (auto simp: within_destination_def)
    show ?thesis
      by (rule confined_trans [OF 1 recover_collected_confined [OF ready(4,2) [unfolded d] dirs items]])
  qed
  then show ?thesis using assms(2,7,8) unfolding confined_def by blast
qed

lemma recover_run_confined_witness:
  "\<exists>s'. sample_run False =
      (Inr \<lparr>recovered = 1, skipped = 0, preview_items = 1\<rparr>, [Locating 1, LogRecovered (ascii ''/d/ab''), LogDone 1 0], s')
    \<and> entries s' [0x2F, 0x64, 0x2F, 0x2E, 0x2E, 0x2F, 0x67] = None"
proof -
  obtain s' where r: "sample_run False =
      (Inr \<lparr>recovered = 1, skipped = 0, preview_items = 1\<rparr>, [Locating 1, LogRecovered (ascii ''/d/ab''), LogDone 1 0], s')"
    using sample_log by blast
  let ?p = "[0x2F, 0x64, 0x2F, 0x2E, 0x2E, 0x2F, 0x67] :: path"
  have "canonicalize sample_host (opt_destination (sample_options False)) DestinationRole = Inr (abs_path [[0x64]])"
    by (simp add: sample_options_def sample_accepted) (simp add: sample_paths abs_path_def SLASH_def)
  moreover have "quiet sample_disk" by (simp add: quiet_def sample_disk_def sample_os_def)
  moreover have "list_all plain [[0x64]]" by (simp add: plain_def SLASH_def)
  moreover have "entries sample_disk ?p = None" by (simp add: sample_disk_def sample_os_def)
  moreover have "creates_index_files (\<lambda>p. ([p], Inr sample_database))" by (simp add: creates_index_files_def index_files_def)
  ultimately have "entries s' ?p \<noteq> None \<Longrightarrow>
      within_destination [[0x64]] ?p \<or> ?p \<in> run_index_files (\<lambda>s. sample_host) (sample_options False) sample_disk"
    using recover_run_confined [OF wf_sample_disk _ r [unfolded sample_run_def]] by blast
  moreover have "?p \<notin> run_index_files (\<lambda>s. sample_host) (sample_options False) sample_disk"
    by (simp add: sample_index_files) (simp add: index_files_def ascii_def)
  ultimately have "entries s' ?p = None" using above_not_within by blast
  then show ?thesis using r by blast
qed

text \<open>
  C5: the account of a run is exact. A run that ends without an exception and is not a dry run
  decides every collected item exactly once, in the order of collection; the log has one line per file
  recovered and one per item skipped, between the number of records looked for and the totals; the
  totals are the numbers of those lines and of the items.
\<close>

theorem recover_run_accounting:
  assumes "wf_os s" "recover_run hosted open_database arrange options s = (Inr stats, log, s')" "\<not> opt_dry_run options"
  shows "\<exists>src destination cs tree s1 outs.
    prepared hosted open_database arrange options s src destination cs tree s1
    \<and> length outs = length (ts_items tree)
    \<and> log = Locating (card (wanted_files (ts_items tree))) # lines_of destination (ts_items tree) outs
        @ [LogDone (recovered stats) (skipped stats)]
    \<and> recovered stats = of_nat (length (filter (\<lambda>out. out = Recovered) outs))
    \<and> skipped stats = of_nat (length (filter is_skip outs)) \<and> preview_items stats = of_nat (length (ts_items tree))"
  using assms(1,2)
proof (cases rule: recover_run_cases)
  case (ready src destination cs tree s1)
  from ready(4,2) show ?thesis
  proof (cases rule: recover_collected_cases)
    case (ran s2 records outs)
    show ?thesis using ready(1) item_outcomes_length [OF ran(4)] ran(5,6) by fastforce
  qed (use assms(3) in simp_all)
qed simp

lemma recover_run_accounting_witness:
  "\<exists>s' outs destination items. sample_run False =
      (Inr \<lparr>recovered = 1, skipped = 0, preview_items = 1\<rparr>, [Locating 1, LogRecovered (ascii ''/d/ab''), LogDone 1 0], s')
    \<and> length outs = length items \<and> lines_of destination items outs = [LogRecovered (ascii ''/d/ab'')]"
proof -
  obtain s' where r: "sample_run False =
      (Inr \<lparr>recovered = 1, skipped = 0, preview_items = 1\<rparr>, [Locating 1, LogRecovered (ascii ''/d/ab''), LogDone 1 0], s')"
    using sample_log by blast
  have "\<not> opt_dry_run (sample_options False)" by (simp add: sample_options_def)
  from recover_run_accounting [OF wf_sample_disk r [unfolded sample_run_def] this] obtain outs destination and tree :: tree_state where
    o: "length outs = length (ts_items tree)"
      "[Locating 1, LogRecovered (ascii ''/d/ab''), LogDone 1 0] = Locating (card (wanted_files (ts_items tree)))
         # lines_of destination (ts_items tree) outs @ [LogDone 1 0]"
    unfolding recover_stats.select_convs by blast
  from o(2) have "lines_of destination (ts_items tree) outs = [LogRecovered (ascii ''/d/ab'')]" by simp
  then show ?thesis using o(1) r by blast
qed

lemma dry_run_effect:
  assumes "wf_os s" "recover_run hosted open_database arrange options s = (r, log, s')" "opt_dry_run options"
    and "creates_index_files open_database"
  shows "added (run_index_files hosted options s) s s'
    \<and> (\<forall>stats. r \<noteq> Inr stats \<or> (\<exists>src destination cs tree s1.
          prepared hosted open_database arrange options s src destination cs tree s1
          \<and> stats = \<lparr>recovered = 0, skipped = 0, preview_items = of_nat (length (ts_items tree))\<rparr>
          \<and> log = dry_run_log options destination (ts_items tree)))"
  using assms(1,2)
proof (cases rule: recover_run_cases)
  case (refused e)
  then show ?thesis using added_mono [OF refused(3) run_creates_index_files [OF assms(4)]] by simp
next
  case (ready src destination cs tree s1)
  from ready(4,2) show ?thesis
  proof (cases rule: recover_collected_cases)
    case dry
    then show ?thesis using ready(1) added_mono [OF ready(3) run_creates_index_files [OF assms(4)]] by blast
  qed (use assms(3) in simp_all)
qed

text \<open>
  C6: a dry run recovers nothing. Whatever happens, every existing path names the same unchanged node, and
  the source and the open descriptors are as before; if SQLite creates no file but the index and its side
  files, then no path is new unless another process made it or it is a missing file of the validated
  index, which the opening creates empty. If the run does not fail, its counts of recovered and skipped
  files are zero and its log lists, in order, the targets a run would use.
\<close>

theorem dry_run_pure:
  assumes "wf_os s" "recover_run hosted open_database arrange options s = (r, log, s')" "opt_dry_run options"
    and "creates_index_files open_database"
  shows "(\<forall>p j. entries s p = Some j \<longrightarrow> entries s' p = Some j \<and> nodes s' j = nodes s j)
    \<and> descriptors s' = descriptors s \<and> source_image s' = source_image s
    \<and> (quiet s \<longrightarrow> (\<forall>p j. entries s' p = Some j \<and> entries s p = None \<longrightarrow>
          p \<in> run_index_files hosted options s \<and> nodes s' j = Some (Regular [])))
    \<and> (\<forall>stats. r \<noteq> Inr stats \<or> (\<exists>src destination cs tree s1.
          prepared hosted open_database arrange options s src destination cs tree s1
          \<and> stats = \<lparr>recovered = 0, skipped = 0, preview_items = of_nat (length (ts_items tree))\<rparr>
          \<and> log = dry_run_log options destination (ts_items tree)))"
proof -
  note effect = dry_run_effect [OF assms]
  have a: "added (run_index_files hosted options s) s s'" using effect by blast
  show ?thesis using effect added_old [OF a assms(1)] added_new [OF a] a
    by (auto simp: added_def grown_def)
qed

lemma dry_run_pure_witness:
  "entries (snd (snd (sample_run True))) (ascii ''/d/ab'') = None \<and> entries (snd (snd (sample_run True))) [0x61] = Some 0"
proof -
  have o: "opt_dry_run (sample_options True)" by (simp add: sample_options_def)
  have c: "creates_index_files (\<lambda>p. ([p], Inr sample_database))" by (simp add: creates_index_files_def index_files_def)
  obtain r log s' where r: "sample_run True = (r, log, s')" by (cases "sample_run True")
  note pure = dry_run_pure [OF wf_sample_disk r [unfolded sample_run_def] o c]
  have e: "entries sample_disk [0x61] = Some 0" "entries sample_disk (ascii ''/d/ab'') = None" "quiet sample_disk"
    by (simp_all add: sample_disk_def sample_os_def quiet_def ascii_def)
  have "entries s' (ascii ''/d/ab'') \<noteq> Some j" for j
    using pure e(2,3) sample_index_apart(2) unfolding sample_index_files by blast
  then have "entries s' (ascii ''/d/ab'') = None" by (meson not_None_eq)
  moreover have "entries s' [0x61] = Some 0" using pure e(1) by blast
  ultimately show ?thesis by (simp add: r)
qed

end
