(* ===== verification/IndexProperties.thy ===== *)
theory IndexProperties
  imports Scanner RunProperties
begin

text \<open>
  A small volume scanned and recovered, with a table in memory for SQLite, and the properties of the
  record index and the scanner, up to the composition of a scan with a recovery.
\<close>

section \<open>A scan of one block\<close>

definition scan_disk :: os where
  "scan_disk = sample_os []\<lparr>source_image := sample_record\<rparr>"

definition scan_sample_options :: scan_options where
  "scan_sample_options = \<lparr>so_source = ascii ''/i'', so_database = ascii ''/d/x'', so_target = Some [0x61, 0x62]\<rparr>"

definition scanned_row :: sql_row where
  "scanned_row = [IntegerValue 1, IntegerValue 42, IntegerValue 0, IntegerValue 42, TextValue [0x61, 0x62],
     IntegerValue 1, IntegerValue 0, IntegerValue 4096, IntegerValue 1234, IntegerValue 0]"

definition scanned_index :: "table_state connection" where
  "scanned_index = \<lparr>conn = \<lparr>tb_view = Some [scanned_row], tb_stored = Some [scanned_row], tb_active = False\<rparr>,
     insert_prepared = True\<rparr>"

lemma fill_loop_calm:
  assumes "script s = []"
  shows "\<exists>pos'. fill_loop [] pos s = (None, sub_bytes (source_image s) pos RecordSize, pos', s)"
proof -
  have r: "sys_read n p s = (Inr (sub_bytes (source_image s) p n), s)" for n p
    using assms by (simp add: sys_read_def syscall_calm)
  let ?d = "sub_bytes (source_image s) pos RecordSize"
  show ?thesis
  proof (cases "?d = []")
    case True
    then show ?thesis by (subst fill_loop.simps) (simp add: r RecordSize_pos)
  next
    case False
    have "\<exists>pos'. fill_loop ?d (pos + length ?d) s = (None, ?d, pos', s)"
    proof (cases "length ?d < RecordSize")
      case True
      then have "length (source_image s) \<le> pos + length ?d" by auto
      then have "sub_bytes (source_image s) (pos + length ?d) n = []" for n by (simp add: sub_bytes_def)
      then show ?thesis using True by (simp add: fill_loop.simps [of ?d] r del: length_sub_bytes)
    next
      case False
      then show ?thesis by (simp add: fill_loop.simps [of ?d] del: length_sub_bytes)
    qed
    then show ?thesis using False by (subst fill_loop.simps) (simp add: r RecordSize_pos del: length_sub_bytes)
  qed
qed

lemma sample_insert:
  "insert_record (reference_sqlite 10 10) \<lparr>mr_record_id_guess = 42, mr_offset = 0, mr_names = [sample_name]\<rparr> sample_name
     \<lparr>conn = \<lparr>tb_view = Some [], tb_stored = Some [], tb_active = True\<rparr>, insert_prepared = False\<rparr>
   = (Inr (), \<lparr>conn = \<lparr>tb_view = Some [scanned_row], tb_stored = Some [], tb_active = True\<rparr>, insert_prepared = True\<rparr>)"
  by (simp add: insert_record_def reference_sqlite_def check_sqlite_def SQLITE_OK_def SQLITE_DONE_def next_row_id_def
      changed_view_def bindings_def scanned_row_def sample_name_def c_string_def)

definition table_conn :: "sql_row list option \<Rightarrow> sql_row list option \<Rightarrow> bool \<Rightarrow> bool \<Rightarrow> table_state connection" where
  "table_conn v st a prep = \<lparr>conn = \<lparr>tb_view = v, tb_stored = st, tb_active = a\<rparr>, insert_prepared = prep\<rparr>"

lemma reference_statements:
  "snd (open_connection (reference_sqlite n m) p) = Inr (table_conn None None False False)"
  "initialize_index (reference_sqlite n m) (table_conn None None False prep) = (Inr (), table_conn (Some []) (Some []) False prep)"
  "begin_index (reference_sqlite n m) (table_conn v st a prep) = (Inr (), table_conn v st True prep)"
  "commit_index (reference_sqlite n m) (table_conn v st a prep) = (Inr (), table_conn v v False prep)"
  by (simp_all add: table_conn_def open_connection_def initialize_index_def initialize_sql_def begin_index_def commit_index_def
      exec_sql_def reference_sqlite_def executed_def begin_sql_def commit_sql_def create_table_sql_def changed_view_def)

text \<open>The state of a scan of the sample once its index is open.\<close>

definition indexed :: "os \<Rightarrow> os" where
  "indexed = create_missing (map (\<lambda>suffix. ascii ''/d/x'' @ suffix) [[], ascii ''-wal'', ascii ''-shm''])"

lemma reference_opening:
  "run_opening (open_connection (reference_sqlite n m) (ascii ''/d/x'')) s = (Inr (table_conn None None False False), indexed s)"
  using reference_statements(1) by (simp add: run_opening_def indexed_def) (simp add: open_connection_def reference_sqlite_def)

lemma indexed_fields: "script (indexed s) = script s" "source_image (indexed s) = source_image s"
  by (simp_all add: indexed_def)

lemma scan_started:
  assumes "source_size sample_host 3 (indexed s) = (n, pos, s1)"
    and "scan_loop (reference_sqlite k m) n (so_target scan_sample_options) 0 0 no_stats [Scanning n] (table_conn (Some []) (Some []) True False) pos s1
      = (r, log, d, s2)"
  shows "scan_run sample_host (reference_sqlite k m) scan_sample_options s =
    (case r of Inl e \<Rightarrow> (Inl e, log, Some d, s2)
     | Inr stats \<Rightarrow> (case commit_index (reference_sqlite k m) d of
         (Inl e, d4) \<Rightarrow> (Inl (ScanIndex e), log, Some d4, s2)
       | (Inr u, d4) \<Rightarrow> (Inr stats, log @ [ScanDone stats], Some d4, s2)))"
  using assms sample_source_opened sample_database_valid
  by (cases r) (auto simp: scan_run_def scan_sample_options_def reference_opening reference_statements sample_source_object_def
        split: prod.splits sum.splits)

lemma sample_source_size: "source_size sample_host fd s = (Some (of_nat (length (source_image s))), 0, s)"
  by (simp add: source_size_def sample_host_def image_info_def)

lemma sample_scan:
  "\<exists>log s'. scan_run sample_host (reference_sqlite 10 10) scan_sample_options scan_disk =
     (Inr \<lparr>bytes_scanned = 1024, candidate_file_signatures = 1, valid_records = 1, inserted_names = 1, target_matches = 1\<rparr>,
      log, Some scanned_index, s')"
proof -
  let ?sq = "reference_sqlite 10 10"
  let ?s = "indexed scan_disk"
  have im: "source_image ?s = sample_record" "script ?s = []" by (simp_all add: indexed_fields scan_disk_def sample_os_def)
  have magic: "take 4 sample_record = FILE_magic" by (simp add: sample_fields)
  obtain pos1 where f1: "fill_loop [] 0 ?s = (None, sample_record, pos1, ?s)"
    using fill_loop_calm [OF im(2), of 0] im by (auto simp: sub_bytes_zero length_sample_record RecordSize_def)
  have p1: "pos1 = 1024" using fill_loop_image [OF f1] by (simp add: length_sample_record RecordSize_def)
  obtain pos2 where f2: "fill_loop [] 1024 ?s = (None, [], pos2, ?s)"
    using fill_loop_calm [OF im(2), of 1024] im by (auto simp: sub_bytes_def length_sample_record)
  have blk: "scan_block ?sq (Some [0x61, 0x62]) 0 sample_record no_stats l (table_conn (Some []) (Some []) True False)
    = (Inr \<lparr>bytes_scanned = 0, candidate_file_signatures = 1, valid_records = 1, inserted_names = 1, target_matches = 1\<rparr>,
       l @ [MatchLine \<lparr>mr_record_id_guess = 42, mr_offset = 0, mr_names = [sample_name]\<rparr> sample_name],
       table_conn (Some [scanned_row]) (Some []) True True)" for l
    by (simp add: scan_block_def magic sample_parse sample_insert Let_def no_stats_def table_conn_def) (simp add: sample_name_def)
  obtain r log d s2 where l: "scan_loop ?sq (Some 1024) (Some [0x61, 0x62]) 0 0 no_stats [Scanning (Some 1024)]
      (table_conn (Some []) (Some []) True False) 0 ?s = (r, log, d, s2)" by (metis surj_pair)
  have "r = Inr \<lparr>bytes_scanned = 1024, candidate_file_signatures = 1, valid_records = 1, inserted_names = 1, target_matches = 1\<rparr>
      \<and> d = table_conn (Some [scanned_row]) (Some []) True True"
    using l by (simp add: scan_loop.simps f1 f2 p1 blk length_sample_record RecordSize_def Let_def)
  with scan_started [of scan_disk "Some 1024" 0 ?s 10 10 r log d s2] l show ?thesis
    by (simp add: sample_source_size im length_sample_record scan_sample_options_def reference_statements)
      (simp add: table_conn_def scanned_index_def)
qed

text \<open>The same scan with a first read that fails.\<close>

definition failing_disk :: os where
  "failing_disk = sample_os [\<lparr>racers = [], ruling = Fail (Errno 5)\<rparr>]\<lparr>source_image := sample_record\<rparr>"

lemma failing_scan:
  "\<exists>log s'. scan_run sample_host (reference_sqlite 10 10) scan_sample_options failing_disk =
     (Inl (ReadFailed 0 (Errno 5)), log, Some (table_conn (Some []) (Some []) False False), s')"
proof -
  let ?sq = "reference_sqlite 10 10" and ?s = "indexed failing_disk"
  let ?n = "Some (of_nat (length (source_image ?s))) :: u64 option"
  obtain s1 where f: "fill_loop [] 0 ?s = (Some (Errno 5), [], 0, s1)"
    using indexed_fields(1) [of failing_disk]
    by (simp add: fill_loop.simps sys_read_def syscall_def pop_def failing_disk_def sample_os_def RecordSize_pos)
  have "scan_loop ?sq ?n (so_target scan_sample_options) 0 0 no_stats [Scanning ?n] (table_conn (Some []) (Some []) True False) 0 ?s
      = (Inl (ReadFailed 0 (Errno 5)), [Scanning ?n], table_conn (Some []) (Some []) False False, s1)"
    by (simp add: scan_loop.simps f reference_statements)
  from scan_started [OF sample_source_size this] show ?thesis by auto
qed

section \<open>Properties\<close>

lemma parsed_names: "parse input off = Got (Some r) \<Longrightarrow> n \<in> set (mr_names r) \<Longrightarrow> wf_name n"
  by (erule parse_Some) (use name_item_wf in \<open>auto simp: map_filter_member got_Some\<close>)

lemma c_string_name: "0 \<notin> set t \<Longrightarrow> c_string t = t"
  unfolding c_string_def by (rule takeWhile_eq_all_conv [THEN iffD2]) auto

text \<open>
  What the parser finds survives the index. The row \<open>insert_record\<close> binds for a name of a parsed
  record reads back as exactly that name and record: the text unchanged, every number at its full
  width, through SQLite's signed 64-bit integers; for any behaviour of SQLite's own conversions.
\<close>

theorem index_row_roundtrip:
  assumes "parse input off = Got (Some record)" "name \<in> set (mr_names record)"
  shows "row_to_record sq (IntegerValue i # bindings record name) =
     \<lparr>sr_id = i, sr_record_id_guess = mr_record_id_guess record, sr_offset = off,
      sr_parent_ref = fn_parent_ref name, sr_name = fn_name name,
      sr_name_namespace = ucast (fn_namespace name), sr_flags = fn_flags name,
      sr_allocated_size = fn_allocated_size name, sr_real_size = fn_real_size name,
      sr_is_directory = fn_is_directory name\<rparr>"
proof -
  have "mr_offset record = off" using assms(1) by (rule parse_Some)
  moreover have "c_string (fn_name name) = fn_name name"
    using parsed_names [OF assms] by (intro c_string_name) (simp add: wf_name_def)
  ultimately show ?thesis by (simp add: index_row stored_as_def)
qed

lemma index_row_roundtrip_witness:
  "sr_name (row_to_record (reference_sqlite 0 0) (IntegerValue 7 # bindings
     \<lparr>mr_record_id_guess = 42, mr_offset = 0, mr_names = [sample_name]\<rparr> sample_name)) = [0x61, 0x62]"
  by (subst index_row_roundtrip [OF sample_parse]) (simp_all add: sample_name_def)

text \<open>
  C14: a scan that succeeds indexes exactly the volume. Through interrupted and short reads, the table
  in the file is then the one found before, followed by one row for every name of every block of
  the image that parses as a record, in the order of the image; the transaction is closed, and the
  final line and the returned counters count exactly those blocks, records and names.
\<close>

theorem scan_run_indexes:
  assumes "sqlite_documented sq state" "scan_run h sq options s = (Inr stats, log, Some d, s')"
    "length (source_image s) < 2 ^ 64" "\<And>fd. fst (snd (source_size h fd s)) = 0"
  shows "\<exists>p c N log1. sq_open sq p = Inr c \<and> N = length (source_image s) div RecordSize
    \<and> committed_names (rows_in (state c)) (names_between (source_image s) 0 N) (state (conn d))
    \<and> stats = counted (source_image s) (so_target options) 0 N no_stats \<and> log = log1 @ [ScanDone stats]"
  using scan_run_outcome [OF assms] by auto

lemma scan_offset: "fst (snd (source_size sample_host fd scan_disk)) = 0"
  by (simp add: source_size_def sample_host_def image_info_def)

lemma scan_run_indexes_witness:
  "committed_names [] (names_between sample_record 0 1) (conn scanned_index)"
proof -
  have im: "source_image scan_disk = sample_record" by (simp add: scan_disk_def)
  have l: "length (source_image scan_disk) < 2 ^ 64" by (simp add: im length_sample_record)
  obtain log s' where "scan_run sample_host (reference_sqlite 10 10) scan_sample_options scan_disk =
     (Inr \<lparr>bytes_scanned = 1024, candidate_file_signatures = 1, valid_records = 1, inserted_names = 1, target_matches = 1\<rparr>,
      log, Some scanned_index, s')" using sample_scan by blast
  from scan_run_indexes [OF reference_documented this l scan_offset] show ?thesis
    by (auto simp: im length_sample_record RecordSize_def reference_sqlite_def rows_in_def)
qed

text \<open>
  C15: a scan that fails leaves a whole index. If reading fails, the blocks before the failing
  one are committed, all of them and nothing else; if SQLite fails, the table in the file holds the
  rows it held before. The parser never makes a scan fail.
\<close>

theorem scan_run_failure:
  assumes "sqlite_documented sq state" "scan_run h sq options s = (Inl e, log, Some d, s')"
    "length (source_image s) < 2 ^ 64" "\<And>fd. fst (snd (source_size h fd s)) = 0"
  shows "\<exists>p c. sq_open sq p = Inr c
    \<and> ((\<exists>at err. e = ReadFailed at err \<and> unat at \<le> length (source_image s)
          \<and> committed_names (rows_in (state c)) (names_between (source_image s) 0 (unat at div RecordSize)) (state (conn d)))
      \<or> (\<exists>m. e = ScanIndex m \<and> (case tb_stored (state (conn d)) of None \<Rightarrow> [] | Some rows \<Rightarrow> rows) = rows_in (state c)))"
  using scan_run_outcome [OF assms] by auto

lemma scan_run_failure_witness:
  "committed_names [] (names_between sample_record 0 0) (conn (table_conn (Some []) (Some []) False False))"
proof -
  have im: "source_image failing_disk = sample_record" by (simp add: failing_disk_def)
  have l: "length (source_image failing_disk) < 2 ^ 64" by (simp add: im length_sample_record)
  have o: "fst (snd (source_size sample_host fd failing_disk)) = 0" for fd by (simp add: sample_source_size)
  obtain log s' where "scan_run sample_host (reference_sqlite 10 10) scan_sample_options failing_disk =
     (Inl (ReadFailed 0 (Errno 5)), log, Some (table_conn (Some []) (Some []) False False), s')"
    using failing_scan by blast
  from scan_run_failure [OF reference_documented this l o] show ?thesis
    by (auto simp: im reference_sqlite_def rows_in_def)
qed

lemma rows_for_row:
  "rows_for rows ps \<Longrightarrow> row \<in> set rows \<Longrightarrow> \<exists>i record name. (record, name) \<in> set ps \<and> row = IntegerValue i # bindings record name"
  unfolding rows_for_def by (induction rule: list_all2_induct) (simp, simp split: prod.splits, blast)

lemma rows_for_name:
  "rows_for rows ps \<Longrightarrow> (record, name) \<in> set ps \<Longrightarrow> \<exists>i. IntegerValue i # bindings record name \<in> set rows"
  unfolding rows_for_def by (induction rule: list_all2_induct) (auto 0 3)

lemma row_columns:
  "column (IntegerValue i # bindings record name) 1 = IntegerValue (mr_record_id_guess record)"
  "column (IntegerValue i # bindings record name) 3 = IntegerValue (fn_parent_ref name)"
  "column (IntegerValue i # bindings record name) 4 = TextValue (c_string (fn_name name))"
  "column (IntegerValue i # bindings record name) 5 = IntegerValue (ucast (fn_namespace name))"
  "column (IntegerValue i # bindings record name) 9 = IntegerValue (if fn_is_directory name then 1 else 0)"
  by (simp_all add: column_def bindings_def)

lemma children_answer: "select_answer rows children_sql arg = sort_key children_key (filter (\<lambda>r. column r 3 = arg) rows)"
  using select_distinct by (simp add: select_answer_def)

lemma children_rows:
  assumes "sqlite_documented sq state" "tb_view (state (conn d)) = Some rows" "children_of sq parent d = Inr cs"
  shows "\<exists>n. cs = take n (map (row_to_record sq) (sort_key children_key (filter (\<lambda>r. column r 3 = IntegerValue parent) rows)))
    \<and> (snd (sq_select sq children_sql [IntegerValue parent] (conn d)) = SQLITE_DONE \<longrightarrow>
         length (sort_key children_key (filter (\<lambda>r. column r 3 = IntegerValue parent) rows)) \<le> n)"
  using documented_select [OF assms(1,2) assms(3) [unfolded children_of_def]] by (auto simp: children_answer)

lemma answer_row:
  assumes "rows_for rows ps" "r \<in> set (sort_key f (filter (\<lambda>r. column r 3 = IntegerValue parent) rows))"
  shows "\<exists>i record name. (record, name) \<in> set ps \<and> fn_parent_ref name = parent \<and> r = IntegerValue i # bindings record name"
  using assms(2) rows_for_row [OF assms(1)] by (fastforce simp: row_columns)

lemma children_sound:
  assumes "sqlite_documented sq state" "tb_view (state (conn d)) = Some rows" "rows_for rows ps"
    "children_of sq parent d = Inr cs" "c \<in> set cs"
  shows "\<exists>i record name. (record, name) \<in> set ps \<and> fn_parent_ref name = parent \<and> c = stored_as i record name"
proof -
  obtain n where "cs = take n (map (row_to_record sq) (sort_key children_key (filter (\<lambda>r. column r 3 = IntegerValue parent) rows)))"
    using children_rows [OF assms(1,2,4)] by blast
  then obtain r where "r \<in> set (sort_key children_key (filter (\<lambda>r. column r 3 = IntegerValue parent) rows))"
      "c = row_to_record sq r" using assms(5) by (auto dest!: in_set_takeD)
  then show ?thesis using answer_row [OF assms(3)] index_row by metis
qed

text \<open>
  C16: a query for the children of a directory is faithful to the indexed names. Over a table that
  holds a row for each of \<open>ps\<close>, every record returned is one of the names with that parent; if SQLite
  ended the query with \<open>SQLITE_DONE\<close>, every such name is returned, as often as it was inserted;
  directories come before files.
\<close>

theorem children_of_indexed:
  assumes "sqlite_documented sq state" "tb_view (state (conn d)) = Some rows" "rows_for rows ps"
    "children_of sq parent d = Inr cs"
  shows "set cs \<subseteq> {stored_as i record name | i record name. (record, name) \<in> set ps \<and> fn_parent_ref name = parent}
    \<and> sorted_wrt (\<lambda>x y. \<not> sr_is_directory y \<or> sr_is_directory x) cs
    \<and> (snd (sq_select sq children_sql [IntegerValue parent] (conn d)) = SQLITE_DONE \<longrightarrow>
         length cs = length (filter (\<lambda>(record, name). fn_parent_ref name = parent) ps)
         \<and> (\<forall>(record, name) \<in> set ps. fn_parent_ref name = parent \<longrightarrow> (\<exists>i. stored_as i record name \<in> set cs)))"
proof -
  let ?answer = "sort_key children_key (filter (\<lambda>r. column r 3 = IntegerValue parent) rows)"
  obtain n where n: "cs = take n (map (row_to_record sq) ?answer)"
    "snd (sq_select sq children_sql [IntegerValue parent] (conn d)) = SQLITE_DONE \<longrightarrow> length ?answer \<le> n"
    using children_rows [OF assms(1,2,4)] by blast
  note row = answer_row [OF assms(3), where f = children_key and parent = parent]
  have sub: "set cs \<subseteq> {stored_as i record name | i record name. (record, name) \<in> set ps \<and> fn_parent_ref name = parent}"
    using children_sound [OF assms] by blast
  have "sorted (map children_key ?answer)" by simp
  then have "sorted_wrt (\<lambda>x y. children_key x \<le> children_key y) ?answer" by (simp add: sorted_wrt_map)
  then have "sorted_wrt (\<lambda>x y. \<not> sr_is_directory (row_to_record sq y) \<or> sr_is_directory (row_to_record sq x)) ?answer"
  proof (rule sorted_wrt_mono_rel [rotated])
    fix x y assume "x \<in> set ?answer" "y \<in> set ?answer" "children_key x \<le> children_key y"
    then show "\<not> sr_is_directory (row_to_record sq y) \<or> sr_is_directory (row_to_record sq x)"
      using row [of x] row [of y]
      by (auto simp: index_row stored_as_def children_key_def row_columns integer_of_def less_eq_prod_def split: if_splits)
  qed
  then have sorted: "sorted_wrt (\<lambda>x y. \<not> sr_is_directory y \<or> sr_is_directory x) cs"
    unfolding n(1) take_map sorted_wrt_map by (rule sorted_wrt_take)
  have all: "length cs = length (filter (\<lambda>(record, name). fn_parent_ref name = parent) ps)
         \<and> (\<forall>(record, name) \<in> set ps. fn_parent_ref name = parent \<longrightarrow> (\<exists>i. stored_as i record name \<in> set cs))"
    if "length ?answer \<le> n"
  proof -
    have cs: "cs = map (row_to_record sq) ?answer" using n(1) that by simp
    have "length (filter (\<lambda>r. column r 3 = IntegerValue parent) rows)
        = length (filter (\<lambda>(record, name). fn_parent_ref name = parent) ps)"
      using assms(3) unfolding rows_for_def
      by (induction rule: list_all2_induct) (auto simp: row_columns)
    moreover have "\<exists>i. stored_as i mr name \<in> set cs" if h: "(mr, name) \<in> set ps" "fn_parent_ref name = parent" for mr name
    proof -
      obtain i where "IntegerValue i # bindings mr name \<in> set rows" using rows_for_name [OF assms(3) h(1)] by blast
      then have "IntegerValue i # bindings mr name \<in> set ?answer" using h(2) by (simp add: row_columns)
      then have "row_to_record sq (IntegerValue i # bindings mr name) \<in> set cs" unfolding cs by (simp only: set_map imageI)
      then show ?thesis unfolding index_row by blast
    qed
    ultimately show ?thesis by (auto simp: cs)
  qed
  show ?thesis using sub sorted all n(2) by blast
qed

lemma scanned_rows:
  "rows_for [scanned_row] [(\<lparr>mr_record_id_guess = 42, mr_offset = 0, mr_names = [sample_name]\<rparr>, sample_name)]"
  by (simp add: rows_for_def bindings_def scanned_row_def sample_name_def c_string_def)

lemma reference_select:
  "sq_prepare (reference_sqlite n m) sql c = (if tb_view c = None then 1 else SQLITE_OK)"
  "sq_select (reference_sqlite n m) sql [arg] c =
     (let answer = select_answer (case tb_view c of None \<Rightarrow> [] | Some rows \<Rightarrow> rows) sql arg
      in (take n answer, if length answer \<le> n then SQLITE_DONE else 10))"
  by (simp_all add: reference_sqlite_def)

lemma scanned_children:
  "children_of (reference_sqlite n 10) 42 scanned_index = Inr (map (row_to_record (reference_sqlite n 10)) (take n [scanned_row]))"
  "snd (sq_select (reference_sqlite n 10) children_sql [IntegerValue 42] (conn scanned_index)) = (if n = 0 then 10 else SQLITE_DONE)"
proof -
  have a: "select_answer [scanned_row] children_sql (IntegerValue 42) = [scanned_row]"
    by (simp add: children_answer scanned_row_def column_def)
  have v: "tb_view (conn scanned_index) = Some [scanned_row]" by (simp add: scanned_index_def)
  show "children_of (reference_sqlite n 10) 42 scanned_index = Inr (map (row_to_record (reference_sqlite n 10)) (take n [scanned_row]))"
    by (simp add: children_of_def select_rows_def check_sqlite_def reference_select v a Let_def)
  show "snd (sq_select (reference_sqlite n 10) children_sql [IntegerValue 42] (conn scanned_index)) = (if n = 0 then 10 else SQLITE_DONE)"
    by (simp add: reference_select v a Let_def)
qed

lemma children_of_indexed_witness:
  "\<exists>cs i. children_of (reference_sqlite 10 10) 42 scanned_index = Inr cs \<and> length cs = 1
     \<and> stored_as i \<lparr>mr_record_id_guess = 42, mr_offset = 0, mr_names = [sample_name]\<rparr> sample_name \<in> set cs"
proof -
  have v: "tb_view (conn scanned_index) = Some [scanned_row]" by (simp add: scanned_index_def)
  have p: "fn_parent_ref sample_name = 42" by (simp add: sample_name_def)
  let ?cs = "map (row_to_record (reference_sqlite 10 10)) (take 10 [scanned_row])"
  from children_of_indexed [OF reference_documented [where n = 10] v scanned_rows scanned_children(1)]
  have "\<exists>i. stored_as i \<lparr>mr_record_id_guess = 42, mr_offset = 0, mr_names = [sample_name]\<rparr> sample_name \<in> set ?cs"
    using p by (simp add: scanned_children)
  then show ?thesis using scanned_children(1) [of 10] by (intro exI [of _ ?cs]) auto
qed

lemma reference_rows:
  assumes "tb_view (conn d) = Some rows"
  shows "select_rows (reference_sqlite k m) sql action arg d
      = Inr (map (row_to_record (reference_sqlite k m)) (take k (select_answer rows sql arg)))"
    "select_row (reference_sqlite k m) sql action arg d
      = Inr (case take k (select_answer rows sql arg) of [] \<Rightarrow> None | row # rest \<Rightarrow> Some (row_to_record (reference_sqlite k m) row))"
    "snd (sq_select (reference_sqlite k m) sql [arg] (conn d)) = SQLITE_DONE \<longleftrightarrow> length (select_answer rows sql arg) \<le> k"
  by (simp_all add: select_rows_def select_row_def check_sqlite_def reference_select assms SQLITE_DONE_def Let_def split: list.split)

lemma select_ignores_end:
  assumes "sq_prepare sq sql (conn d) = SQLITE_OK"
  shows "select_rows sq sql action arg d = Inr (map (row_to_record sq) (fst (sq_select sq sql [arg] (conn d))))"
    "select_row sq sql action arg d =
       Inr (case fst (sq_select sq sql [arg] (conn d)) of [] \<Rightarrow> None | row # rest \<Rightarrow> Some (row_to_record sq row))"
  using assms by (simp_all add: select_rows_def select_row_def check_sqlite_def split: prod.split list.split)

text \<open>
  C17: an error of SQLite while a query runs is not noticed. For any SQLite whose prepare succeeds, the
  queries return normally, with the rows read so far, whatever the code of the step that ended them. And
  for every table and every number \<open>k\<close> of rows there is a documented SQLite whose queries with more than
  \<open>k\<close> rows end with an error: then \<open>children_of\<close> and \<open>find_by_name\<close> return the first \<open>k\<close> records of
  the answer only, and with \<open>k = 0\<close> \<open>get_by_record_id\<close> finds nothing.
\<close>

theorem select_error_unnoticed:
  assumes "tb_view (conn d) = Some rows"
    and "sq_prepare sq children_sql (conn e) = SQLITE_OK" "sq_prepare sq find_sql (conn e) = SQLITE_OK"
  shows "children_of sq parent e = Inr (map (row_to_record sq) (fst (sq_select sq children_sql [IntegerValue parent] (conn e))))
    \<and> find_by_name sq name e = Inr (map (row_to_record sq) (fst (sq_select sq find_sql [TextValue (c_string name)] (conn e))))
    \<and> (let failing = reference_sqlite k m; children = select_answer rows children_sql (IntegerValue parent);
           found = select_answer rows find_sql (TextValue (c_string name));
           best = select_answer rows get_by_record_sql (IntegerValue number)
       in sqlite_documented failing (\<lambda>c. c)
        \<and> (snd (sq_select failing children_sql [IntegerValue parent] (conn d)) = SQLITE_DONE \<longleftrightarrow> length children \<le> k)
        \<and> (snd (sq_select failing find_sql [TextValue (c_string name)] (conn d)) = SQLITE_DONE \<longleftrightarrow> length found \<le> k)
        \<and> (snd (sq_select failing get_by_record_sql [IntegerValue number] (conn d)) = SQLITE_DONE \<longleftrightarrow> length best \<le> k)
        \<and> children_of failing parent d = Inr (map (row_to_record failing) (take k children))
        \<and> find_by_name failing name d = Inr (map (row_to_record failing) (take k found))
        \<and> get_by_record_id failing number d
            = Inr (case take k best of [] \<Rightarrow> None | row # rest \<Rightarrow> Some (row_to_record failing row)))"
  using reference_rows [OF assms(1), of k m] select_ignores_end [OF assms(2)] select_ignores_end [OF assms(3)]
    reference_documented [of k m]
  unfolding Let_def children_of_def find_by_name_def get_by_record_id_def by blast

lemma select_error_unnoticed_witness:
  "snd (sq_select (reference_sqlite 0 10) children_sql [IntegerValue 42] (conn scanned_index)) \<noteq> SQLITE_DONE
   \<and> children_of (reference_sqlite 0 10) 42 scanned_index = Inr []
   \<and> children_of (reference_sqlite 1 10) 42 scanned_index = Inr (map (row_to_record (reference_sqlite 1 10)) [scanned_row])"
proof -
  have v: "tb_view (conn scanned_index) = Some [scanned_row]" by (simp add: scanned_index_def)
  have p: "sq_prepare (reference_sqlite 0 10) sql (conn scanned_index) = SQLITE_OK" for sql by (simp add: reference_select v)
  have a: "select_answer [scanned_row] children_sql (IntegerValue 42) = [scanned_row]"
    by (simp add: children_answer scanned_row_def column_def)
  note at = select_error_unnoticed [OF v p p, where parent = 42 and m = 10, unfolded a Let_def]
  show ?thesis using at [where k = 0] at [where k = 1] by simp
qed

section \<open>From the scan to the recovered file\<close>

lemma names_between_block:
  "(record, name) \<in> set (names_between img i j) \<Longrightarrow>
     \<exists>k. i \<le> k \<and> k < j \<and> parse (block img k) (of_nat (k * RecordSize)) = Got (Some record) \<and> name \<in> set (mr_names record)"
  by (fastforce simp: names_between_def block_names_def split: access.splits option.splits)

text \<open>
  The directories of a volume, by its records alone: the number of a directory and the sanitized names
  that lead to it from the root.
\<close>

inductive volume_directory :: "bytes \<Rightarrow> u64 \<Rightarrow> u64 \<Rightarrow> bytes list \<Rightarrow> bool" for img root where
  volume_root: "volume_directory img root root []"
| volume_child: "volume_directory img root (fn_parent_ref name) ds \<Longrightarrow> fn_is_directory name \<Longrightarrow>
    (record, name) \<in> set (names_between img 0 (length img div RecordSize)) \<Longrightarrow>
    volume_directory img root (mr_record_id_guess record) (ds @ [sanitize_name (fn_name name)])"

lemma indexed_name: "(record, name) \<in> set (names_between img i j) \<Longrightarrow> c_string (fn_name name) = fn_name name"
  using names_between_block parsed_names by (blast intro: c_string_name dest: wf_name_def [THEN iffD1])

lemma volume_directory_index:
  assumes "\<And>parent cs c. idx parent = Inr cs \<Longrightarrow> c \<in> set cs \<Longrightarrow>
      \<exists>i record name. (record, name) \<in> set (names_between img 0 (length img div RecordSize))
        \<and> fn_parent_ref name = parent \<and> c = stored_as i record name"
    and "directory_at arrange_children idx root d ss"
  shows "volume_directory img root d ss"
  using assms(2)
proof (induction rule: directory_at.induct)
  case at_root
  show ?case by (rule volume_root)
next
  case (at_child d ss cs c)
  have "c \<in> set cs" using at_child.hyps(3) children.dedup_sound by blast
  then obtain i mr name where n: "(mr, name) \<in> set (names_between img 0 (length img div RecordSize))"
      "fn_parent_ref name = d" "c = stored_as i mr name" using assms(1) [OF at_child.hyps(2)] by blast
  have "volume_directory img root (mr_record_id_guess mr) (ss @ [sanitize_name (fn_name name)])"
    by (rule volume_child) (use n at_child.IH at_child.hyps(4) in \<open>simp_all add: stored_as_def\<close>)
  then show ?case using n(3) indexed_name [OF n(1)] by (simp add: stored_as_def)
qed

text \<open>
  C1: from the volume to the recovered file. Let the index hold what a scan of the volume stores, for any
  documented SQLite, and let a run recover from the same volume, with any failures and interference.
  Then every file it reports as recovered stems from the volume alone: some block parses as a record with
  a name; that name's parent is a directory below the root of the recovery; the file's path is the
  destination, the sanitized names that lead from the root to that directory, and the sanitized name; and
  the file holds exactly the content of the first block with that record's number. With the overwrite
  option this is for a path that is not the partial of another collected file.
\<close>

theorem scan_then_recover:
  assumes "sqlite_documented sq state"
    and "\<And>p c. sq_open sq p = Inr c \<Longrightarrow> \<exists>rows. tb_view (state c) = Some rows
           \<and> rows_for rows (names_between (source_image s) 0 (length (source_image s) div RecordSize))"
    and "wf_os s" "recover_run hosted (opened_index sq) arrange_children options s = (r, log, s')" "LogRecovered p \<in> set log"
    and "\<not> (opt_overwrite options \<and> partial_of_item hosted (opened_index sq) arrange_children options s p)"
  shows "\<exists>src destination cs tree s1 item k record name i ds mft c j.
    prepared hosted (opened_index sq) arrange_children options s src destination cs tree s1 \<and> item \<in> set (ts_items tree)
    \<and> parse (block (source_image s) k) (of_nat (k * RecordSize)) = Got (Some record) \<and> name \<in> set (mr_names record)
    \<and> \<not> fn_is_directory name \<and> ri_record item = stored_as i record name
    \<and> volume_directory (source_image s) (opt_root options) (fn_parent_ref name) ds
    \<and> p = path_append destination (join_slash (ds @ [sanitize_name (fn_name name)]))
    \<and> first_block (source_image s) (length (source_image s) div RecordSize) (mr_record_id_guess record) = Some mft
    \<and> file_content (source_image s) (volume_cluster (source_image s)) mft = Some c
    \<and> entries s' p = Some j \<and> nodes s' j = Some (Regular c)"
proof -
  let ?img = "source_image s"
  obtain src destination cs tree s1 item mft c j where
    run: "prepared hosted (opened_index sq) arrange_children options s src destination cs tree s1"
      "item \<in> set (ts_items tree)" "p = item_target destination item" "\<not> sr_is_directory (ri_record item)"
      "first_block ?img (length ?img div RecordSize) (sr_record_id_guess (ri_record item)) = Some mft"
      "file_content ?img (volume_cluster ?img) mft = Some c" "entries s' p = Some j" "nodes s' j = Some (Regular c)"
    using recovered_targets [OF assms(3-6)] by blast
  obtain q db s0 where db: "run_opening (opened_index sq q) s = (Inr db, s0)"
      "collect_tree arrange_children (db_children_of db) (opt_root options) [] new_tree = Inr tree"
    using run(1) unfolding prepared_def by blast
  obtain d where d: "snd (open_connection sq q) = Inr d" "db_children_of db = (\<lambda>parent. children_of sq parent d)"
    using db(1) by (auto simp: run_opening_def opened_index_def split: sum.splits prod.splits)
  have "sq_open sq q = Inr (conn d)" using d(1) by (auto simp: open_connection_def split: sum.splits)
  then obtain rows where rows: "tb_view (state (conn d)) = Some rows"
      "rows_for rows (names_between ?img 0 (length ?img div RecordSize))" using assms(2) by blast
  have idx: "\<exists>i record name. (record, name) \<in> set (names_between ?img 0 (length ?img div RecordSize))
      \<and> fn_parent_ref name = parent \<and> x = stored_as i record name"
    if "db_children_of db parent = Inr children" "x \<in> set children" for parent children x
    using children_sound [OF assms(1) rows] that unfolding d(2) by blast
  obtain parent ds children where at: "directory_at arrange_children (db_children_of db) (opt_root options) parent ds"
      "db_children_of db parent = Inr children" "ri_record item \<in> set (dedup_children arrange_children children)"
      "ri_relative_path item = join_slash (ds @ [sanitize_name (sr_name (ri_record item))])"
    using collect_tree_at [OF db(2) run(2)] unfolding item_at_def by blast
  have "ri_record item \<in> set children" using at(3) children.dedup_sound by blast
  then obtain i mr name where it: "(mr, name) \<in> set (names_between ?img 0 (length ?img div RecordSize))"
      "fn_parent_ref name = parent" "ri_record item = stored_as i mr name" using idx [OF at(2)] by blast
  obtain k where k: "parse (block ?img k) (of_nat (k * RecordSize)) = Got (Some mr)" "name \<in> set (mr_names mr)"
    using names_between_block [OF it(1)] by blast
  have v: "volume_directory ?img (opt_root options) (fn_parent_ref name) ds"
    unfolding it(2) by (rule volume_directory_index [OF _ at(1)]) (rule idx)
  have p: "p = path_append destination (join_slash (ds @ [sanitize_name (fn_name name)]))"
    using run(3) at(4) it(3) indexed_name [OF it(1)] by (simp add: item_target_def stored_as_def)
  have f: "first_block ?img (length ?img div RecordSize) (mr_record_id_guess mr) = Some mft" "\<not> fn_is_directory name"
    using run(4,5) it(3) by (simp_all add: stored_as_def)
  show ?thesis using run(1,2) k f(2) it(3) v p f(1) run(6-8) by blast
qed

text \<open>A SQLite that opens on the table the scan of the sample volume leaves.\<close>

definition volume_record :: mft_record where
  "volume_record = \<lparr>mr_record_id_guess = 42, mr_offset = 1024, mr_names = [sample_name]\<rparr>"

definition volume_table :: table_state where
  "volume_table = \<lparr>tb_view = Some [IntegerValue 1 # bindings volume_record sample_name],
     tb_stored = Some [IntegerValue 1 # bindings volume_record sample_name], tb_active = False\<rparr>"

definition volume_sqlite :: "table_state sqlite" where
  "volume_sqlite = (reference_sqlite 10 10)\<lparr>sq_open := (\<lambda>p. Inr volume_table)\<rparr>"

lemma volume_documented: "sqlite_documented volume_sqlite (\<lambda>c. c)"
proof -
  have s: "sq_select volume_sqlite = sq_select (reference_sqlite 10 10)" "sq_insert volume_sqlite = sq_insert (reference_sqlite 10 10)"
    "sq_exec volume_sqlite = sq_exec (reference_sqlite 10 10)"
    by (simp_all add: volume_sqlite_def)
  show ?thesis unfolding sqlite_documented_def s
    by (rule conjI [OF _ conjunct2 [OF reference_documented [unfolded sqlite_documented_def]]])
      (simp add: volume_sqlite_def volume_table_def)
qed

lemma volume_names: "names_between (source_image sample_disk) 0 2 = [(volume_record, sample_name)]"
proof -
  have im: "source_image sample_disk = sample_boot @ sample_record" by (simp add: sample_disk_def)
  have "hd (take 4 sample_boot) = 0" "hd FILE_magic = 0x46"
    by (simp_all add: sample_boot_def zeros_def FILE_magic_def hd_append)
  then have "hd (take 4 sample_boot) \<noteq> hd FILE_magic" by simp
  then have "take 4 sample_boot \<noteq> FILE_magic" by metis
  then have "parse sample_boot 0 = Got None" by (simp add: parse_def)
  moreover have "[0..<2] = [0, 1 :: nat]" by (simp add: upt_rec)
  ultimately show ?thesis
    by (simp add: names_between_def block_names_def im sample_blocks sample_blocks [unfolded One_nat_def] sample_parse volume_record_def RecordSize_def)
qed

lemma volume_index:
  "\<exists>db. opened_index volume_sqlite p = ([p, p @ ascii ''-wal'', p @ ascii ''-shm''], Inr db) \<and> db_by_record_id db 42 = Inr (Some sample_file_row)
     \<and> db_children_of db 42 = Inr [sample_file_row]"
proof -
  let ?row = "IntegerValue 1 # bindings volume_record sample_name"
  have r: "row_to_record sq ?row = sample_file_row" for sq :: "table_state sqlite"
    by (simp add: index_row stored_as_def volume_record_def sample_name_def sample_file_row_def c_string_def)
  have s: "sq_select volume_sqlite = sq_select (reference_sqlite 10 10)" "sq_prepare volume_sqlite = sq_prepare (reference_sqlite 10 10)"
    "sq_open volume_sqlite = (\<lambda>p. Inr volume_table)" "sq_creates volume_sqlite p = [p, p @ ascii ''-wal'', p @ ascii ''-shm'']"
    by (simp_all add: volume_sqlite_def reference_sqlite_def)
  have a: "select_answer [?row] children_sql (IntegerValue 42) = [?row]"
    "select_answer [?row] get_by_record_sql (IntegerValue 42) = [?row]"
    using select_distinct by (simp_all add: select_answer_def column_def bindings_def volume_record_def sample_name_def)
  show ?thesis
    by (simp add: opened_index_def open_connection_def s children_of_def get_by_record_id_def select_rows_def select_row_def
        check_sqlite_def reference_select volume_table_def a r Let_def)
qed

lemma volume_creates: "set [p, p @ ascii ''-wal'', p @ ascii ''-shm''] \<subseteq> set (index_files p)"
  by (simp add: index_files_def)

lemma scan_then_recover_witness:
  "\<exists>s' j. recover_run (\<lambda>s. sample_host) (opened_index volume_sqlite) arrange_children (sample_options False) sample_disk =
      (Inr \<lparr>recovered = 1, skipped = 0, preview_items = 1\<rparr>, [Locating 1, LogRecovered (ascii ''/d/ab''), LogDone 1 0], s')
    \<and> entries s' (ascii ''/d/ab'') = Some j \<and> nodes s' j = Some (Regular [0x00, 0x7F, 0xFF])"
proof -
  obtain db where db: "opened_index volume_sqlite (ascii ''/d/x'')
        = ([ascii ''/d/x'', ascii ''/d/x'' @ ascii ''-wal'', ascii ''/d/x'' @ ascii ''-shm''], Inr db)"
      "db_by_record_id db 42 = Inr (Some sample_file_row)" "db_children_of db 42 = Inr [sample_file_row]"
    using volume_index by blast
  obtain s' where r: "recover_run (\<lambda>s. sample_host) (opened_index volume_sqlite) arrange_children (sample_options False) sample_disk =
      (Inr \<lparr>recovered = 1, skipped = 0, preview_items = 1\<rparr>, [Locating 1, LogRecovered (ascii ''/d/ab''), LogDone 1 0], s')"
    using sample_log_with [of "opened_index volume_sqlite", OF db(1) volume_creates db(2,3)] by blast
  have n: "length (source_image sample_disk) div RecordSize = 2" using sample_blocks(1) by (simp add: sample_disk_def)
  have "\<exists>rows. tb_view c = Some rows
      \<and> rows_for rows (names_between (source_image sample_disk) 0 (length (source_image sample_disk) div RecordSize))"
    if "sq_open volume_sqlite p = Inr c" for p c
    using that unfolding n volume_names by (auto simp: volume_sqlite_def volume_table_def rows_for_def)
  moreover have "\<not> opt_overwrite (sample_options False)" by (simp add: sample_options_def)
  moreover have "LogRecovered (ascii ''/d/ab'') \<in> set [Locating 1, LogRecovered (ascii ''/d/ab''), LogDone 1 0]" by simp
  ultimately obtain n mft c j where
    m: "first_block (source_image sample_disk) (length (source_image sample_disk) div RecordSize) n = Some mft"
      "file_content (source_image sample_disk) (volume_cluster (source_image sample_disk)) mft = Some c"
      "entries s' (ascii ''/d/ab'') = Some j" "nodes s' j = Some (Regular c)"
    using scan_then_recover [OF volume_documented _ wf_sample_disk r, of "ascii ''/d/ab''"] by blast
  then show ?thesis using r sample_content [OF m(1,2)] by blast
qed

end
