(* ===== verification/CommandLine.thy ===== *)
theory CommandLine
  imports LogText IndexProperties
begin

text \<open>
  The commands of \<open>src/main.cpp\<close> after their options are parsed: what each prints, the error reported
  and the exit status. The interactive command is the machine of \<open>TuiMachine\<close>.
\<close>

section \<open>Printed records\<close>

definition stored_record_line :: "stored_record \<Rightarrow> bytes" where
  "stored_record_line r =
     ascii ''id='' @ signed_decimal (sint (sr_id r))
     @ ascii '' record_id_guess='' @ decimal (unat (sr_record_id_guess r))
     @ ascii '' offset='' @ decimal (unat (sr_offset r))
     @ ascii '' parent_ref='' @ decimal (unat (sr_parent_ref r))
     @ ascii '' name='' @ [QUOTE] @ sr_name r @ [QUOTE]
     @ ascii '' ns='' @ signed_decimal (sint (sr_name_namespace r))
     @ ascii '' dir='' @ (if sr_is_directory r then ascii ''1'' else ascii ''0'')
     @ ascii '' alloc='' @ decimal (unat (sr_allocated_size r))
     @ ascii '' real='' @ decimal (unat (sr_real_size r))
     @ ascii '' flags=0x'' @ hexadecimal (unat (sr_flags r)) @ newline"

text \<open>\<open>print_tree\<close> of \<open>src/main.cpp\<close>: the lines printed, up to the exception that ends it.\<close>

definition printed_line :: "nat \<Rightarrow> stored_record \<Rightarrow> bytes" where
  "printed_line depth child =
     indent depth @ (if sr_is_directory child then ascii ''[D] '' else ascii ''[F] '')
     @ sr_name child @ ascii '' [db_id='' @ signed_decimal (sint (sr_id child))
     @ ascii '', record='' @ decimal (unat (sr_record_id_guess child)) @ ascii '']'' @ newline"

function print_tree :: "record_index \<Rightarrow> u64 \<Rightarrow> nat \<Rightarrow> int \<Rightarrow> bytes \<times> bytes option"
  and print_children :: "record_index \<Rightarrow> u64 \<Rightarrow> stored_record list \<Rightarrow> nat \<Rightarrow> int \<Rightarrow> bytes \<times> bytes option" where
  "print_tree children_at parent depth max_depth =
     (if int depth > max_depth then ([], None)
      else (case children_at parent of
              Inl e \<Rightarrow> ([], Some e)
            | Inr children \<Rightarrow> print_children children_at parent children depth max_depth))"
| "print_children children_at parent [] depth max_depth = ([], None)"
| "print_children children_at parent (child # rest) depth max_depth =
     (let (inner, failure) =
        (if sr_is_directory child \<and> sr_record_id_guess child \<noteq> parent
         then print_tree children_at (sr_record_id_guess child) (depth + 1) max_depth else ([], None))
      in case failure of
           Some e \<Rightarrow> (printed_line depth child @ inner, Some e)
         | None \<Rightarrow>
             (let (out, failure') = print_children children_at parent rest depth max_depth
              in (printed_line depth child @ inner @ out, failure')))"
  by pat_completeness auto
termination print_tree
  by (relation "measures [\<lambda>x. case x of Inl (c, p, d, m) \<Rightarrow> 2 * nat (m + 2 - int d) | Inr (c, p, cs, d, m) \<Rightarrow> 2 * nat (m + 1 - int d) + 1,
                          \<lambda>x. case x of Inl _ \<Rightarrow> 0 | Inr (c, p, cs, d, m) \<Rightarrow> length cs]") auto

declare print_tree.simps [simp del]


section \<open>Commands\<close>

datatype command =
    ScanCommand scan_options
  | FindCommand path bytes
  | TreeCommand path i64 int
  | RecoverCommand recover_options

datatype reported =
    NothingReported
  | NoRecordReported i64
  | IndexReported bytes
  | ScanReported scan_error
  | RecoverReported recover_error

record exit_report =
  oc_printed :: "bytes list"
  oc_reported :: reported
  oc_exit :: nat

definition reporting :: "bytes list \<Rightarrow> reported \<Rightarrow> nat \<Rightarrow> exit_report" where
  "reporting out err status = \<lparr>oc_printed = out, oc_reported = err, oc_exit = status\<rparr>"

definition find_command :: "'c sqlite \<Rightarrow> path \<Rightarrow> bytes \<Rightarrow> os \<Rightarrow> exit_report \<times> os" where
  "find_command sq db name s =
     (case run_opening (open_connection sq db) s of
        (Inl e, s1) \<Rightarrow> (reporting [] (IndexReported e) 1, s1)
      | (Inr d, s1) \<Rightarrow>
          (case find_by_name sq name d of
             Inl e \<Rightarrow> (reporting [] (IndexReported e) 1, s1)
           | Inr rows \<Rightarrow>
               (reporting (map stored_record_line rows
                   @ [decimal (length rows) @ ascii '' result(s)'' @ newline])
                 NothingReported (if rows = [] then 2 else 0), s1)))"

definition tree_command :: "'c sqlite \<Rightarrow> path \<Rightarrow> i64 \<Rightarrow> int \<Rightarrow> os \<Rightarrow> exit_report \<times> os" where
  "tree_command sq db i depth s =
     (case run_opening (open_connection sq db) s of
        (Inl e, s1) \<Rightarrow> (reporting [] (IndexReported e) 1, s1)
      | (Inr d, s1) \<Rightarrow>
          (case get_by_id sq i d of
             Inl e \<Rightarrow> (reporting [] (IndexReported e) 1, s1)
           | Inr None \<Rightarrow> (reporting [] (NoRecordReported i) 2, s1)
           | Inr (Some root) \<Rightarrow>
               (case print_tree (\<lambda>parent. children_of sq parent d) (sr_record_id_guess root) 1 depth of
                  (out, failure) \<Rightarrow>
                    (case failure of
                       Some e \<Rightarrow> (reporting [stored_record_line root, out] (IndexReported e) 1, s1)
                     | None \<Rightarrow> (reporting [stored_record_line root, out] NothingReported 0, s1)))))"

definition main_command ::
  "(u64 \<Rightarrow> u64 \<Rightarrow> bytes) \<Rightarrow> (recover_error \<Rightarrow> bytes) \<Rightarrow> (os \<Rightarrow> host) \<Rightarrow> 'c sqlite \<Rightarrow> (stored_record list \<Rightarrow> stored_record list) \<Rightarrow> command \<Rightarrow> os
     \<Rightarrow> exit_report \<times> 'c connection option \<times> os" where
  "main_command percent what hosted sq arrange cmd s =
     (case cmd of
        ScanCommand options \<Rightarrow>
          (case scan_run (hosted s) sq options s of
             (Inl e, lines, d, s1) \<Rightarrow> (reporting (map (\<lambda>l. scan_text percent (so_source options) l @ newline) lines) (ScanReported e) 1, d, s1)
           | (Inr stats, lines, d, s1) \<Rightarrow> (reporting (map (\<lambda>l. scan_text percent (so_source options) l @ newline) lines) NothingReported 0, d, s1))
      | FindCommand db name \<Rightarrow> (case find_command sq db name s of (report, s1) \<Rightarrow> (report, None, s1))
      | TreeCommand db i depth \<Rightarrow> (case tree_command sq db i depth s of (report, s1) \<Rightarrow> (report, None, s1))
      | RecoverCommand options \<Rightarrow>
          (case recover_run hosted (opened_index sq) arrange options s of
             (Inl e, lines, s1) \<Rightarrow> (reporting (map (\<lambda>l. log_text what l @ newline) lines) (RecoverReported e) 1, None, s1)
           | (Inr stats, lines, s1) \<Rightarrow> (reporting (map (\<lambda>l. log_text what l @ newline) lines) NothingReported 0, None, s1)))"

section \<open>The exit status of a search\<close>

lemma find_rows:
  assumes "sqlite_documented sq state" "tb_view (state (conn d)) = Some rows" "find_by_name sq name d = Inr rs"
  shows "\<exists>n. rs = take n (map (row_to_record sq) (sort_key (\<lambda>r. integer_of (column r 0)) (filter (\<lambda>r. column r 4 = TextValue (c_string name)) rows)))
    \<and> (snd (sq_select sq find_sql [TextValue (c_string name)] (conn d)) = SQLITE_DONE \<longrightarrow>
         length (filter (\<lambda>r. column r 4 = TextValue (c_string name)) rows) \<le> n)"
  using documented_select [OF assms(1,2) assms(3) [unfolded find_by_name_def]] by (auto simp: select_answer_def)

text \<open>
  C29: over a table that holds a row for each of \<open>ps\<close>, a search that is answered exits with 0 or 2; it exits
  with 0 only if one of the names is the one asked for, prints a line for every record returned and the
  count, and exits with 2 only if none is, provided SQLite ended the query with \<open>SQLITE_DONE\<close>.
\<close>

theorem find_exit_status:
  assumes "sqlite_documented sq state" "snd (open_connection sq db) = Inr d" "tb_view (state (conn d)) = Some rows" "rows_for rows ps"
    "find_by_name sq name d = Inr rs"
  shows "oc_exit (fst (find_command sq db name s)) = (if rs = [] then 2 else 0)
    \<and> length (oc_printed (fst (find_command sq db name s))) = length rs + 1
    \<and> (rs \<noteq> [] \<longrightarrow> (\<exists>(record, fn) \<in> set ps. c_string (fn_name fn) = c_string name))
    \<and> (rs = [] \<and> snd (sq_select sq find_sql [TextValue (c_string name)] (conn d)) = SQLITE_DONE \<longrightarrow>
         \<not> (\<exists>(record, fn) \<in> set ps. c_string (fn_name fn) = c_string name))"
proof -
  let ?hits = "filter (\<lambda>r. column r 4 = TextValue (c_string name)) rows"
  obtain n where n: "rs = take n (map (row_to_record sq) (sort_key (\<lambda>r. integer_of (column r 0)) ?hits))"
      "snd (sq_select sq find_sql [TextValue (c_string name)] (conn d)) = SQLITE_DONE \<longrightarrow> length ?hits \<le> n"
    using find_rows [OF assms(1,3,5)] by blast
  have found: "\<exists>(record, fn) \<in> set ps. c_string (fn_name fn) = c_string name" if "rs \<noteq> []"
  proof -
    have "?hits \<noteq> []" using that n(1) by auto
    then obtain r where r: "r \<in> set ?hits" using list.set_intros(1) by (metis neq_Nil_conv)
    then obtain i mr fn where "(mr, fn) \<in> set ps" "r = IntegerValue i # bindings mr fn"
      using rows_for_row [OF assms(4)] by force
    with r show ?thesis by (intro bexI [of _ "(mr, fn)"]) (simp_all add: row_columns)
  qed
  have missing: "c_string (fn_name fn) \<noteq> c_string name" if h: "rs = []" "length ?hits \<le> n" "(mr, fn) \<in> set ps" for mr fn
  proof
    assume eq: "c_string (fn_name fn) = c_string name"
    obtain i where "IntegerValue i # bindings mr fn \<in> set rows" using rows_for_name [OF assms(4) h(3)] by blast
    then have "IntegerValue i # bindings mr fn \<in> set ?hits" using eq by (simp add: row_columns)
    then have "length ?hits > 0" by (rule length_pos_if_in_set)
    moreover have "length rs = min (length ?hits) n" using n(1) by simp
    ultimately show False using h(1,2) by simp
  qed
  show ?thesis using found missing n(2)
    by (auto simp: find_command_def run_opening_def reporting_def assms(2,5))
qed

lemma find_exit_status_witness:
  "oc_exit (fst (find_command volume_sqlite (ascii ''/d/x'') [0x61, 0x62] scan_disk)) = 0
   \<and> oc_exit (fst (find_command volume_sqlite (ascii ''/d/x'') [0x63] scan_disk)) = 2"
proof -
  let ?row = "IntegerValue 1 # bindings volume_record sample_name"
  have o: "snd (open_connection volume_sqlite (ascii ''/d/x'')) = Inr \<lparr>conn = volume_table, insert_prepared = False\<rparr>"
    by (simp add: open_connection_def volume_sqlite_def)
  have v: "tb_view volume_table = Some [?row]" by (simp add: volume_table_def)
  have rows: "rows_for [?row] [(volume_record, sample_name)]" by (simp add: rows_for_def)
  have f: "find_by_name volume_sqlite [0x61, 0x62] \<lparr>conn = volume_table, insert_prepared = False\<rparr> = Inr [row_to_record volume_sqlite ?row]"
      "find_by_name volume_sqlite [0x63] \<lparr>conn = volume_table, insert_prepared = False\<rparr> = Inr []"
    by (simp_all add: find_by_name_def select_rows_def check_sqlite_def volume_sqlite_def reference_select v Let_def
        select_answer_def column_def bindings_def sample_name_def c_string_def)
  note status = find_exit_status [OF volume_documented o _ rows]
  show ?thesis using status [OF _ f(1)] status [OF _ f(2)] v by simp
qed

end
