(* ===== verification/TuiMachine.thy ===== *)
theory TuiMachine
  imports TuiText Scanner
begin

text \<open>
  The interactive program of \<open>src/Tui.cpp\<close>: its state, the handler of events with the operations it
  calls, and the worker thread that scans, as a step relation. Drawing and the widgets are FTXUI's; of
  them the model has what reaches the program's state: a key the handler does not take goes to the
  widgets, which may change the indices and edit the three text fields.
\<close>

section \<open>The state\<close>

datatype page =
    DevicesPage
  | WarningPage
  | ScanningPage
  | SearchPage
  | ResultsPage
  | ActionsPage
  | TextViewPage
  | RecoverDestPage
  | ConfirmRecoverPage

datatype tui_log = ScanLog scan_line | ScanFailedLog scan_error | RecoverLog log_line

datatype view_text = PlainText bytes | StatsText "tui_log option" recover_stats | FailureText recover_error

text \<open>
  The scanning thread: in \<open>Scanner::run\<close>, past it (or past the handler of its exception) but before
  it sets the flags, or done and to be joined. How the program ends: by the key for it, or by an
  exception.
\<close>

datatype worker_state = NoWorker | ScanningWorker scan_options | StoppingWorker | DoneWorker

datatype ending = Quit | Thrown

text \<open>\<open>runs\<close> records the recoveries the program has run, in order; the program does not read it.\<close>

record tui =
  page :: page
  devices :: "block_device list"
  device_index :: int
  result_index :: int
  action_index :: int
  search_mode :: int
  scan_running :: bool
  scan_done :: bool
  real_recover_confirmed :: bool
  selected_device :: "block_device option"
  selected_record :: "stored_record option"
  database_path :: path
  search_text :: bytes
  destination_path :: path
  text_title :: bytes
  text_body :: view_text
  results :: "stored_record list"
  result_entries :: "bytes list"
  logs :: "tui_log list"
  shown_stats :: scan_stats
  scan_total :: "u64 option"
  actions :: "bytes list"
  worker :: worker_state
  ended :: "ending option"
  runs :: "recover_options list"

definition initial_tui :: "block_device list \<Rightarrow> tui" where
  "initial_tui devs =
     \<lparr>page = DevicesPage, devices = devs, device_index = 0, result_index = 0, action_index = 0, search_mode = 0,
      scan_running = False, scan_done = False, real_recover_confirmed = False, selected_device = None,
      selected_record = None, database_path = ascii ''scan.db'', search_text = [], destination_path = [],
      text_title = [], text_body = PlainText [], results = [], result_entries = [], logs = [],
      shown_stats = no_stats, scan_total = None, actions = [], worker = NoWorker, ended = None, runs = []\<rparr>"

section \<open>What the other components answer\<close>

record index_view =
  iv_find :: "bytes \<Rightarrow> bytes + stored_record list"
  iv_by_record :: "u64 \<Rightarrow> bytes + stored_record option"
  iv_children :: record_index

record tui_env =
  te_index :: "path \<Rightarrow> bytes + index_view"
  te_recover :: "recover_options \<Rightarrow> (recover_error + recover_stats) \<times> log_line list"
  te_current_path :: "path option"

text \<open>
  The components of this development as the environment. It answers; what an opening or a recovery does
  to the file system is stated of those components.
\<close>

definition program_env ::
  "(os \<Rightarrow> host) \<Rightarrow> 'c sqlite \<Rightarrow> (stored_record list \<Rightarrow> stored_record list) \<Rightarrow> path option \<Rightarrow> os \<Rightarrow> tui_env" where
  "program_env hosted sq arrange cwd s =
     \<lparr>te_index = (\<lambda>p. case snd (open_connection sq p) of
         Inl e \<Rightarrow> Inl e
       | Inr d \<Rightarrow> Inr \<lparr>iv_find = (\<lambda>n. find_by_name sq n d), iv_by_record = (\<lambda>r. get_by_record_id sq r d),
                       iv_children = (\<lambda>p. children_of sq p d)\<rparr>),
      te_recover = (\<lambda>options. case recover_run hosted (opened_index sq) arrange options s of (r, log, s') \<Rightarrow> (r, log)),
      te_current_path = cwd\<rparr>"

section \<open>Operations\<close>

definition start_scan :: "tui \<Rightarrow> tui" where
  "start_scan s =
     (case selected_device s of
        None \<Rightarrow> s
      | Some device \<Rightarrow>
          if scan_running s then s
          else s\<lparr>scan_running := True, scan_done := False, logs := [],
                 worker := ScanningWorker \<lparr>so_source = bd_path device, so_database = database_path s, so_target = None\<rparr>\<rparr>)"

definition show_text :: "bytes \<Rightarrow> view_text \<Rightarrow> tui \<Rightarrow> tui" where
  "show_text title body s = s\<lparr>text_title := title, text_body := body, page := TextViewPage\<rparr>"

definition search_matches :: "int \<Rightarrow> stored_record \<Rightarrow> bool" where
  "search_matches mode row \<longleftrightarrow> (mode = 0 \<and> sr_is_directory row) \<or> (mode = 1 \<and> \<not> sr_is_directory row)"

definition do_search :: "tui_env \<Rightarrow> tui \<Rightarrow> tui" where
  "do_search env s0 =
     (let s = s0\<lparr>result_entries := [], results := [], selected_record := None\<rparr> in
      case te_index env (database_path s) of
        Inl e \<Rightarrow> show_text (ascii ''Search error'') (PlainText e) s
      | Inr index \<Rightarrow>
          (case iv_find index (search_text s) of
             Inl e \<Rightarrow> show_text (ascii ''Search error'') (PlainText e) s
           | Inr rows \<Rightarrow>
               (let found = filter (search_matches (search_mode s)) rows; entries = map record_line found
                in s\<lparr>results := found,
                     result_entries := (if entries = [] then [ascii ''No matching records''] else entries),
                     result_index := 0, page := ResultsPage\<rparr>)))"

definition show_parent_chain :: "tui_env \<Rightarrow> tui \<Rightarrow> tui" where
  "show_parent_chain env s =
     (case selected_record s of
        None \<Rightarrow> s
      | Some rc \<Rightarrow>
          (case te_index env (database_path s) of
             Inl e \<Rightarrow> show_text (ascii ''Parent chain error'') (PlainText e) s
           | Inr index \<Rightarrow>
               (case parent_chain (iv_by_record index) rc of
                  Inl e \<Rightarrow> show_text (ascii ''Parent chain error'') (PlainText e) s
                | Inr body \<Rightarrow> show_text (ascii ''Parent chain'') (PlainText body) s)))"

definition show_tree :: "tui_env \<Rightarrow> tui \<Rightarrow> tui" where
  "show_tree env s =
     (case selected_record s of
        None \<Rightarrow> s
      | Some rc \<Rightarrow>
          (case te_index env (database_path s) of
             Inl e \<Rightarrow> show_text (ascii ''Tree error'') (PlainText e) s
           | Inr index \<Rightarrow>
               (let title = (if sr_is_directory rc then ascii ''Folder tree'' else ascii ''Containing folder tree'');
                    root = (if sr_is_directory rc then sr_record_id_guess rc else sr_parent_ref rc)
                in case tree_preview (iv_children index) root 0 {} of
                     Inl e \<Rightarrow> show_text (ascii ''Tree error'') (PlainText e) s
                   | Inr (body, visited) \<Rightarrow>
                       show_text title (PlainText (if body = [] then ascii ''No children found in index'' else body)) s)))"

definition recovery_of :: "bool \<Rightarrow> tui \<Rightarrow> recover_options option" where
  "recovery_of dry s =
     (case (selected_device s, selected_record s) of
        (Some device, Some rc) \<Rightarrow>
          if sr_is_directory rc
          then Some \<lparr>opt_source = bd_path device, opt_database = database_path s, opt_root = sr_record_id_guess rc,
                     opt_destination = destination_path s, opt_dry_run = dry, opt_overwrite = False\<rparr>
          else None
      | _ \<Rightarrow> None)"

text \<open>
  One step of the model. In the code the log is cleared and filled line by line, without the lock under
  which the scanning thread adds its lines.
\<close>

definition run_recover :: "tui_env \<Rightarrow> bool \<Rightarrow> tui \<Rightarrow> tui" where
  "run_recover env dry s =
     (case recovery_of dry s of
        None \<Rightarrow> s
      | Some options \<Rightarrow>
          (let (r, log) = te_recover env options;
               lines = foldl append_log [] (map RecoverLog log);
               s1 = s\<lparr>logs := lines, runs := runs s @ [options]\<rparr>
           in case r of
                Inr stats \<Rightarrow>
                  show_text (if dry then ascii ''Dry-run recover'' else ascii ''Recover complete'')
                    (StatsText (if lines = [] then None else Some (last lines)) stats) s1
              | Inl e \<Rightarrow>
                  show_text (if dry then ascii ''Dry-run recover error'' else ascii ''Recover error'') (FailureText e) s1))"

section \<open>Events\<close>

datatype event = Character bytes | Return | OtherEvent

text \<open>The default destination; \<open>current_path\<close> may throw, which ends the program.\<close>

definition with_destination :: "tui_env \<Rightarrow> (tui \<Rightarrow> tui) \<Rightarrow> tui \<Rightarrow> tui" where
  "with_destination env act s =
     (if destination_path s = [] then
        (case te_current_path env of
           None \<Rightarrow> s\<lparr>ended := Some Thrown\<rparr>
         | Some cwd \<Rightarrow> act (s\<lparr>destination_path := path_append cwd (ascii ''recovered'')\<rparr>))
      else act s)"

definition folder_selected :: "tui \<Rightarrow> bool" where
  "folder_selected s \<longleftrightarrow> (case selected_record s of Some rc \<Rightarrow> sr_is_directory rc | None \<Rightarrow> False)"

definition handle_quit :: "tui \<Rightarrow> tui" where
  "handle_quit s =
     (if page s = DevicesPage then s\<lparr>ended := Some Quit\<rparr>
      else if page s = ResultsPage then s\<lparr>page := SearchPage\<rparr>
      else if page s = WarningPage then s\<lparr>page := DevicesPage\<rparr>
      else if page s = ScanningPage \<and> scan_done s then s\<lparr>page := SearchPage\<rparr>
      else s\<lparr>page := ResultsPage\<rparr>)"

definition select_result :: "tui \<Rightarrow> tui" where
  "select_result s =
     (if results s \<noteq> [] \<and> 0 \<le> result_index s \<and> result_index s < int (length (results s)) then
        (let rc = results s ! nat (result_index s)
         in s\<lparr>selected_record := Some rc,
              actions := [ascii ''show parent chain'',
                          if sr_is_directory rc then ascii ''preview tree'' else ascii ''open containing folder tree'']
                @ (if sr_is_directory rc then [ascii ''dry-run recover'', ascii ''recover''] else []),
              action_index := 0, page := ActionsPage\<rparr>)
      else s)"

definition handle_action :: "tui_env \<Rightarrow> tui \<Rightarrow> tui" where
  "handle_action env s =
     (if action_index s = 0 then show_parent_chain env s
      else if action_index s = 1 then show_tree env s
      else if folder_selected s \<and> action_index s = 2 then with_destination env (run_recover env True) s
      else if folder_selected s \<and> action_index s = 3 then with_destination env (\<lambda>s. s\<lparr>page := RecoverDestPage\<rparr>) s
      else s)"

definition handle_return :: "tui_env \<Rightarrow> tui \<Rightarrow> bool \<times> tui" where
  "handle_return env s =
     (case page s of
        DevicesPage \<Rightarrow>
          (True, if devices s \<noteq> [] \<and> 0 \<le> device_index s \<and> device_index s < int (length (devices s))
                 then s\<lparr>selected_device := Some (devices s ! nat (device_index s)), page := WarningPage\<rparr> else s)
      | WarningPage \<Rightarrow> (True, start_scan (s\<lparr>page := ScanningPage\<rparr>))
      | ScanningPage \<Rightarrow> if scan_done s then (True, s\<lparr>worker := NoWorker, page := SearchPage\<rparr>) else (False, s)
      | SearchPage \<Rightarrow> (True, do_search env s)
      | ResultsPage \<Rightarrow> (True, select_result s)
      | ActionsPage \<Rightarrow> (True, handle_action env s)
      | RecoverDestPage \<Rightarrow> (True, (run_recover env True (s\<lparr>real_recover_confirmed := False\<rparr>))\<lparr>page := ConfirmRecoverPage\<rparr>)
      | ConfirmRecoverPage \<Rightarrow>
          (True, if \<not> real_recover_confirmed s then run_recover env False (s\<lparr>real_recover_confirmed := True\<rparr>) else s)
      | TextViewPage \<Rightarrow> (True, s\<lparr>page := ResultsPage\<rparr>))"

definition handle_event :: "tui_env \<Rightarrow> event \<Rightarrow> tui \<Rightarrow> bool \<times> tui" where
  "handle_event env ev s =
     (if ev = Character (ascii ''q'') then (True, handle_quit s)
      else if ev = Character (ascii ''/'') then (True, s\<lparr>page := SearchPage\<rparr>)
      else if ev = Character (ascii ''d'') \<and> folder_selected s then (True, with_destination env (run_recover env True) s)
      else if ev = Character (ascii ''r'') \<and> folder_selected s then
        (True, with_destination env (\<lambda>s. s\<lparr>page := RecoverDestPage\<rparr>) s)
      else if ev \<noteq> Return then (False, s)
      else handle_return env s)"

section \<open>Steps\<close>

text \<open>A key is one character: a single byte below 0x80 or the bytes of a longer UTF-8 sequence.\<close>

definition key_event :: "event \<Rightarrow> bool" where
  "key_event ev = (case ev of Character t \<Rightarrow> length t = 1 \<or> (\<forall>b \<in> set t. 0x80 \<le> b) | _ \<Rightarrow> True)"

text \<open>
  What the widgets make of an event the handler does not take: the indices change, and the text
  fields lose characters or gain those of the key.
\<close>

definition typed :: "event \<Rightarrow> byte set" where
  "typed ev = (case ev of Character t \<Rightarrow> set t | Return \<Rightarrow> {0x0A} | OtherEvent \<Rightarrow> {})"

definition edited_text :: "event \<Rightarrow> bytes \<Rightarrow> bytes \<Rightarrow> bool" where
  "edited_text ev t t' \<longleftrightarrow> (\<forall>b. b \<in> typed ev \<or> count_list t' b \<le> count_list t b)"

definition edited :: "event \<Rightarrow> tui \<Rightarrow> tui \<Rightarrow> bool" where
  "edited ev s s' \<longleftrightarrow> (\<exists>di ri ai sm db st dest.
     s' = s\<lparr>device_index := di, result_index := ri, action_index := ai, search_mode := sm,
            database_path := db, search_text := st, destination_path := dest\<rparr>
     \<and> edited_text ev (database_path s) db \<and> edited_text ev (search_text s) st
     \<and> edited_text ev (destination_path s) dest)"

text \<open>What the worker thread does under the lock, and between.\<close>

inductive scan_step :: "tui \<Rightarrow> tui \<Rightarrow> bool" where
  progress: "worker s = ScanningWorker options \<Longrightarrow>
    scan_step s (s\<lparr>shown_stats := stats, scan_total := n, logs := append_log (logs s) (ScanLog line)\<rparr>)"
| returned: "worker s = ScanningWorker options \<Longrightarrow> scan_step s (s\<lparr>worker := StoppingWorker\<rparr>)"
| failed: "worker s = ScanningWorker options \<Longrightarrow>
    scan_step s (s\<lparr>worker := StoppingWorker, logs := append_log (logs s) (ScanFailedLog e)\<rparr>)"
| finished: "worker s = StoppingWorker \<Longrightarrow>
    scan_step s (s\<lparr>worker := DoneWorker, scan_running := False, scan_done := True\<rparr>)"

text \<open>An event the handler takes, one it passes on to the widgets, or a step of the worker.\<close>

inductive tui_step :: "tui \<Rightarrow> tui \<Rightarrow> bool" where
  taken: "ended s = None \<Longrightarrow> key_event ev \<Longrightarrow> handle_event env ev s = (True, s') \<Longrightarrow> tui_step s s'"
| passed: "ended s = None \<Longrightarrow> key_event ev \<Longrightarrow> handle_event env ev s = (False, s1) \<Longrightarrow> edited ev s1 s' \<Longrightarrow> tui_step s s'"
| worked: "scan_step s s' \<Longrightarrow> tui_step s s'"

definition tui_reachable :: "block_device list \<Rightarrow> tui \<Rightarrow> bool" where
  "tui_reachable devs s \<longleftrightarrow> tui_step\<^sup>*\<^sup>* (initial_tui devs) s"

section \<open>What the operations leave alone\<close>

lemma start_scan_fields [simp]:
  "page (start_scan s) = page s" "devices (start_scan s) = devices s" "selected_device (start_scan s) = selected_device s"
  "selected_record (start_scan s) = selected_record s" "results (start_scan s) = results s" "runs (start_scan s) = runs s"
  "real_recover_confirmed (start_scan s) = real_recover_confirmed s" "database_path (start_scan s) = database_path s"
  "search_text (start_scan s) = search_text s" "destination_path (start_scan s) = destination_path s" "ended (start_scan s) = ended s"
  by (simp_all add: start_scan_def split: option.splits)

lemma show_text_fields [simp]:
  "page (show_text title body s) = TextViewPage" "devices (show_text title body s) = devices s"
  "selected_device (show_text title body s) = selected_device s" "selected_record (show_text title body s) = selected_record s"
  "results (show_text title body s) = results s" "runs (show_text title body s) = runs s" "logs (show_text title body s) = logs s"
  "real_recover_confirmed (show_text title body s) = real_recover_confirmed s" "database_path (show_text title body s) = database_path s"
  "search_text (show_text title body s) = search_text s" "destination_path (show_text title body s) = destination_path s"
  "ended (show_text title body s) = ended s" "worker (show_text title body s) = worker s"
  "scan_running (show_text title body s) = scan_running s" "scan_done (show_text title body s) = scan_done s"
  by (simp_all add: show_text_def)

lemma do_search_fields [simp]:
  "devices (do_search env s) = devices s" "selected_device (do_search env s) = selected_device s"
  "selected_record (do_search env s) = None" "runs (do_search env s) = runs s" "logs (do_search env s) = logs s"
  "real_recover_confirmed (do_search env s) = real_recover_confirmed s" "database_path (do_search env s) = database_path s"
  "search_text (do_search env s) = search_text s" "destination_path (do_search env s) = destination_path s"
  "ended (do_search env s) = ended s" "worker (do_search env s) = worker s" "scan_running (do_search env s) = scan_running s" "scan_done (do_search env s) = scan_done s"
  by (simp_all add: do_search_def Let_def split: sum.splits)

lemma do_search_page: "page (do_search env s) \<in> {ResultsPage, TextViewPage}"
  by (simp add: do_search_def Let_def split: sum.splits)

lemma views_fields [simp]:
  "devices (show_parent_chain env s) = devices s" "selected_device (show_parent_chain env s) = selected_device s"
  "selected_record (show_parent_chain env s) = selected_record s" "results (show_parent_chain env s) = results s"
  "runs (show_parent_chain env s) = runs s" "logs (show_parent_chain env s) = logs s"
  "real_recover_confirmed (show_parent_chain env s) = real_recover_confirmed s"
  "database_path (show_parent_chain env s) = database_path s" "search_text (show_parent_chain env s) = search_text s"
  "destination_path (show_parent_chain env s) = destination_path s" "ended (show_parent_chain env s) = ended s"
  "worker (show_parent_chain env s) = worker s" "scan_running (show_parent_chain env s) = scan_running s" "scan_done (show_parent_chain env s) = scan_done s"
  "devices (show_tree env s) = devices s" "selected_device (show_tree env s) = selected_device s"
  "selected_record (show_tree env s) = selected_record s" "results (show_tree env s) = results s"
  "runs (show_tree env s) = runs s" "logs (show_tree env s) = logs s"
  "real_recover_confirmed (show_tree env s) = real_recover_confirmed s"
  "database_path (show_tree env s) = database_path s" "search_text (show_tree env s) = search_text s"
  "destination_path (show_tree env s) = destination_path s" "ended (show_tree env s) = ended s"
  "worker (show_tree env s) = worker s" "scan_running (show_tree env s) = scan_running s" "scan_done (show_tree env s) = scan_done s"
  by (simp_all add: show_parent_chain_def show_tree_def Let_def split: option.splits sum.splits prod.splits)

lemma views_page:
  "page (show_parent_chain env s) \<in> {page s, TextViewPage}" "page (show_tree env s) \<in> {page s, TextViewPage}"
  by (simp_all add: show_parent_chain_def show_tree_def Let_def split: option.splits sum.splits prod.splits)

lemma run_recover_fields [simp]:
  "devices (run_recover env dry s) = devices s" "selected_device (run_recover env dry s) = selected_device s"
  "selected_record (run_recover env dry s) = selected_record s" "results (run_recover env dry s) = results s"
  "real_recover_confirmed (run_recover env dry s) = real_recover_confirmed s"
  "database_path (run_recover env dry s) = database_path s" "search_text (run_recover env dry s) = search_text s"
  "destination_path (run_recover env dry s) = destination_path s" "ended (run_recover env dry s) = ended s"
  "worker (run_recover env dry s) = worker s" "scan_running (run_recover env dry s) = scan_running s" "scan_done (run_recover env dry s) = scan_done s"
  by (simp_all add: run_recover_def Let_def split: option.splits sum.splits prod.splits)

lemma run_recover_page:
  "page (run_recover env dry s) = (if recovery_of dry s = None then page s else TextViewPage)"
  by (simp add: run_recover_def Let_def split: option.splits sum.splits prod.splits)

lemma run_recover_runs:
  "runs (run_recover env dry s) = runs s @ (case recovery_of dry s of None \<Rightarrow> [] | Some options \<Rightarrow> [options])"
  by (simp add: run_recover_def Let_def split: option.splits sum.splits prod.splits)

end
