(* ===== verification/TuiInvariant.thy ===== *)
theory TuiInvariant
  imports TuiMachine
begin

text \<open>
  The cases of an event the handler of \<open>src/Tui.cpp\<close> takes, the contract \<open>step_invariant\<close> of a predicate that
  every step keeps, and the invariant of the state.
\<close>

section \<open>What an event can do\<close>

definition destined :: "tui \<Rightarrow> tui \<Rightarrow> bool" where
  "destined s s1 \<longleftrightarrow> s1 = s \<or> (destination_path s = []
     \<and> (\<exists>cwd. s1 = s\<lparr>destination_path := path_append cwd (ascii ''recovered'')\<rparr>))"

lemma destined_fields:
  assumes "destined s s1"
  shows "page s1 = page s" "devices s1 = devices s" "selected_device s1 = selected_device s" "selected_record s1 = selected_record s"
    "results s1 = results s" "runs s1 = runs s" "real_recover_confirmed s1 = real_recover_confirmed s" "ended s1 = ended s"
    "database_path s1 = database_path s" "search_text s1 = search_text s" "worker s1 = worker s" "scan_running s1 = scan_running s"
    "logs s1 = logs s" "scan_done s1 = scan_done s"
  using assms by (auto simp: destined_def)

text \<open>The cases of an event the handler takes.\<close>

inductive moved :: "tui_env \<Rightarrow> tui \<Rightarrow> tui \<Rightarrow> bool" for env s where
  quit: "moved env s (handle_quit s)"
| slash: "moved env s (s\<lparr>page := SearchPage\<rparr>)"
| thrown: "destination_path s = [] \<Longrightarrow> moved env s (s\<lparr>ended := Some Thrown\<rparr>)"
| dry: "folder_selected s \<Longrightarrow> destined s s1 \<Longrightarrow> moved env s (run_recover env True s1)"
| dest: "folder_selected s \<Longrightarrow> destined s s1 \<Longrightarrow> moved env s (s1\<lparr>page := RecoverDestPage\<rparr>)"
| device: "page s = DevicesPage \<Longrightarrow> 0 \<le> device_index s \<Longrightarrow> device_index s < int (length (devices s)) \<Longrightarrow>
    moved env s (s\<lparr>selected_device := Some (devices s ! nat (device_index s)), page := WarningPage\<rparr>)"
| idle: "moved env s s"
| scan: "page s = WarningPage \<Longrightarrow> moved env s (start_scan (s\<lparr>page := ScanningPage\<rparr>))"
| joined: "page s = ScanningPage \<Longrightarrow> scan_done s \<Longrightarrow> moved env s (s\<lparr>worker := NoWorker, page := SearchPage\<rparr>)"
| searched: "moved env s (do_search env s)"
| picked: "moved env s (select_result s)"
| chain: "page s = ActionsPage \<Longrightarrow> moved env s (show_parent_chain env s)"
| tree: "page s = ActionsPage \<Longrightarrow> moved env s (show_tree env s)"
| preview: "page s = RecoverDestPage \<Longrightarrow>
    moved env s ((run_recover env True (s\<lparr>real_recover_confirmed := False\<rparr>))\<lparr>page := ConfirmRecoverPage\<rparr>)"
| real: "page s = ConfirmRecoverPage \<Longrightarrow> \<not> real_recover_confirmed s \<Longrightarrow>
    moved env s (run_recover env False (s\<lparr>real_recover_confirmed := True\<rparr>))"
| closed: "moved env s (s\<lparr>page := ResultsPage\<rparr>)"

lemma destined_moved:
  assumes "\<And>s1. destined s s1 \<Longrightarrow> moved env s (act s1)"
  shows "moved env s (with_destination env act s)"
proof (cases "destination_path s = []")
  case False
  then show ?thesis using assms [of s] by (simp add: with_destination_def destined_def)
next
  case True
  show ?thesis
  proof (cases "te_current_path env")
    case None
    then show ?thesis using True by (simp add: with_destination_def moved.thrown)
  next
    case (Some cwd)
    have "destined s (s\<lparr>destination_path := path_append cwd (ascii ''recovered'')\<rparr>)"
      using True unfolding destined_def by blast
    from assms [OF this] show ?thesis using True Some by (simp add: with_destination_def)
  qed
qed

lemma action_moved: "page s = ActionsPage \<Longrightarrow> moved env s (handle_action env s)"
  unfolding handle_action_def
  by (simp split: if_splits, intro conjI impI)
    (auto intro: moved.intros destined_moved)

lemma return_moved: "handle_return env s = (True, s') \<Longrightarrow> moved env s s'"
  using action_moved [of s env]
  by (cases "page s") (auto simp: handle_return_def split: if_splits intro: moved.intros)

lemma handled_moved: "handle_event env ev s = (True, s') \<Longrightarrow> moved env s s'"
  using return_moved [of env s s']
  by (auto simp: handle_event_def split: if_splits intro: moved.intros destined_moved)

lemma event_passed: "handle_event env ev s = (False, s1) \<Longrightarrow>
    s1 = s \<and> ev \<noteq> Character (ascii ''q'') \<and> ev \<noteq> Character (ascii ''/'')"
  by (auto simp: handle_event_def handle_return_def split: if_splits page.splits)

text \<open>
  What a predicate must satisfy to hold of all states reached from one where it holds: the events that
  are taken keep it, the widgets keep it, and so does the worker.
\<close>

locale step_invariant =
  fixes I :: "tui \<Rightarrow> bool"
  assumes kept_moved: "I s \<Longrightarrow> ended s = None \<Longrightarrow> moved env s s' \<Longrightarrow> I s'"
    and kept_edited: "I s \<Longrightarrow> ended s = None \<Longrightarrow> key_event ev \<Longrightarrow> ev \<noteq> Character (ascii ''q'') \<Longrightarrow> ev \<noteq> Character (ascii ''/'')
      \<Longrightarrow> edited ev s s' \<Longrightarrow> I s'"
    and kept_worked: "I s \<Longrightarrow> scan_step s s' \<Longrightarrow> I s'"
begin

lemma kept_step: "tui_step s s' \<Longrightarrow> I s \<Longrightarrow> I s'"
proof (induction rule: tui_step.induct)
  case (taken s ev env s')
  then show ?case using kept_moved handled_moved by blast
next
  case (passed s ev env s1 s')
  have "s1 = s" "ev \<noteq> Character (ascii ''q'')" "ev \<noteq> Character (ascii ''/'')"
    using event_passed [OF passed(3)] by simp_all
  then show ?case using kept_edited passed by blast
next
  case (worked s s')
  then show ?case using kept_worked by blast
qed

lemma kept_steps: "tui_step\<^sup>*\<^sup>* s s' \<Longrightarrow> I s \<Longrightarrow> I s'"
  by (induction rule: rtranclp_induct) (auto intro: kept_step)

lemma kept_reachable: "tui_reachable devs s \<Longrightarrow> I (initial_tui devs) \<Longrightarrow> I s"
  unfolding tui_reachable_def by (rule kept_steps)

end

section \<open>The invariant\<close>

text \<open>
  What every reachable state satisfies: a selected device is one of the devices, a selected record
  one of the results; the pages have what they show; the flag and the worker agree; the log has at
  most 200 lines.
\<close>

fun at_work :: "worker_state \<Rightarrow> bool" where
  "at_work NoWorker = False"
| "at_work (ScanningWorker options) = True"
| "at_work StoppingWorker = True"
| "at_work DoneWorker = False"

definition tui_ok :: "block_device list \<Rightarrow> tui \<Rightarrow> bool" where
  "tui_ok devs s \<longleftrightarrow> devices s = devs
     \<and> (\<forall>d. selected_device s = Some d \<longrightarrow> d \<in> set devs)
     \<and> (\<forall>rc. selected_record s = Some rc \<longrightarrow> rc \<in> set (results s))
     \<and> (page s \<in> {WarningPage, ScanningPage} \<longrightarrow> selected_device s \<noteq> None)
     \<and> (page s = ActionsPage \<longrightarrow> selected_record s \<noteq> None)
     \<and> (page s \<in> {RecoverDestPage, ConfirmRecoverPage} \<longrightarrow> folder_selected s)
     \<and> scan_running s = at_work (worker s)
     \<and> (scan_done s \<longrightarrow> \<not> at_work (worker s))
     \<and> length (logs s) \<le> 200"

lemma append_log_length: "length ls \<le> 200 \<Longrightarrow> length (append_log ls m) \<le> 200"
  by (simp add: append_log_def Let_def)

lemma foldl_append_log: "length ls \<le> 200 \<Longrightarrow> length (foldl append_log ls ms) \<le> 200"
  by (induction ms arbitrary: ls) (simp_all add: append_log_length)

lemma run_recover_logs: "length (logs s) \<le> 200 \<Longrightarrow> length (logs (run_recover env dry s)) \<le> 200"
  by (cases "recovery_of dry s") (simp_all add: run_recover_def Let_def foldl_append_log split: prod.split sum.split)

lemma folder_selected_cong: "selected_record s = selected_record s' \<Longrightarrow> folder_selected s = folder_selected s'"
  by (simp add: folder_selected_def)

lemma tui_ok_initial: "tui_ok devs (initial_tui devs)"
  by (simp add: tui_ok_def initial_tui_def)

lemma tui_ok_moved:
  assumes "tui_ok devs s" "moved env s s'"
  shows "tui_ok devs s'"
  using assms(2)
proof cases
  case quit
  then show ?thesis using assms(1) by (auto simp: handle_quit_def tui_ok_def folder_selected_def)
next
  case slash
  then show ?thesis using assms(1) by (auto simp: tui_ok_def folder_selected_def)
next
  case thrown
  then show ?thesis using assms(1) by (auto simp: tui_ok_def folder_selected_def)
next
  case (dry s1)
  then show ?thesis using assms(1) run_recover_logs [of s1 env True] destined_fields [OF dry(3)]
    by (auto simp: tui_ok_def folder_selected_def run_recover_page)
next
  case (dest s1)
  then show ?thesis using assms(1) destined_fields [OF dest(3)]
    by (auto simp: tui_ok_def folder_selected_def)
next
  case device
  then show ?thesis using assms(1) by (auto simp: tui_ok_def folder_selected_def)
next
  case idle
  then show ?thesis using assms(1) by simp
next
  case scan
  then show ?thesis using assms(1) by (auto simp: tui_ok_def folder_selected_def start_scan_def split: option.splits)
next
  case joined
  then show ?thesis using assms(1) by (auto simp: tui_ok_def folder_selected_def)
next
  case searched
  have "page (do_search env s) = ResultsPage \<or> page (do_search env s) = TextViewPage"
    using do_search_page [of env s] by simp
  then show ?thesis using assms(1) unfolding searched by (elim disjE) (simp_all add: tui_ok_def)
next
  case picked
  then show ?thesis using assms(1) by (auto simp: tui_ok_def folder_selected_def select_result_def Let_def)
next
  case chain
  then show ?thesis using assms(1) views_page(1) [of env s] by (auto simp: tui_ok_def folder_selected_def)
next
  case tree
  then show ?thesis using assms(1) views_page(2) [of env s] by (auto simp: tui_ok_def folder_selected_def)
next
  case preview
  then show ?thesis using assms(1) run_recover_logs [of "s\<lparr>real_recover_confirmed := False\<rparr>" env True]
    by (auto simp: tui_ok_def folder_selected_def)
next
  case real
  then show ?thesis using assms(1) run_recover_logs [of "s\<lparr>real_recover_confirmed := True\<rparr>" env False]
    by (auto simp: tui_ok_def folder_selected_def run_recover_page)
next
  case closed
  then show ?thesis using assms(1) by (auto simp: tui_ok_def folder_selected_def)
qed

lemma edited_cases:
  assumes "edited ev s s'"
  obtains di ri ai sm db st dest where
    "s' = s\<lparr>device_index := di, result_index := ri, action_index := ai, search_mode := sm,
            database_path := db, search_text := st, destination_path := dest\<rparr>"
    "edited_text ev (database_path s) db" "edited_text ev (search_text s) st"
  using assms unfolding edited_def by blast

lemma tui_ok_edited: "tui_ok devs s \<Longrightarrow> edited ev s s' \<Longrightarrow> tui_ok devs s'"
  by (erule edited_cases) (simp add: tui_ok_def folder_selected_def)

lemma tui_ok_worked: "scan_step s s' \<Longrightarrow> tui_ok devs s \<Longrightarrow> tui_ok devs s'"
  by (induction rule: scan_step.induct) (simp_all add: tui_ok_def folder_selected_def append_log_length)

end
