(* ===== verification/TuiReachable.thy ===== *)
theory TuiReachable
  imports TuiInvariant
begin

text \<open>
  Predicates every step of the interface keeps: on the recoveries it has run, on the pages it cannot
  return to, on how it ends, and on what its text fields hold. Each is an instance of \<open>step_invariant\<close>.
\<close>

section \<open>Recoveries\<close>

definition preview_before :: "recover_options list \<Rightarrow> nat \<Rightarrow> bool" where
  "preview_before rs i \<longleftrightarrow> \<not> opt_overwrite (rs ! i)
     \<and> (opt_dry_run (rs ! i) \<or>
        (0 < i \<and> opt_dry_run (rs ! (i - 1)) \<and> opt_source (rs ! (i - 1)) = opt_source (rs ! i)
         \<and> opt_root (rs ! (i - 1)) = opt_root (rs ! i)))"

definition previewed :: "recover_options list \<Rightarrow> bool" where
  "previewed rs \<longleftrightarrow> (\<forall>i < length rs. preview_before rs i)"

definition last_preview :: "recover_options list \<Rightarrow> recover_options \<Rightarrow> bool" where
  "last_preview rs opts \<longleftrightarrow> rs \<noteq> [] \<and> opt_dry_run (last rs) \<and> opt_source (last rs) = opt_source opts
     \<and> opt_root (last rs) = opt_root opts"

lemma previewed_snoc:
  "previewed (rs @ [opts]) \<longleftrightarrow> previewed rs \<and> \<not> opt_overwrite opts \<and> (opt_dry_run opts \<or> last_preview rs opts)"
proof -
  have before: "preview_before (rs @ [opts]) i = preview_before rs i" if "i < length rs" for i
  proof -
    have "i - 1 < length rs" using that by simp
    with that show ?thesis by (simp add: preview_before_def nth_append)
  qed
  have at: "preview_before (rs @ [opts]) (length rs) = (\<not> opt_overwrite opts \<and> (opt_dry_run opts \<or> last_preview rs opts))"
  proof (cases "rs = []")
    case True
    then show ?thesis by (simp add: preview_before_def last_preview_def)
  next
    case False
    then have "last rs = rs ! (length rs - 1)" "length rs - 1 < length rs" by (simp_all add: last_conv_nth)
    with False show ?thesis by (simp add: preview_before_def last_preview_def nth_append)
  qed
  have "previewed (rs @ [opts]) \<longleftrightarrow> preview_before (rs @ [opts]) (length rs) \<and> (\<forall>i < length rs. preview_before (rs @ [opts]) i)"
    by (auto simp: previewed_def less_Suc_eq)
  then show ?thesis using before at by (auto simp: previewed_def)
qed

text \<open>The last recovery is a dry run of what is selected.\<close>

definition aimed :: "recover_options list \<Rightarrow> block_device option \<Rightarrow> stored_record option \<Rightarrow> bool" where
  "aimed rs device rc \<longleftrightarrow> (\<forall>d r. device = Some d \<longrightarrow> rc = Some r \<longrightarrow> sr_is_directory r \<longrightarrow>
     rs \<noteq> [] \<and> opt_dry_run (last rs) \<and> opt_source (last rs) = bd_path d \<and> opt_root (last rs) = sr_record_id_guess r)"

definition recoveries_ok :: "tui \<Rightarrow> bool" where
  "recoveries_ok s \<longleftrightarrow> previewed (runs s) \<and> (\<forall>opts \<in> set (runs s). \<exists>d \<in> set (devices s). opt_source opts = bd_path d)
     \<and> (page s = ConfirmRecoverPage \<and> \<not> real_recover_confirmed s
        \<longrightarrow> aimed (runs s) (selected_device s) (selected_record s))"

lemma recovery_of_Some: "recovery_of dry s = Some opts \<longleftrightarrow>
    (\<exists>d rc. selected_device s = Some d \<and> selected_record s = Some rc \<and> sr_is_directory rc
      \<and> opts = \<lparr>opt_source = bd_path d, opt_database = database_path s, opt_root = sr_record_id_guess rc,
                opt_destination = destination_path s, opt_dry_run = dry, opt_overwrite = False\<rparr>)"
  by (auto simp: recovery_of_def split: option.splits)

lemma recoveries_ok_run:
  assumes "recoveries_ok s" "\<And>d. selected_device s = Some d \<Longrightarrow> d \<in> set (devices s)"
    and "\<not> dry \<Longrightarrow> aimed (runs s) (selected_device s) (selected_record s)"
  shows "previewed (runs (run_recover env dry s))"
    and "\<forall>opts \<in> set (runs (run_recover env dry s)). \<exists>d \<in> set (devices s). opt_source opts = bd_path d"
    and "dry \<Longrightarrow> aimed (runs (run_recover env dry s)) (selected_device s) (selected_record s)"
proof -
  show "previewed (runs (run_recover env dry s))"
    using assms(1,3)
    by (auto simp: run_recover_runs recoveries_ok_def previewed_snoc aimed_def last_preview_def recovery_of_Some split: option.split)
  show "\<forall>opts \<in> set (runs (run_recover env dry s)). \<exists>d \<in> set (devices s). opt_source opts = bd_path d"
  proof (cases "recovery_of dry s")
    case None
    then show ?thesis using assms(1) by (simp add: run_recover_runs recoveries_ok_def)
  next
    case (Some opts)
    then have "\<exists>d \<in> set (devices s). opt_source opts = bd_path d" using assms(2) by (auto simp: recovery_of_Some)
    then show ?thesis using Some assms(1) by (simp add: run_recover_runs recoveries_ok_def)
  qed
  show "aimed (runs (run_recover env dry s)) (selected_device s) (selected_record s)" if dry
    using that by (auto simp: run_recover_runs aimed_def recovery_of_def split: option.splits)
qed

lemma recoveries_ok_fields:
  assumes "recoveries_ok s" "runs s' = runs s" "devices s' = devices s" "page s' \<noteq> ConfirmRecoverPage"
  shows "recoveries_ok s'"
  using assms by (simp add: recoveries_ok_def)

lemma recoveries_ok_moved:
  assumes "recoveries_ok s" "tui_ok devs s" "moved env s s'"
  shows "recoveries_ok s'"
proof -
  have device: "d \<in> set (devices s)" if "selected_device s = Some d" for d
    using assms(2) that by (simp add: tui_ok_def)
  from assms(3) show ?thesis
  proof cases
    case quit
    then show ?thesis using assms(1) by (simp add: handle_quit_def recoveries_ok_def)
  next
    case thrown
    then show ?thesis using assms(1) by (simp add: recoveries_ok_def)
  next
    case (dry s1)
    have s1: "recoveries_ok s1" using assms(1) destined_fields [OF dry(3)] by (simp add: recoveries_ok_def)
    have device1: "d \<in> set (devices s1)" if "selected_device s1 = Some d" for d
      using device destined_fields [OF dry(3)] that by simp
    from recoveries_ok_run [OF s1 device1, of True env] show ?thesis
      unfolding dry(1) recoveries_ok_def by (simp add: run_recover_page)
  next
    case (dest s1)
    then show ?thesis using destined_fields [OF dest(3)] by (intro recoveries_ok_fields [OF assms(1)]) simp_all
  next
    case scan
    then show ?thesis by (intro recoveries_ok_fields [OF assms(1)]) simp_all
  next
    case searched
    have "page (do_search env s) = ResultsPage \<or> page (do_search env s) = TextViewPage"
      using do_search_page [of env s] by simp
    then have "page s' \<noteq> ConfirmRecoverPage" unfolding searched by auto
    then show ?thesis using searched by (intro recoveries_ok_fields [OF assms(1)]) simp_all
  next
    case picked
    then show ?thesis using assms(1) by (auto simp: recoveries_ok_def select_result_def Let_def)
  next
    case chain
    have "page s' \<noteq> ConfirmRecoverPage" using chain views_page(1) [of env s] by auto
    then show ?thesis using chain by (intro recoveries_ok_fields [OF assms(1)]) simp_all
  next
    case tree
    have "page s' \<noteq> ConfirmRecoverPage" using tree views_page(2) [of env s] by auto
    then show ?thesis using tree by (intro recoveries_ok_fields [OF assms(1)]) simp_all
  next
    case preview
    have "recoveries_ok (s\<lparr>real_recover_confirmed := False\<rparr>)" using assms(1) preview(2) by (simp add: recoveries_ok_def)
    from recoveries_ok_run [OF this, of True env] device show ?thesis
      unfolding preview(1) recoveries_ok_def by simp
  next
    case real
    have aim: "aimed (runs s) (selected_device s) (selected_record s)" using assms(1) real by (simp add: recoveries_ok_def)
    have "recoveries_ok (s\<lparr>real_recover_confirmed := True\<rparr>)" using assms(1) by (simp add: recoveries_ok_def)
    from recoveries_ok_run [OF this, of False env] device aim show ?thesis
      unfolding real(1) recoveries_ok_def by simp
  qed (use assms(1) in \<open>simp_all add: recoveries_ok_def\<close>)
qed

interpretation ok: step_invariant "\<lambda>s. tui_ok devs s \<and> recoveries_ok s" for devs
proof unfold_locales
  fix s s' env assume "tui_ok devs s \<and> recoveries_ok s" "moved env s s'"
  then show "tui_ok devs s' \<and> recoveries_ok s'" using tui_ok_moved recoveries_ok_moved by blast
next
  fix s s' ev assume h: "tui_ok devs s \<and> recoveries_ok s" "edited ev s s'"
  have "recoveries_ok s'" using h(2) by (rule edited_cases) (use h(1) in \<open>simp add: recoveries_ok_def\<close>)
  then show "tui_ok devs s' \<and> recoveries_ok s'" using h tui_ok_edited by blast
next
  fix s s' assume h: "tui_ok devs s \<and> recoveries_ok s" "scan_step s s'"
  have "recoveries_ok s'" using h(2,1) by (induction rule: scan_step.induct) (simp_all add: recoveries_ok_def)
  then show "tui_ok devs s' \<and> recoveries_ok s'" using h tui_ok_worked by blast
qed

lemma recoveries_ok_reachable: "tui_reachable devs s \<Longrightarrow> tui_ok devs s \<and> recoveries_ok s"
  by (erule ok.kept_reachable)
    (simp_all only: tui_ok_initial, simp add: recoveries_ok_def initial_tui_def previewed_def)

section \<open>Pages that are left for good\<close>

definition past_devices :: "tui \<Rightarrow> bool" where
  "past_devices s \<longleftrightarrow> page s \<noteq> DevicesPage \<and> page s \<noteq> WarningPage \<and> ended s \<noteq> Some Quit"

lemma past_devices_moved: "past_devices s \<Longrightarrow> moved env s s' \<Longrightarrow> past_devices s'"
proof (erule moved.cases)
  assume past: "past_devices s"
  have run: "past_devices (run_recover env dry s1)" if "past_devices s1" for dry s1
    using that by (simp add: past_devices_def run_recover_page)
  { fix s1 assume "destined s s1"
    from destined_fields [OF this] past have "past_devices s1" by (simp add: past_devices_def) }
  note destined = this
  { fix s1 assume "s' = run_recover env True s1" "destined s s1" then show ?thesis using destined run by simp }
  { fix s1 assume "s' = s1\<lparr>page := RecoverDestPage\<rparr>" "destined s s1"
    then show ?thesis using destined by (simp add: past_devices_def) }
  { assume "s' = do_search env s" then show ?thesis using do_search_page [of env s] past by (auto simp: past_devices_def) }
  { assume "s' = show_parent_chain env s" then show ?thesis using views_page(1) [of env s] past by (auto simp: past_devices_def) }
  { assume "s' = show_tree env s" then show ?thesis using views_page(2) [of env s] past by (auto simp: past_devices_def) }
qed (auto simp: past_devices_def handle_quit_def select_result_def Let_def run_recover_page)

interpretation past: step_invariant past_devices
proof unfold_locales
  fix s s' ev assume "past_devices s" "edited ev s s'"
  then show "past_devices s'" by (elim edited_cases) (simp add: past_devices_def)
next
  fix s s' assume "past_devices s" "scan_step s s'"
  then show "past_devices s'" by (auto simp: past_devices_def elim: scan_step.cases)
qed (rule past_devices_moved)

definition quit_on_devices :: "tui \<Rightarrow> bool" where
  "quit_on_devices s \<longleftrightarrow> (ended s = Some Quit \<longrightarrow> page s = DevicesPage)"

lemma quit_moved: "ended s = None \<Longrightarrow> moved env s s' \<Longrightarrow> quit_on_devices s'"
  by (erule moved.cases)
    (auto simp: quit_on_devices_def handle_quit_def select_result_def Let_def destined_fields split: if_splits)

interpretation quit: step_invariant quit_on_devices
proof unfold_locales
  fix s s' ev assume "quit_on_devices s" "edited ev s s'"
  then show "quit_on_devices s'" by (elim edited_cases) (simp add: quit_on_devices_def)
next
  fix s s' assume "quit_on_devices s" "scan_step s s'"
  then show "quit_on_devices s'" by (auto simp: quit_on_devices_def elim: scan_step.cases)
qed (rule quit_moved)

lemma quit_reachable: "tui_reachable devs s \<Longrightarrow> quit_on_devices s"
  by (erule quit.kept_reachable) (simp add: quit_on_devices_def initial_tui_def)

section \<open>Keys\<close>

definition untyped :: "tui \<Rightarrow> bool" where
  "untyped s \<longleftrightarrow> 0x2F \<notin> set (database_path s) \<and> 0x71 \<notin> set (database_path s)
     \<and> 0x2F \<notin> set (search_text s) \<and> 0x71 \<notin> set (search_text s)"

lemma untyped_moved: "untyped s \<Longrightarrow> moved env s s' \<Longrightarrow> untyped s'"
  by (erule moved.cases)
    (auto simp: untyped_def handle_quit_def select_result_def Let_def destined_fields)

lemma ascii_keys: "ascii ''q'' = [0x71]" "ascii ''/'' = [0x2F]"
  by (simp_all add: ascii_def)

lemma edited_text_untyped:
  assumes "edited_text ev t t'" "key_event ev" "b \<notin> set t" "b < 0x80" "b \<noteq> 0x0A" "ev \<noteq> Character [b]"
  shows "b \<notin> set t'"
proof -
  have "b \<notin> typed ev"
  proof (cases ev)
    case (Character k)
    show ?thesis
    proof (cases "length k = 1")
      case True
      then obtain x where "k = [x]" by (auto simp: length_Suc_conv)
      then show ?thesis using assms(6) Character by (auto simp: typed_def)
    next
      case False
      then have "\<forall>x \<in> set k. 0x80 \<le> x" using assms(2) Character by (simp add: key_event_def)
      then show ?thesis using assms(4) Character by (auto simp: typed_def)
    qed
  qed (use assms(5) in \<open>auto simp: typed_def\<close>)
  then have "count_list t' b \<le> count_list t b" using assms(1) by (auto simp: edited_text_def)
  then show ?thesis using assms(3) by (simp add: count_list_0_iff)
qed

interpretation keys: step_invariant untyped
proof unfold_locales
  fix s s' ev assume h: "untyped s" "key_event ev" "ev \<noteq> Character (ascii ''q'')" "ev \<noteq> Character (ascii ''/'')" "edited ev s s'"
  from h(5) show "untyped s'"
  proof (rule edited_cases)
    fix di ri ai sm db st dest
    assume s': "s' = s\<lparr>device_index := di, result_index := ri, action_index := ai, search_mode := sm,
            database_path := db, search_text := st, destination_path := dest\<rparr>"
      and texts: "edited_text ev (database_path s) db" "edited_text ev (search_text s) st"
    show ?thesis using h(1,3,4) texts [THEN edited_text_untyped, OF h(2)]
      unfolding s' untyped_def by (simp add: ascii_keys)
  qed
next
  fix s s' assume "untyped s" "scan_step s s'"
  then show "untyped s'" by (auto simp: untyped_def elim: scan_step.cases)
qed (rule untyped_moved)

lemma untyped_reachable: "tui_reachable devs s \<Longrightarrow> untyped s"
  by (erule keys.kept_reachable) (simp add: initial_tui_def untyped_def ascii_def)

section \<open>Playing events\<close>

fun play :: "(tui_env \<times> event) list \<Rightarrow> tui \<Rightarrow> tui" where
  "play [] s = s"
| "play ((env, ev) # rest) s = play rest (snd (handle_event env ev s))"

fun played :: "(tui_env \<times> event) list \<Rightarrow> tui \<Rightarrow> bool" where
  "played [] s = True"
| "played ((env, ev) # rest) s = (ended s = None \<and> key_event ev \<and> fst (handle_event env ev s)
     \<and> played rest (snd (handle_event env ev s)))"

lemma play_steps: "played events s \<Longrightarrow> tui_step\<^sup>*\<^sup>* s (play events s)"
proof (induction events s rule: play.induct)
  case (2 env ev rest s)
  obtain b s1 where h: "handle_event env ev s = (b, s1)" by force
  then have "tui_step s s1" using 2(2) tui_step.taken [of s ev env s1] by simp
  moreover have "tui_step\<^sup>*\<^sup>* s1 (play rest s1)" using 2 h by simp
  ultimately show ?case using h by (simp add: converse_rtranclp_into_rtranclp)
qed simp

end
