(* ===== verification/TuiTextProperties.thy ===== *)
theory TuiTextProperties
  imports TuiText
begin

text \<open>
  What the parts of \<open>src/Tui.cpp\<close> that compute are for: the reader of JSON against a writer of it, the
  list of devices, the log window and the chain of parents.
\<close>

section \<open>The log\<close>

lemma append_log_last: "append_log ls m = drop (length (ls @ [m]) - 200) (ls @ [m])"
  by (simp add: append_log_def Let_def)

lemma foldl_append_log_last: "foldl append_log [] ms = drop (length ms - 200) ms"
proof (induction ms rule: rev_induct)
  case (snoc m ms)
  have "Suc (length ms - 200) = length ms - 199" if "\<not> length ms \<le> 200" using that by arith
  then show ?case using snoc
    by (cases "length ms \<le> 200") (simp_all add: append_log_last)
qed simp

section \<open>The output of a command\<close>

lemma c_string_whole: "0 \<notin> set t \<Longrightarrow> c_string t = t"
  unfolding c_string_def by (induction t) auto

lemma read_pipe_whole: "0 \<notin> set t \<Longrightarrow> read_pipe t out = out @ t"
proof (induction t out rule: read_pipe.induct)
  case (1 t out)
  show ?case
  proof (cases "t = []")
    case True
    then show ?thesis by (simp add: read_pipe.simps)
  next
    case False
    let ?chunk = "line_chunk 4095 t"
    have p: "?chunk = take (length ?chunk) t" by (rule line_chunk_prefix)
    have "0 \<notin> set ?chunk" using 1(2) p set_take_subset by (metis subsetD)
    moreover have "0 \<notin> set (drop (length ?chunk) t)" using 1(2) set_drop_subset by (metis subsetD)
    ultimately show ?thesis using 1(1) [OF False] False p
      by (subst read_pipe.simps) (metis append.assoc append_take_drop_id c_string_whole)
  qed
qed

lemma run_command_whole: "0 \<notin> set t \<Longrightarrow> run_command (Some t) = t"
  by (simp add: run_command_def read_pipe_whole)

section \<open>Strings in JSON\<close>

definition json_escape :: "bytes \<Rightarrow> bytes" where
  "json_escape s = concat (map (\<lambda>c. if c = QUOTE \<or> c = BACKSLASH then [BACKSLASH, c] else [c]) s)"

lemma json_string_loop_escape:
  "json_string_loop (json_escape s @ QUOTE # rest) False acc = Some (acc @ s)"
  by (induction s arbitrary: acc) (auto simp: json_escape_def QUOTE_def BACKSLASH_def)

lemma json_field_value:
  assumes "find_bytes (field_marker key) object = Some pos"
    and "drop (pos + length (field_marker key)) object = replicate k BLANK @ t" "t = [] \<or> hd t \<noteq> BLANK"
  shows "field_value object key = Some t"
proof -
  have "dropWhile (\<lambda>c. c = BLANK) (replicate k BLANK @ t) = t"
    using assms(3) by (induction k) (auto simp: dropWhile_eq_self_iff)
  then show ?thesis using assms(1,2) by (simp add: field_value_def)
qed

text \<open>
  A string field of an object is read back as it was before its quotes and backslashes were escaped,
  whatever follows it and however many blanks stand before it.
\<close>

theorem json_string_roundtrip:
  assumes "find_bytes (field_marker key) object = Some pos"
    and "drop (pos + length (field_marker key)) object = replicate k BLANK @ QUOTE # json_escape s @ QUOTE # rest"
  shows "json_string_field object key = Some s"
  using json_field_value [OF assms] json_string_loop_escape [of s rest "[]"]
  by (simp add: json_string_field_def ascii_def QUOTE_def BLANK_def)

section \<open>Objects in JSON\<close>

text \<open>Text without braces and quotes, strings, and objects of pieces.\<close>

datatype piece = Plain bytes | Quoted bytes | Nested "piece list"

fun render_piece :: "piece \<Rightarrow> bytes" where
  "render_piece (Plain t) = t"
| "render_piece (Quoted s) = QUOTE # json_escape s @ [QUOTE]"
| "render_piece (Nested ps) = 0x7B # concat (map render_piece ps) @ [0x7D]"

fun plain_piece :: "piece \<Rightarrow> bool" where
  "plain_piece (Plain t) = (QUOTE \<notin> set t \<and> 0x7B \<notin> set t \<and> 0x7D \<notin> set t)"
| "plain_piece (Quoted s) = True"
| "plain_piece (Nested ps) = list_all plain_piece ps"

text \<open>The objects of a piece, an inner one before the one around it.\<close>

fun objects_of :: "piece \<Rightarrow> bytes list" where
  "objects_of (Plain t) = []"
| "objects_of (Quoted s) = []"
| "objects_of (Nested ps) = concat (map objects_of ps) @ [render_piece (Nested ps)]"

lemma objects_loop_plain:
  assumes "QUOTE \<notin> set t" "0x7B \<notin> set t" "0x7D \<notin> set t"
  shows "json_objects_loop json i (t @ rest) False False starts objs = json_objects_loop json (i + length t) rest False False starts objs"
  using assms by (induction t arbitrary: i) auto

lemma objects_loop_escape:
  "json_objects_loop json i (json_escape s @ QUOTE # rest) True False starts objs =
   json_objects_loop json (i + length (json_escape s) + 1) rest False False starts objs"
  by (induction s arbitrary: i) (auto simp: json_escape_def QUOTE_def BACKSLASH_def)

lemma objects_loop_pieces:
  assumes "\<And>p json i rest starts objs. p \<in> set ps \<Longrightarrow> plain_piece p \<Longrightarrow> drop i json = render_piece p @ rest \<Longrightarrow>
      json_objects_loop json i (render_piece p @ rest) False False starts objs =
      json_objects_loop json (i + length (render_piece p)) rest False False starts (objs @ objects_of p)"
    and "list_all plain_piece ps" "drop i json = concat (map render_piece ps) @ rest"
  shows "json_objects_loop json i (concat (map render_piece ps) @ rest) False False starts objs =
     json_objects_loop json (i + length (concat (map render_piece ps))) rest False False starts (objs @ concat (map objects_of ps))"
  using assms
proof (induction ps arbitrary: i objs)
  case (Cons p ps)
  let ?r = "concat (map render_piece ps) @ rest"
  have head: "json_objects_loop json i (render_piece p @ ?r) False False starts objs =
      json_objects_loop json (i + length (render_piece p)) ?r False False starts (objs @ objects_of p)"
    using Cons.prems(2,3) by (intro Cons.prems(1)) simp_all
  have "drop (length (render_piece p)) (drop i json) = ?r" using Cons.prems(3) by simp
  then have "drop (i + length (render_piece p)) json = ?r" by (simp add: add.commute)
  with Cons.prems(1,2) have "json_objects_loop json (i + length (render_piece p)) ?r False False starts (objs @ objects_of p) =
      json_objects_loop json (i + length (render_piece p) + length (concat (map render_piece ps))) rest False False starts
        ((objs @ objects_of p) @ concat (map objects_of ps))"
    by (intro Cons.IH) simp_all
  with head show ?case by (simp add: add.assoc)
qed simp

lemma objects_loop_piece:
  assumes "plain_piece p" "drop i json = render_piece p @ rest"
  shows "json_objects_loop json i (render_piece p @ rest) False False starts objs =
    json_objects_loop json (i + length (render_piece p)) rest False False starts (objs @ objects_of p)"
  using assms
proof (induction p arbitrary: json i rest starts objs)
  case (Plain t)
  then show ?case by (simp add: objects_loop_plain)
next
  case (Quoted s)
  show ?case using objects_loop_escape [of json "Suc i" s rest starts objs] by simp
next
  case (Nested ps)
  let ?t = "concat (map render_piece ps)"
  have at: "drop i json = 0x7B # ?t @ 0x7D # rest" using Nested.prems(2) by simp
  then have "drop 1 (drop i json) = ?t @ 0x7D # rest" by simp
  then have inner: "drop (Suc i) json = ?t @ 0x7D # rest" by simp
  have "json_objects_loop json (Suc i) (?t @ 0x7D # rest) False False (i # starts) objs =
      json_objects_loop json (Suc i + length ?t) (0x7D # rest) False False (i # starts) (objs @ concat (map objects_of ps))"
    using Nested.prems(1) inner by (intro objects_loop_pieces Nested.IH) simp_all
  moreover have "sub_bytes json i (Suc i + length ?t - i + 1) = render_piece (Nested ps)"
    using at by (simp add: sub_bytes_def)
  ultimately show ?case by (simp add: QUOTE_def)
qed

text \<open>
  C31: the loop over braces finds every object of a JSON text, at any depth and with any strings, an inner
  object before the one around it.
\<close>

theorem json_objects_postorder:
  assumes "list_all plain_piece ps"
  shows "json_objects (concat (map render_piece ps)) = concat (map objects_of ps)"
  using objects_loop_pieces [of ps 0 "concat (map render_piece ps)" "[]"] objects_loop_piece assms
  by (simp add: json_objects_def)

definition sample_pieces :: "piece list" where
  "sample_pieces = [Nested [Quoted (ascii ''path''), Plain [0x3A, BLANK], Quoted [0x61, QUOTE, 0x7D, BACKSLASH], Plain [0x2C],
     Nested [Quoted (ascii ''path''), Plain [0x3A], Quoted [0x62]]]]"

definition sample_object :: bytes where
  "sample_object = concat (map render_piece sample_pieces)"

lemma json_string_roundtrip_witness:
  "json_string_field sample_object (ascii ''path'') = Some [0x61, QUOTE, 0x7D, BACKSLASH]"
  by (rule json_string_roundtrip [where pos = 1 and k = 1 and rest = "drop 17 sample_object"])
    (simp_all add: sample_object_def sample_pieces_def field_marker_def ascii_def QUOTE_def BLANK_def BACKSLASH_def json_escape_def)

lemma json_objects_postorder_witness:
  "json_objects sample_object = [concat (map render_piece [Nested [Quoted (ascii ''path''), Plain [0x3A], Quoted [0x62]]]), sample_object]"
proof -
  have "list_all plain_piece sample_pieces"
    by (simp add: sample_pieces_def QUOTE_def BLANK_def BACKSLASH_def)
  from json_objects_postorder [OF this] show ?thesis
    by (simp add: sample_object_def) (simp add: sample_pieces_def)
qed

section \<open>Devices\<close>

definition path_before :: "bytes \<Rightarrow> bytes \<Rightarrow> bool" where
  "path_before p q \<longleftrightarrow> (p, q) \<in> lexord {(a, b). a < b}"

lemma path_before_irrefl: "\<not> path_before p p"
  unfolding path_before_def by (rule lexord_irreflexive) simp

lemma path_before_total: "\<not> path_before p q \<Longrightarrow> \<not> path_before q p \<Longrightarrow> p = q"
proof -
  assume "\<not> path_before p q" "\<not> path_before q p"
  moreover have "\<forall>a b. (a, b) \<in> {(a, b). a < b} \<or> a = b \<or> (b, a) \<in> {(a :: byte, b). a < b}" using less_linear by auto
  from lexord_linear [OF this, of p q] have "path_before p q \<or> p = q \<or> path_before q p" by (simp add: path_before_def)
  ultimately show "p = q" by blast
qed

definition path_sorted :: "block_device list \<Rightarrow> bool" where
  "path_sorted ds \<longleftrightarrow> sorted_wrt (\<lambda>d e. \<not> path_before (bd_path e) (bd_path d)) ds"

lemma unique_paths_sub: "set (unique_paths ds) \<subseteq> set ds"
  by (induction ds rule: unique_paths.induct) auto

lemma unique_paths_same: "bd_path ` set (unique_paths ds) = bd_path ` set ds"
  by (induction ds rule: unique_paths.induct) auto

lemma unique_paths_Nil: "unique_paths ds = [] \<longleftrightarrow> ds = []"
  by (induction ds rule: unique_paths.induct) auto

lemma unique_paths_sorted:
  "path_sorted ds \<Longrightarrow> sorted_wrt (\<lambda>d e. path_before (bd_path d) (bd_path e)) (unique_paths ds)"
proof (induction ds rule: unique_paths.induct)
  case (1 d e ds)
  show ?case
  proof (cases "bd_path d = bd_path e")
    case True
    then show ?thesis using 1 by (simp add: path_sorted_def)
  next
    case False
    have "path_before (bd_path d) (bd_path x)" if "x \<in> set (e # ds)" for x
    proof -
      have order: "\<not> path_before (bd_path x) (bd_path d)" "\<not> path_before (bd_path e) (bd_path d)"
        "x = e \<or> \<not> path_before (bd_path x) (bd_path e)"
        using 1(3) that by (auto simp: path_sorted_def)
      have "bd_path x \<noteq> bd_path d" using order False path_before_total [of "bd_path d" "bd_path e"] by auto
      then show ?thesis using order(1) path_before_total [of "bd_path d" "bd_path x"] by auto
    qed
    then show ?thesis using False 1 unique_paths_sub [of "e # ds"] by (auto simp: path_sorted_def)
  qed
qed (simp_all add: path_sorted_def)


text \<open>What \<open>std::sort\<close> promises.\<close>

definition sorts_devices :: "(block_device list \<Rightarrow> block_device list) \<Rightarrow> bool" where
  "sorts_devices arrange \<longleftrightarrow> (\<forall>ds. mset (arrange ds) = mset ds \<and> path_sorted (arrange ds))"

lemma object_device_allowed: "object_device human_size object = Some d \<Longrightarrow> allowed_block_path (bd_path d)"
  by (auto simp: object_device_def Let_def split: option.splits if_splits)

lemma sys_block_devices_allowed: "d \<in> set (sys_block_devices listing) \<Longrightarrow> allowed_block_path (bd_path d)"
  by (auto simp: sys_block_devices_def plain_device_def split: if_splits)

text \<open>
  C30: every device offered has a path of a SCSI or NVMe disk or partition; if \<open>lsblk\<close> lists such devices,
  exactly their paths are offered, each once and in ascending order.
\<close>

theorem detect_devices_listed:
  assumes "sorts_devices arrange"
  shows "(\<forall>d \<in> set (detect_devices human_size arrange pipe sys_block). allowed_block_path (bd_path d))
    \<and> (lsblk_devices human_size (run_command pipe) \<noteq> [] \<longrightarrow>
         bd_path ` set (detect_devices human_size arrange pipe sys_block) = bd_path ` set (lsblk_devices human_size (run_command pipe))
         \<and> sorted_wrt (\<lambda>d e. path_before (bd_path d) (bd_path e)) (detect_devices human_size arrange pipe sys_block))"
proof -
  define found where "found = lsblk_devices human_size (run_command pipe)"
  have arranged: "set (arrange found) = set found" "path_sorted (arrange found)"
    using assms by (auto simp: sorts_devices_def dest: mset_eq_setD)
  then have empty: "arrange found = [] \<longleftrightarrow> found = []" by (metis set_empty)
  have allowed: "allowed_block_path (bd_path d)" if "d \<in> set found" for d
    using that object_device_allowed by (force simp: found_def lsblk_devices_def List.map_filter_def)
  have detected: "detect_devices human_size arrange pipe sys_block =
      (if found = [] then case sys_block of None \<Rightarrow> [] | Some listing \<Rightarrow> sys_block_devices listing else unique_paths (arrange found))"
    by (simp add: detect_devices_def found_def [symmetric] unique_paths_Nil empty Let_def)
  show ?thesis
  proof (cases "found = []")
    case True
    then show ?thesis using sys_block_devices_allowed by (auto simp: detected found_def [symmetric] split: option.splits)
  next
    case False
    then show ?thesis
      using unique_paths_sub [of "arrange found"] arranged(1) allowed unique_paths_sorted [OF arranged(2)]
        unique_paths_same [of "arrange found"]
      by (auto simp: detected found_def [symmetric])
  qed
qed

fun insert_sorted :: "block_device \<Rightarrow> block_device list \<Rightarrow> block_device list" where
  "insert_sorted d [] = [d]"
| "insert_sorted d (e # es) = (if path_before (bd_path e) (bd_path d) then e # insert_sorted d es else d # e # es)"

lemma path_before_trans: "path_before p q \<Longrightarrow> path_before q r \<Longrightarrow> path_before p r"
  unfolding path_before_def by (rule lexord_trans) (auto intro: transI)

lemma mset_insert_sorted: "mset (insert_sorted d ds) = add_mset d (mset ds)"
  by (induction ds) auto

lemma insert_sorted_sorted: "path_sorted ds \<Longrightarrow> path_sorted (insert_sorted d ds)"
proof (induction ds)
  case (Cons e es)
  have s: "set (insert_sorted d es) = insert d (set es)" using mset_insert_sorted [of d es] by (metis set_mset_add_mset_insert set_mset_mset)
  show ?case
  proof (cases "path_before (bd_path e) (bd_path d)")
    case True
    then have "\<not> path_before (bd_path d) (bd_path e)" using path_before_trans path_before_irrefl by blast
    then show ?thesis using Cons True s by (auto simp: path_sorted_def)
  next
    case False
    have "\<not> path_before (bd_path x) (bd_path d)" if "x \<in> set es" for x
    proof
      assume b: "path_before (bd_path x) (bd_path d)"
      have "\<not> path_before (bd_path x) (bd_path e)" using Cons.prems that by (simp add: path_sorted_def)
      then show False using b False path_before_total [of "bd_path d" "bd_path e"] path_before_trans by metis
    qed
    then show ?thesis using Cons.prems False by (simp add: path_sorted_def)
  qed
qed (simp add: path_sorted_def)

lemma insertion_sorts: "sorts_devices (\<lambda>ds. foldr insert_sorted ds [])"
proof -
  have "mset (foldr insert_sorted ds []) = mset ds \<and> path_sorted (foldr insert_sorted ds [])" for ds
    by (induction ds) (simp_all add: mset_insert_sorted insert_sorted_sorted, simp add: path_sorted_def)
  then show ?thesis by (simp add: sorts_devices_def)
qed

definition sample_lsblk :: bytes where
  "sample_lsblk = concat (map render_piece [Nested [
     Nested [Quoted (ascii ''path''), Plain [0x3A], Quoted (ascii ''/dev/sdb'')],
     Nested [Quoted (ascii ''path''), Plain [0x3A], Quoted (ascii ''/dev/sda'')],
     Nested [Quoted (ascii ''path''), Plain [0x3A], Quoted (ascii ''/dev/loop0'')]]])"

lemma detect_devices_listed_witness:
  "bd_path ` set (detect_devices (\<lambda>t. t) (\<lambda>ds. foldr insert_sorted ds []) (Some sample_lsblk) None) = {ascii ''/dev/sda'', ascii ''/dev/sdb''}"
proof -
  have "bd_path ` set (lsblk_devices (\<lambda>t. t) (run_command (Some sample_lsblk))) = {ascii ''/dev/sda'', ascii ''/dev/sdb''}"
    by code_simp
  then show ?thesis using detect_devices_listed [OF insertion_sorts, of "\<lambda>t. t" "Some sample_lsblk" None] by auto
qed

section \<open>The parent chain\<close>

text \<open>A chain of records, each the parent of the one before; the last is its own parent.\<close>

fun parent_linked :: "(u64 \<Rightarrow> bytes + stored_record option) \<Rightarrow> stored_record list \<Rightarrow> bool" where
  "parent_linked parent_of [] = False"
| "parent_linked parent_of [r] = (parent_of (sr_parent_ref r) = Inr (Some r) \<and> sr_parent_ref r \<noteq> 0)"
| "parent_linked parent_of (r # q # rs) = (parent_of (sr_parent_ref r) = Inr (Some q) \<and> sr_parent_ref r \<noteq> 0 \<and> parent_linked parent_of (q # rs))"

definition chain_lines :: "stored_record list \<Rightarrow> bytes" where
  "chain_lines rs = concat (map (\<lambda>r. record_line r @ newline) rs)"

lemma parent_chain_loop_linked:
  assumes "parent_linked parent_of (r # rs)" "distinct (map sr_record_id_guess (r # rs))"
    and "sr_record_id_guess ` set (r # rs) \<inter> visited = {}"
  shows "parent_chain_loop parent_of r visited out = Inr (out @ chain_lines ((r # rs) @ [last (r # rs)]))"
  using assms
proof (induction rs arbitrary: r visited out)
  case Nil
  then show ?case
    by (simp add: parent_chain_loop.simps [of parent_of r] chain_lines_def Let_def)
next
  case (Cons q rs)
  have "parent_chain_loop parent_of q (insert (sr_record_id_guess r) visited) (out @ record_line r @ newline)
      = Inr ((out @ record_line r @ newline) @ chain_lines ((q # rs) @ [last (q # rs)]))"
    using Cons.prems by (intro Cons.IH) auto
  then show ?case using Cons.prems
    by (subst parent_chain_loop.simps) (simp add: chain_lines_def Let_def)
qed

text \<open>
  C32: the chain of a record lists its ancestors in order. It ends at a record that is its own parent, as
  the root directory of NTFS is, and lists that one twice.
\<close>

theorem parent_chain_lists:
  assumes "parent_linked parent_of rs" "distinct (map sr_record_id_guess rs)"
  shows "parent_chain parent_of (hd rs) = Inr (chain_lines (rs @ [last rs]))"
proof -
  obtain r rs' where "rs = r # rs'" using assms(1) by (cases rs) auto
  then show ?thesis using parent_chain_loop_linked [of parent_of r rs' "{}" "[]"] assms by (simp add: parent_chain_def)
qed

definition sample_root :: stored_record where
  "sample_root = \<lparr>sr_id = 1, sr_record_id_guess = 5, sr_offset = 0, sr_parent_ref = 5, sr_name = ascii ''.'',
     sr_name_namespace = 3, sr_flags = 3, sr_allocated_size = 0, sr_real_size = 0, sr_is_directory = True\<rparr>"

definition sample_child :: stored_record where
  "sample_child = sample_root\<lparr>sr_id := 2, sr_record_id_guess := 64, sr_name := ascii ''a''\<rparr>"

lemma parent_chain_lists_witness:
  "parent_chain (\<lambda>r. Inr (if r = 5 then Some sample_root else None)) sample_child
     = Inr (chain_lines [sample_child, sample_root, sample_root])"
  using parent_chain_lists [of "\<lambda>r. Inr (if r = 5 then Some sample_root else None)" "[sample_child, sample_root]"]
  by (simp add: sample_child_def sample_root_def)

end
