(* ===== verification/TuiProperties.thy ===== *)
theory TuiProperties
  imports TuiReachable TuiTextProperties IndexProperties
begin

text \<open>The properties of the interactive interface, with a session that reaches the states they speak of.\<close>

section \<open>A session\<close>

definition sample_device :: block_device where
  "sample_device = plain_device (ascii ''/dev/sdb1'') (ascii ''part'')"

definition sample_folder :: stored_record where
  "sample_folder = \<lparr>sr_id = 1, sr_record_id_guess = 64, sr_offset = 65536, sr_parent_ref = 5, sr_name = ascii ''docs'',
     sr_name_namespace = 1, sr_flags = 3, sr_allocated_size = 0, sr_real_size = 0, sr_is_directory = True\<rparr>"

text \<open>An index with one folder, and a recovery that fails.\<close>

definition sample_env :: tui_env where
  "sample_env =
     \<lparr>te_index = (\<lambda>p. Inr \<lparr>iv_find = (\<lambda>n. Inr [sample_folder]), iv_by_record = (\<lambda>r. Inr None), iv_children = (\<lambda>p. Inr [])\<rparr>),
      te_recover = (\<lambda>options. (Inl (DatabaseError (ascii ''database error'')), [])),
      te_current_path = Some (ascii ''/home'')\<rparr>"

text \<open>
  Choosing the device and scanning it; searching and choosing the folder; asking for the recovery,
  which runs it dry; confirming it.
\<close>

definition scan_keys :: "event list" where
  "scan_keys = [Return, Return]"

definition search_keys :: "event list" where
  "search_keys = [Character (ascii ''/''), Return, Return]"

definition recover_keys :: "event list" where
  "recover_keys = [Character (ascii ''r''), Return]"

definition session :: "block_device list \<Rightarrow> event list \<Rightarrow> tui" where
  "session devs keys = play (map (Pair sample_env) keys) (initial_tui devs)"

lemma session_reachable:
  "played (map (Pair sample_env) keys) (initial_tui devs) \<Longrightarrow> tui_reachable devs (session devs keys)"
  unfolding tui_reachable_def session_def by (rule play_steps)

lemmas session_simps =
  session_def initial_tui_def scan_keys_def search_keys_def recover_keys_def handle_event_def handle_return_def handle_quit_def
  key_event_def start_scan_def do_search_def search_matches_def select_result_def folder_selected_def with_destination_def
  run_recover_def recovery_of_def show_text_def sample_env_def sample_folder_def sample_device_def plain_device_def ascii_def

definition whole_session :: "event list" where
  "whole_session = scan_keys @ search_keys @ recover_keys @ [Return]"

lemma whole_session_played: "played (map (Pair sample_env) whole_session) (initial_tui [sample_device])"
  by (simp add: session_simps whole_session_def Let_def)

lemma whole_session_page: "page (session [sample_device] whole_session) = TextViewPage"
  by (simp add: session_simps whole_session_def Let_def)

section \<open>The properties\<close>

text \<open>
  C25: whatever the keys, the answers of the index and of the recovery and the progress of the scan, a
  reachable state keeps its invariant: the selected device is one of the detected ones, the selected
  record one of the results; the pages that show a device or a folder have one; the scan flags agree
  with the worker thread, so that no scan starts beside another; and the log has at most 200 lines.
\<close>

theorem tui_invariant:
  assumes "tui_reachable devs s"
  shows "tui_ok devs s"
  using recoveries_ok_reachable [OF assms] by simp

lemma tui_invariant_witness: "tui_ok [sample_device] (session [sample_device] whole_session)"
  by (rule tui_invariant [OF session_reachable [OF whole_session_played]])

text \<open>
  C23: every recovery the interface runs reads a detected device and never overwrites, and one that writes
  comes right after a dry run of the same folder from the same device.
\<close>

theorem tui_recoveries_previewed:
  assumes "tui_reachable devs s"
  shows "previewed (runs s) \<and> (\<forall>opts \<in> set (runs s). \<exists>d \<in> set devs. opt_source opts = bd_path d)"
proof -
  have "devices s = devs" "recoveries_ok s" using recoveries_ok_reachable [OF assms] by (simp_all add: tui_ok_def)
  then show ?thesis unfolding recoveries_ok_def by blast
qed

lemma tui_recoveries_previewed_witness:
  "previewed (runs (session [sample_device] whole_session))
   \<and> map opt_dry_run (runs (session [sample_device] whole_session)) = [True, False]"
  using tui_recoveries_previewed [OF session_reachable [OF whole_session_played]]
  by (simp add: session_simps whole_session_def Let_def)

text \<open>
  C26: once the interface has left the list of devices and the warning, no sequence of events leads back
  to either, and the key that ends the program does not end it any more: it only moves between the
  later pages.
\<close>

theorem tui_no_way_back:
  assumes "tui_reachable devs s" "page s \<noteq> DevicesPage" "page s \<noteq> WarningPage" "tui_step\<^sup>*\<^sup>* s s'"
  shows "page s' \<noteq> DevicesPage \<and> page s' \<noteq> WarningPage \<and> ended s' \<noteq> Some Quit"
proof -
  have "past_devices s" using assms(1-3) quit_reachable [of devs s] by (auto simp: past_devices_def quit_on_devices_def)
  then show ?thesis using past.kept_steps [OF assms(4)] by (simp add: past_devices_def)
qed

lemma tui_no_way_back_witness:
  "let s = session [sample_device] whole_session
   in ended s \<noteq> Some Quit \<and> ended (handle_quit s) \<noteq> Some Quit \<and> page (handle_quit s) = ResultsPage"
  using tui_no_way_back [OF session_reachable [OF whole_session_played] _ _ rtranclp.rtrancl_refl]
  by (simp add: whole_session_page handle_quit_def Let_def)

text \<open>
  C27: the handler takes the keys of the commands before the input fields see them: no reachable state has
  a slash or the letter \<open>q\<close> in the path of the database or in the text to search for, so neither a
  database in another directory nor a name with that letter can be asked for.
\<close>

theorem tui_keys_untyped:
  assumes "tui_reachable devs s"
  shows "0x2F \<notin> set (database_path s) \<and> 0x71 \<notin> set (database_path s)
    \<and> 0x2F \<notin> set (search_text s) \<and> 0x71 \<notin> set (search_text s)"
  using untyped_reachable [OF assms] by (simp_all add: untyped_def)

lemma tui_keys_untyped_witness: "0x2F \<notin> set (database_path (session [sample_device] whole_session))"
  using tui_keys_untyped [OF session_reachable [OF whole_session_played]] by simp

section \<open>A dry run behind the interface\<close>

text \<open>
  C24: what the interface shows after a dry run, with the recovery of this development behind it and no
  scan running: every path keeps its node, every node its content and every descriptor its place;
  undisturbed, and if SQLite creates no file but the index and its side files, a path that is new is a
  missing file of the validated index, which the opening creates empty. If the run does not fail, the page
  shows that nothing was recovered or skipped and how many items there are, and the log holds the last
  200 lines of the preview. While a scan runs, its thread adds lines to the same log, and the handler
  clears and fills it without the lock.
\<close>

theorem tui_dry_run_shown:
  assumes "wf_os system" "recovery_of True s = Some options" "\<not> at_work (worker s)" "creates_index_files (opened_index sq)"
  shows "\<exists>r log system'. recover_run hosted (opened_index sq) arrange options system = (r, log, system')
    \<and> (\<forall>p j. entries system p = Some j \<longrightarrow> entries system' p = Some j \<and> nodes system' j = nodes system j)
    \<and> descriptors system' = descriptors system
    \<and> (quiet system \<longrightarrow> (\<forall>p j. entries system' p = Some j \<and> entries system p = None \<longrightarrow>
          p \<in> run_index_files hosted options system \<and> nodes system' j = Some (Regular [])))
    \<and> (let s' = run_recover (program_env hosted sq arrange cwd system) True s in
        page s' = TextViewPage \<and> runs s' = runs s @ [options]
        \<and> (\<forall>line stats. text_body s' = StatsText line stats \<longrightarrow>
             (\<exists>destination items. stats = \<lparr>recovered = 0, skipped = 0, preview_items = of_nat (length items)\<rparr>
               \<and> logs s' = (let ls = map RecoverLog (dry_run_log options destination items) in drop (length ls - 200) ls))))"
proof -
  obtain r log system' where run: "recover_run hosted (opened_index sq) arrange options system = (r, log, system')"
    by (metis surj_pair)
  have dry: "opt_dry_run options" using assms(2) by (auto simp: recovery_of_Some)
  note effect = dry_run_effect [OF assms(1) run dry assms(4)]
  have a: "added (run_index_files hosted options system) system system'" using effect by blast
  have frame: "(\<forall>p j. entries system p = Some j \<longrightarrow> entries system' p = Some j \<and> nodes system' j = nodes system j)
    \<and> descriptors system' = descriptors system
    \<and> (quiet system \<longrightarrow> (\<forall>p j. entries system' p = Some j \<and> entries system p = None \<longrightarrow>
          p \<in> run_index_files hosted options system \<and> nodes system' j = Some (Regular [])))"
    using added_old [OF a assms(1)] added_new [OF a] a by (auto simp: added_def grown_def)
  have env: "te_recover (program_env hosted sq arrange cwd system) options = (r, log)"
    by (simp add: program_env_def run)
  let ?s' = "run_recover (program_env hosted sq arrange cwd system) True s"
  have shown: "page ?s' = TextViewPage" "runs ?s' = runs s @ [options]" "logs ?s' = foldl append_log [] (map RecoverLog log)"
    using assms(2) env by (auto simp: run_recover_def Let_def split: sum.splits)
  have "text_body ?s' = (case r of Inr stats \<Rightarrow> StatsText (if logs ?s' = [] then None else Some (last (logs ?s'))) stats | Inl e \<Rightarrow> FailureText e)"
    using assms(2) env by (simp add: run_recover_def show_text_def Let_def split: sum.splits)
  then have "r = Inr stats" if "text_body ?s' = StatsText line stats" for line stats
    using that by (auto split: sum.splits)
  then have "page ?s' = TextViewPage \<and> runs ?s' = runs s @ [options]
        \<and> (\<forall>line stats. text_body ?s' = StatsText line stats \<longrightarrow>
             (\<exists>destination items. stats = \<lparr>recovered = 0, skipped = 0, preview_items = of_nat (length items)\<rparr>
               \<and> logs ?s' = (let ls = map RecoverLog (dry_run_log options destination items) in drop (length ls - 200) ls)))"
    using effect shown by (fastforce simp: foldl_append_log_last Let_def)
  then show ?thesis using run frame unfolding Let_def by blast
qed

definition dry_session :: tui where
  "dry_session = (initial_tui [plain_device (ascii ''/i'') []])
     \<lparr>selected_device := Some (plain_device (ascii ''/i'') []), selected_record := Some (sample_folder\<lparr>sr_record_id_guess := 42\<rparr>),
      database_path := ascii ''/d/x'', destination_path := ascii ''/d''\<rparr>"

lemma dry_session_options: "recovery_of True dry_session = Some (sample_options True)"
  by (simp add: dry_session_def initial_tui_def recovery_of_def sample_folder_def sample_options_def plain_device_def)

lemma dry_session_run:
  "\<exists>s'. recover_run (\<lambda>s. sample_host) (opened_index volume_sqlite) arrange_children (sample_options True) sample_disk
     = (Inr \<lparr>recovered = 0, skipped = 0, preview_items = 1\<rparr>, dry_run_log (sample_options True) (ascii ''/d'') [sample_item], s')"
proof -
  obtain db where db: "opened_index volume_sqlite (ascii ''/d/x'')
        = ([ascii ''/d/x'', ascii ''/d/x'' @ ascii ''-wal'', ascii ''/d/x'' @ ascii ''-shm''], Inr db)"
      "db_by_record_id db 42 = Inr (Some sample_file_row)" "db_children_of db 42 = Inr [sample_file_row]"
    using volume_index by blast
  obtain tree s1 where "prepared (\<lambda>s. sample_host) (opened_index volume_sqlite) arrange_children (sample_options True) sample_disk
     sample_source_object (ascii ''/d'') 1024 tree s1" "ts_items tree = [sample_item]"
    using sample_prepared [of "opened_index volume_sqlite", OF db(1) volume_creates db(2,3)] by blast
  moreover have "opt_dry_run (sample_options True)" by (simp add: sample_options_def)
  ultimately show ?thesis by (auto simp: recover_run_def prepared_def recover_collected_def)
qed

lemma tui_dry_run_shown_witness:
  "let s' = run_recover (program_env (\<lambda>s. sample_host) volume_sqlite arrange_children None sample_disk) True dry_session
   in page s' = TextViewPage \<and> (\<exists>line. text_body s' = StatsText line \<lparr>recovered = 0, skipped = 0, preview_items = 1\<rparr>)"
proof -
  have "\<exists>line. text_body (run_recover (program_env (\<lambda>s. sample_host) volume_sqlite arrange_children None sample_disk) True dry_session)
      = StatsText line \<lparr>recovered = 0, skipped = 0, preview_items = 1\<rparr>"
    using dry_session_run dry_session_options by (auto simp: run_recover_def program_env_def show_text_def Let_def)
  moreover have "\<not> at_work (worker dry_session)" by (simp add: dry_session_def initial_tui_def)
  moreover have "creates_index_files (opened_index volume_sqlite)"
    using volume_creates by (auto simp: creates_index_files_def opened_index_def open_connection_def volume_sqlite_def reference_sqlite_def)
  ultimately show ?thesis
    using tui_dry_run_shown [OF wf_sample_disk dry_session_options, of volume_sqlite "\<lambda>s. sample_host" arrange_children None]
    unfolding Let_def by blast
qed

section \<open>What the interface gets wrong\<close>

text \<open>
  C28: the page that says the dry run is completed appears without a device, when none has run.
\<close>

theorem confirm_without_dry_run:
  "\<exists>s. tui_reachable [] s \<and> page s = ConfirmRecoverPage \<and> runs s = []"
proof -
  have p: "played (map (Pair sample_env) (search_keys @ recover_keys)) (initial_tui [])"
    by (simp add: session_simps Let_def)
  have "page (session [] (search_keys @ recover_keys)) = ConfirmRecoverPage
      \<and> runs (session [] (search_keys @ recover_keys)) = []"
    by (simp add: session_simps Let_def)
  then show ?thesis using session_reachable [OF p] by blast
qed

text \<open>
  A recovery may run while the worker thread scans: the handler clears and fills the log without the
  lock under which the worker adds its lines, and both steps are enabled in the same state.
\<close>

theorem log_shared_unlocked:
  "\<exists>s options s'. tui_reachable [sample_device] s \<and> worker s = ScanningWorker options
     \<and> handle_event sample_env (Character (ascii ''d'')) s = (True, s') \<and> worker s' = worker s
     \<and> runs s' \<noteq> runs s \<and> logs s \<noteq> [] \<and> logs s' = []
     \<and> tui_step s (s\<lparr>logs := append_log (logs s) (ScanLog (Scanning None))\<rparr>)"
proof -
  define s1 where "s1 = session [sample_device] (scan_keys @ search_keys)"
  define s where "s = s1\<lparr>shown_stats := no_stats, scan_total := None, logs := append_log (logs s1) (ScanLog (Scanning None))\<rparr>"
  have "played (map (Pair sample_env) (scan_keys @ search_keys)) (initial_tui [sample_device])"
    by (simp add: session_simps Let_def)
  then have "tui_reachable [sample_device] s1" unfolding s1_def by (rule session_reachable)
  moreover have at_work: "worker s1 = ScanningWorker \<lparr>so_source = bd_path sample_device, so_database = ascii ''scan.db'', so_target = None\<rparr>"
    by (simp add: s1_def session_simps Let_def)
  ultimately have "tui_reachable [sample_device] s"
    unfolding tui_reachable_def s_def by (metis rtranclp.rtrancl_into_rtrancl tui_step.worked scan_step.progress)
  moreover have "worker s = worker s1" "logs s \<noteq> []" by (simp_all add: s_def append_log_def Let_def)
  moreover have "handle_event sample_env (Character (ascii ''d'')) s = (True, run_recover sample_env True (s\<lparr>destination_path := ascii ''/home/recovered''\<rparr>))"
    by (simp add: s_def s1_def session_simps path_append_def SLASH_def Let_def)
  moreover have "logs (run_recover sample_env True (s\<lparr>destination_path := ascii ''/home/recovered''\<rparr>)) = []"
      "runs (run_recover sample_env True (s\<lparr>destination_path := ascii ''/home/recovered''\<rparr>)) \<noteq> runs s"
    by (simp_all add: s_def s1_def session_simps Let_def)
  moreover have "tui_step s (s\<lparr>logs := append_log (logs s) (ScanLog (Scanning None))\<rparr>)"
    using tui_step.worked [OF scan_step.progress [where s = s and stats = "shown_stats s" and n = "scan_total s"]] at_work \<open>worker s = worker s1\<close> by simp
  ultimately show ?thesis using at_work by fastforce
qed

end
