(* ===== verification/SourceLifetime.thy ===== *)
theory SourceLifetime
  imports PathSafety
begin

text \<open>
  The life of \<open>Source\<close> objects of \<open>src/PathSafety.cpp\<close>: construction, the two moves and the destructor
  over a store of objects and the open descriptors. The kernel may hand out a closed number again, so
  a descriptor closed twice would close another object's.
\<close>

section \<open>The operations\<close>

text \<open>\<open>misclosed\<close> records a close of a number that is not open.\<close>

record source_store =
  objects :: "nat \<rightharpoonup> source"
  open_fds :: "int set"
  misclosed :: bool

definition close_fd :: "int \<Rightarrow> source_store \<Rightarrow> source_store" where
  "close_fd fd st = st\<lparr>open_fds := open_fds st - {fd}, misclosed := (misclosed st \<or> fd \<notin> open_fds st)\<rparr>"

text \<open>What a move leaves behind; the library does not say which path a moved-from path is.\<close>

definition moved_from :: "path \<Rightarrow> source \<Rightarrow> source" where
  "moved_from rest src = src\<lparr>src_fd := -1, src_path := rest\<rparr>"

definition constructed :: "nat \<Rightarrow> source \<Rightarrow> source_store \<Rightarrow> source_store" where
  "constructed i src st = st\<lparr>objects := (objects st)(i \<mapsto> src), open_fds := insert (src_fd src) (open_fds st)\<rparr>"

definition move_construct :: "path \<Rightarrow> nat \<Rightarrow> nat \<Rightarrow> source_store \<Rightarrow> source_store" where
  "move_construct rest i j st =
     (case objects st j of
        None \<Rightarrow> st
      | Some other \<Rightarrow> st\<lparr>objects := (objects st)(i \<mapsto> other, j \<mapsto> moved_from rest other)\<rparr>)"

definition move_assign :: "path \<Rightarrow> nat \<Rightarrow> nat \<Rightarrow> source_store \<Rightarrow> source_store" where
  "move_assign rest i j st =
     (if i = j then st
      else (case (objects st i, objects st j) of
              (Some this, Some other) \<Rightarrow>
                (let st1 = (if src_fd this \<ge> 0 then close_fd (src_fd this) st else st)
                 in st1\<lparr>objects := (objects st1)(i \<mapsto> other, j \<mapsto> moved_from rest other)\<rparr>)
            | _ \<Rightarrow> st))"

definition destroy_source :: "nat \<Rightarrow> source_store \<Rightarrow> source_store" where
  "destroy_source i st =
     (case objects st i of
        None \<Rightarrow> st
      | Some src \<Rightarrow>
          (let st1 = (if src_fd src \<ge> 0 then close_fd (src_fd src) st else st)
           in st1\<lparr>objects := (objects st1)(i := None)\<rparr>))"

text \<open>Objects are made at places that hold none, and the descriptor of a new one is not open yet.\<close>

inductive source_step :: "source_store \<Rightarrow> source_store \<Rightarrow> bool" where
  made: "objects st i = None \<Longrightarrow> src_fd src \<ge> 0 \<Longrightarrow> src_fd src \<notin> open_fds st \<Longrightarrow> source_step st (constructed i src st)"
| move_made: "objects st i = None \<Longrightarrow> source_step st (move_construct rest i j st)"
| assigned: "source_step st (move_assign rest i j st)"
| destroyed: "source_step st (destroy_source i st)"

section \<open>Ownership\<close>

text \<open>The descriptor each place holds: what the operations are about.\<close>

definition held :: "source_store \<Rightarrow> nat \<rightharpoonup> int" where
  "held st i = (case objects st i of None \<Rightarrow> None | Some src \<Rightarrow> if 0 \<le> src_fd src then Some (src_fd src) else None)"

definition sole :: "(nat \<rightharpoonup> int) \<Rightarrow> bool" where
  "sole m \<longleftrightarrow> (\<forall>i j x. m i = Some x \<longrightarrow> m j = Some x \<longrightarrow> i = j)"

text \<open>Every open descriptor has exactly one owner, every owner's descriptor is open, and no close went wrong.\<close>

definition fds_owned :: "source_store \<Rightarrow> bool" where
  "fds_owned st \<longleftrightarrow> \<not> misclosed st \<and> open_fds st = ran (held st) \<and> sole (held st)"

lemma held_constructed: "0 \<le> src_fd src \<Longrightarrow> held (constructed i src st) = (held st)(i \<mapsto> src_fd src)"
  by (auto simp: held_def constructed_def fun_eq_iff)

lemma held_move_construct:
  "objects st j = Some other \<Longrightarrow> i \<noteq> j \<Longrightarrow> held (move_construct rest i j st) = (held st)(i := held st j, j := None)"
  by (auto simp: held_def move_construct_def moved_from_def fun_eq_iff)

lemma held_close: "held (close_fd fd st) = held st"
  by (simp add: held_def close_fd_def fun_eq_iff)

lemma ran_move:
  assumes "m i = None" "i \<noteq> j"
  shows "ran (m(i := m j, j := None)) = ran m"
proof (rule set_eqI)
  fix x
  have "(\<exists>a. (m(i := m j, j := None)) a = Some x) \<longleftrightarrow> (\<exists>a. m a = Some x)"
    using assms by (metis fun_upd_apply option.distinct(1))
  then show "x \<in> ran (m(i := m j, j := None)) \<longleftrightarrow> x \<in> ran m" by (simp add: ran_def)
qed

lemma sole_move: "sole m \<Longrightarrow> m i = None \<Longrightarrow> i \<noteq> j \<Longrightarrow> sole (m(i := m j, j := None))"
  unfolding sole_def by (metis fun_upd_apply option.distinct(1))

lemma ran_drop:
  assumes "sole m" "m i = Some x"
  shows "ran (m(i := None)) = ran m - {x}"
proof (rule set_eqI)
  fix y
  have "(\<exists>a. (m(i := None)) a = Some y) \<longleftrightarrow> (\<exists>a. m a = Some y) \<and> y \<noteq> x"
    using assms unfolding sole_def by (metis fun_upd_apply option.distinct(1) option.inject)
  then show "y \<in> ran (m(i := None)) \<longleftrightarrow> y \<in> ran m - {x}" by (simp add: ran_def)
qed

lemma sole_drop: "sole m \<Longrightarrow> sole (m(i := None))"
  by (simp add: sole_def)

lemma sole_add: "sole m \<Longrightarrow> x \<notin> ran m \<Longrightarrow> sole (m(i \<mapsto> x))"
  by (auto simp: sole_def ran_def)

lemma owned_made:
  assumes "fds_owned st" "objects st i = None" "0 \<le> src_fd src" "src_fd src \<notin> open_fds st"
  shows "fds_owned (constructed i src st)"
proof -
  have n: "held st i = None" using assms(2) by (simp add: held_def)
  have "src_fd src \<notin> ran (held st)" using assms(1,4) by (simp add: fds_owned_def)
  then have "sole ((held st)(i \<mapsto> src_fd src))" using assms(1) by (simp add: fds_owned_def sole_add)
  then show ?thesis using assms(1) n
    by (simp add: fds_owned_def held_constructed [OF assms(3)]) (simp add: constructed_def)
qed

text \<open>Releasing what a place holds.\<close>

definition release :: "nat \<Rightarrow> source \<Rightarrow> source_store \<Rightarrow> source_store" where
  "release i src st = (if 0 \<le> src_fd src then close_fd (src_fd src) st else st)"

lemma release_owned:
  assumes "fds_owned st" "objects st i = Some src"
  shows "\<not> misclosed (release i src st)" "open_fds (release i src st) = ran ((held st)(i := None))"
    "objects (release i src st) = objects st"
proof -
  have "src_fd src \<in> ran (held st)" if "0 \<le> src_fd src"
    using assms(2) that by (intro ranI [of _ i]) (simp add: held_def)
  then show "\<not> misclosed (release i src st)" using assms(1) by (simp add: release_def close_fd_def fds_owned_def)
  have "held st i = (if 0 \<le> src_fd src then Some (src_fd src) else None)" using assms(2) by (simp add: held_def)
  then show "open_fds (release i src st) = ran ((held st)(i := None))"
    using assms(1) ran_drop [of "held st" i "src_fd src"] by (auto simp: release_def close_fd_def fds_owned_def fun_upd_idem)
  show "objects (release i src st) = objects st" by (simp add: release_def close_fd_def)
qed

lemma owned_destroyed:
  assumes "fds_owned st"
  shows "fds_owned (destroy_source i st)"
proof (cases "objects st i")
  case None
  then show ?thesis using assms by (simp add: destroy_source_def)
next
  case (Some src)
  have d: "destroy_source i st = (release i src st)\<lparr>objects := (objects st)(i := None)\<rparr>"
    using Some release_owned(3) [OF assms Some] by (simp add: destroy_source_def release_def Let_def split: if_splits)
  have "held (destroy_source i st) = (held st)(i := None)" by (auto simp: d held_def fun_eq_iff)
  then show ?thesis using release_owned(1,2) [OF assms Some] sole_drop assms by (simp add: fds_owned_def d)
qed

lemma owned_assigned:
  assumes "fds_owned st"
  shows "fds_owned (move_assign rest i j st)"
proof (cases "i \<noteq> j \<and> (\<exists>a b. objects st i = Some a \<and> objects st j = Some b)")
  case False
  then show ?thesis using assms by (auto simp: move_assign_def split: option.splits)
next
  case True
  then obtain a b where ab: "i \<noteq> j" "objects st i = Some a" "objects st j = Some b" by blast
  let ?m = "(held st)(i := None)"
  have e: "move_assign rest i j st = (release i a st)\<lparr>objects := (objects st)(i \<mapsto> b, j \<mapsto> moved_from rest b)\<rparr>"
    using ab release_owned(3) [OF assms ab(2)] by (simp add: move_assign_def release_def Let_def split: if_splits)
  have h: "held (move_assign rest i j st) = ?m(i := ?m j, j := None)"
    using ab by (auto simp: e held_def moved_from_def fun_eq_iff)
  have "sole ?m" using assms sole_drop by (simp add: fds_owned_def)
  then show ?thesis
    using release_owned(1,2) [OF assms ab(2)] ran_move [of ?m i j] sole_move [of ?m i j] ab(1)
    unfolding fds_owned_def h by (simp add: e)
qed

lemma owned_move_made:
  assumes "fds_owned st" "objects st i = None"
  shows "fds_owned (move_construct rest i j st)"
proof (cases "objects st j")
  case None
  then show ?thesis using assms by (simp add: move_construct_def)
next
  case (Some b)
  have ij: "i \<noteq> j" using assms(2) Some by auto
  have n: "held st i = None" using assms(2) by (simp add: held_def)
  have "ran ((held st)(i := held st j, j := None)) = ran (held st)" using n ij by (rule ran_move)
  moreover have "sole ((held st)(i := held st j, j := None))"
    using assms(1) n ij by (intro sole_move) (simp_all add: fds_owned_def)
  ultimately show ?thesis using assms(1) unfolding fds_owned_def held_move_construct [OF Some ij]
    by (simp add: move_construct_def Some)
qed

text \<open>
  No sequence of constructions, moves and destructions closes a descriptor twice or one that belongs to
  another object, and none is leaked: when no object is left, no descriptor is open.
\<close>

theorem source_ownership:
  assumes "source_step\<^sup>*\<^sup>* \<lparr>objects = (\<lambda>i. None), open_fds = {}, misclosed = False\<rparr> st"
  shows "\<not> misclosed st \<and> open_fds st = ran (held st) \<and> ((\<forall>i. objects st i = None) \<longrightarrow> open_fds st = {})"
proof -
  have "fds_owned st" using assms
  proof (induction rule: rtranclp_induct)
    case base
    show ?case by (simp add: fds_owned_def held_def ran_def sole_def)
  next
    case (step s s')
    from step(2,3) show ?case
      by (cases rule: source_step.cases) (auto intro: owned_made owned_move_made owned_assigned owned_destroyed)
  qed
  then show ?thesis by (auto simp: fds_owned_def held_def ran_def)
qed

lemma source_ownership_witness:
  "let st = destroy_source 1 (move_construct [] 1 0 (constructed 0 \<lparr>src_fd = 3, src_path = [], src_device = 0, src_is_block = False\<rparr>
      \<lparr>objects = (\<lambda>i. None), open_fds = {}, misclosed = False\<rparr>))
   in \<not> misclosed (destroy_source 0 st) \<and> open_fds st = {}"
proof -
  let ?src = "\<lparr>src_fd = 3, src_path = [], src_device = 0, src_is_block = False\<rparr>"
  let ?st0 = "\<lparr>objects = (\<lambda>i. None), open_fds = {}, misclosed = False\<rparr>"
  let ?st1 = "constructed 0 ?src ?st0"
  let ?st2 = "move_construct [] 1 0 ?st1"
  have "source_step ?st0 ?st1" by (rule made) simp_all
  moreover have "source_step ?st1 ?st2" by (rule move_made) (simp add: constructed_def)
  moreover have "source_step ?st2 (destroy_source 1 ?st2)" "source_step (destroy_source 1 ?st2) (destroy_source 0 (destroy_source 1 ?st2))"
    by (rule destroyed)+
  ultimately have "source_step\<^sup>*\<^sup>* ?st0 (destroy_source 0 (destroy_source 1 ?st2))"
    by (meson converse_rtranclp_into_rtranclp rtranclp.rtrancl_refl)
  from source_ownership [OF this] show ?thesis
    by (simp add: destroy_source_def move_construct_def constructed_def moved_from_def close_fd_def Let_def)
qed

end
