(* ===== verification/Spec2Isabelle.thy ===== *)
theory Spec2Isabelle
  imports CommandLine TuiProperties SourceLifetime
begin

text \<open>
  A verification library for JustGiveMyDisk, a recovery helper for damaged NTFS volumes.

  \<^bold>\<open>The program.\<close> A scan reads a block device or image in blocks of 1024 bytes, parses every block that
  looks like a FILE record of the master file table, and stores one row per file name in an SQLite
  index. A recovery walks the index from a directory, turns the names it meets into safe relative
  paths, looks for the FILE records of the files on the source again, and copies the unnamed data
  stream of each into the destination, through a \<open>.partial\<close> file that is published by a rename.
  Before anything is written, the destination and the path of the index are checked not to lie on the
  source. A terminal interface drives both.

  \<^bold>\<open>Theories and sources\<close>, in the order of their dependencies:

  \<^item> \<open>Prelude\<close>: the machine integers as words, raw accesses that keep a read or write outside a buffer
    as the value \<open>OutOfBounds\<close>, lemmas the components share. \<open>Decimal\<close>: numbers as text.
  \<^item> \<open>LittleEndian\<close>, \<open>Utf\<close>, \<open>DataRuns\<close>, \<open>MftRecord\<close>: \<open>src/Utf.cpp\<close> and \<open>src/MftRecord.cpp\<close>, one
    function of the model per function or loop of the code. \<open>Fixtures\<close>: the encoder of
    \<open>tests/NtfsFixtures.cpp\<close>. \<open>UpdateSequence\<close>, \<open>ParserProperties\<close>: what the parser promises.
  \<^item> \<open>OutputNames\<close>, \<open>FileSystem\<close>, \<open>AtomicFile\<close>, \<open>Publication\<close>: \<open>src/RecoveryOutput.cpp\<close>.
  \<^item> \<open>IndexOpening\<close>: what \<open>sqlite3_open\<close> in the constructor of \<open>src/Database.cpp\<close> does to the file system.
  \<^item> \<open>RecoverTree\<close>, \<open>RecoverData\<close>, \<open>RecordLocation\<close>, \<open>RecoverRun\<close>: \<open>src/Recover.cpp\<close>;
    \<open>TreeCollection\<close>, \<open>RecoverContent\<close>, \<open>RecoverFile\<close>, \<open>RunEffects\<close>, \<open>RunConfinement\<close>,
    \<open>RunProperties\<close>: what its functions promise.
  \<^item> \<open>PathSafety\<close>, \<open>PathValidation\<close>, \<open>SourceLifetime\<close>: \<open>src/PathSafety.cpp\<close>.
  \<^item> \<open>RecordIndex\<close>, \<open>Scanner\<close>, \<open>IndexProperties\<close>: \<open>src/Database.cpp\<close> and \<open>src/Scanner.cpp\<close>.
  \<^item> \<open>LogText\<close>: the lines reported. \<open>CommandLine\<close>: the commands of \<open>src/main.cpp\<close>. \<open>TuiText\<close>, \<open>TuiMachine\<close>: \<open>src/Tui.cpp\<close>;
    \<open>TuiTextProperties\<close>, \<open>TuiInvariant\<close>, \<open>TuiReachable\<close>, \<open>TuiProperties\<close>: what it promises.

  \<^bold>\<open>How state and effects correspond.\<close> A structure of the code is a record with its fields, an
  exception or early return is \<open>Inl\<close>, \<open>None\<close> or a constructor of an error type. The record \<open>os\<close> is
  the file system with its open descriptors and the bytes of the source; each POSIX call of the code is
  a function on it. The \<open>script\<close> of an \<open>os\<close> decides call by call whether it succeeds, fails with an
  error or transfers only a part, and what other processes create meanwhile; theorems hold for every
  script. Outside of it are the answers of \<open>host\<close> (paths, \<open>stat\<close>, sysfs), the calls of SQLite, a
  parameter of type \<open>'c sqlite\<close>, and the unspecified orders of \<open>std::sort\<close> and of the hash map.
\<close>

text \<open>
  \<^bold>\<open>What the lemmas show.\<close>

  \<^item> Parser: no read or write outside the buffer on any input; \<open>restore_usa\<close> accepts exactly the intact
    records; both passes over the attributes are one walk (locale \<open>attribute_pass\<close>); the run-list
    decoder equals a reference and inverts the encoder; names come out as valid UTF-8 of their code
    points. Readers and writers of integers share the locale \<open>le_codec\<close>.
  \<^item> Output: a sanitized name is one safe component; collected paths are safe, and no two differ only in
    the case of ASCII letters; a file is published whole or not at all, and nothing that existed is
    lost unless it may be overwritten.
  \<^item> Recovery: the tree collected is exactly what is reachable (locale \<open>child_order\<close> for the order of
    the children); a file reported as recovered has the content of its stream; a run writes only below
    its destination and accounts for every item. Opening the index creates the index when it is missing:
    a run, also a dry one, may leave these files next to it, and a dry run leaves nothing else.
  \<^item> Index and scan: rows survive insertion and reading back; a scan indexes every name of every block
    or leaves a whole index when it fails; composed, a recovery through a scanned index recovers what
    is on the volume, at the path its records give it.
  \<^item> Path safety: exactly which paths are accepted, bounds on the devices taken as related, and that
    each descriptor of a source has one owner and is closed once.
  \<^item> Interface: the reader of the output of \<open>lsblk\<close> finds the objects and strings a writer puts there;
    the handler of events with the scanning thread is a step relation whose invariants are instances
    of the locale \<open>step_invariant\<close>: what each page has, that a recovery that writes follows its dry run, that
    the first pages are left for good, and which keys no field can hold.

  \<^bold>\<open>Termination.\<close> No fuel is used. Loops over a buffer end because each turn consumes bytes or because
  the checks of the code make the offset grow; the write and read loops end because every turn uses up
  an entry of the script or transfers at least one byte; the walks over the index keep a set of visited
  numbers, which are 64-bit words, or a bounded depth.

  \<^bold>\<open>Assumptions.\<close> A read before the end of the source returns at least one byte, unless it fails; other
  processes create entries at free paths only; \<open>sqlite_documented\<close> states what SQLite documents of the
  statements the code runs, that no other process writes to the index, and a table in memory satisfies
  it. Which files SQLite creates when they are missing is a field of the parameter;
  \<open>creates_index_files\<close> states what it documents: the database, its journal and the two files of the
  write-ahead log. The answers of SQLite do not depend on the state \<open>os\<close>.

  \<^bold>\<open>Not modelled.\<close> What SQLite writes into its own files, in a recovery too, and that it removes the side
  files when a connection closes: a property that a path or node is unchanged speaks of these files only
  as far as the program itself goes. The interleaving inside \<open>run_recover\<close>, which is one step of the
  interface, with a scan that runs meanwhile: both write to the log, one of them without the lock. The
  drawing of the pages and the widgets of FTXUI: an event the handler passes on may
  change the indices and edit the text fields, and nothing else. What
  \<open>lsblk\<close> prints: it is an argument. \<open>human_size\<close>, which computes with floating-point numbers, and
  \<open>device_line\<close>, which pads by display width: texts that are only shown. The parsing of the options by
  CLI11. The texts of exceptions, which appear as values of the error types, and the percentage of the
  progress lines, a floating-point number. The destructor of \<open>Database\<close>, which only releases handles. The
  malformed-record helpers of the fixtures, the test drivers, the fuzz harness and the build files.
\<close>

end
